(* ===== verification/Gos_Prelude.thy ===== *)
theory Gos_Prelude
  imports Main "HOL-Library.Word"
begin

text \<open>
  Shared vocabulary of the development: the C integer types as words, the
  wrap-around of \<^verbatim>\<open>size_t\<close>/\<^verbatim>\<open>uintptr_t\<close> arithmetic written out on \<^typ>\<open>nat\<close>,
  the named collections the component theories feed, and generic lemmas on
  lists and words.
\<close>

unbundle bit_operations_syntax

section \<open>Integer types of \<^verbatim>\<open>include/gOS/stdint.h\<close>\<close>

type_synonym u8 = "8 word"
type_synonym u16 = "16 word"
type_synonym u32 = "32 word"
type_synonym u64 = "64 word"

text \<open>The conversion \<^verbatim>\<open>(int)n\<close> of a \<^verbatim>\<open>size_t\<close>, and the bytes of a string literal.\<close>

definition to_int :: "nat \<Rightarrow> int" where
  "to_int n = sint (word_of_nat n :: u32)"

definition bytes :: "string \<Rightarrow> u8 list" where
  "bytes s = map of_char s"

section \<open>64-bit unsigned arithmetic on \<^typ>\<open>nat\<close>\<close>

text \<open>
  Counters and addresses that are only added, subtracted and compared are kept
  as natural numbers below \<open>2 ^ 64\<close>; these operations write the wrap-around of
  the source's \<^verbatim>\<open>++\<close>, \<^verbatim>\<open>--\<close> and \<^verbatim>\<open>+\<close> out.
\<close>

definition inc64 :: "nat \<Rightarrow> nat" where
  "inc64 n = (n + 1) mod 2 ^ 64"

definition dec64 :: "nat \<Rightarrow> nat" where
  "dec64 n = (n + (2 ^ 64 - 1)) mod 2 ^ 64"

definition add64 :: "nat \<Rightarrow> nat \<Rightarrow> nat" where
  "add64 m n = (m + n) mod 2 ^ 64"

definition sub64 :: "nat \<Rightarrow> nat \<Rightarrow> nat" where
  "sub64 m n = (m + (2 ^ 64 - n)) mod 2 ^ 64"

text \<open>
  What the model says where the C program has no defined continuation: an access
  outside an object, a null dereference, a division by zero, an access the page tables do not map, or the \<^verbatim>\<open>cli(); hlt(); for (;;)\<close> stop.
\<close>

datatype fault = OutOfBounds | NullDeref | DivideError | PageFault | Halted

type_synonym 'a res = "fault + 'a"

text \<open>Sequencing of steps that may fault; a loop whose body may fault stops at the fault.\<close>

definition res_bind :: "'a res \<Rightarrow> ('a \<Rightarrow> 'b res) \<Rightarrow> 'b res" where
  "res_bind r f = (case r of Inl e \<Rightarrow> Inl e | Inr x \<Rightarrow> f x)"

fun res_fold :: "('i \<Rightarrow> 'a \<Rightarrow> 'a res) \<Rightarrow> 'i list \<Rightarrow> 'a \<Rightarrow> 'a res" where
  "res_fold f [] s = Inr s"
| "res_fold f (i # is) s = res_bind (f i s) (res_fold f is)"

section \<open>Collections\<close>

named_theorems wrap_simps \<open>wrap-around operations that do not wrap\<close>
named_theorems pres \<open>what an operation leaves unchanged\<close>

lemma to_int_small: "n < 2 ^ 31 \<Longrightarrow> to_int n = int n"
  by (simp add: to_int_def signed_of_nat signed_take_bit_int_eq_self)

lemma inc64_nowrap [wrap_simps]: "n + 1 < 2 ^ 64 \<Longrightarrow> inc64 n = n + 1"
  by (simp add: inc64_def)

lemma dec64_nowrap [wrap_simps]: "0 < n \<Longrightarrow> n < 2 ^ 64 \<Longrightarrow> dec64 n = n - 1"
proof -
  assume "0 < n" "n < 2 ^ 64"
  then have "n + (2 ^ 64 - 1) = (n - 1) + 2 ^ 64" by simp
  then have "dec64 n = (n - 1) mod 2 ^ 64" by (simp only: dec64_def mod_add_self2)
  then show ?thesis using \<open>n < 2 ^ 64\<close> by simp
qed

lemma add64_nowrap [wrap_simps]: "m + n < 2 ^ 64 \<Longrightarrow> add64 m n = m + n"
  by (simp add: add64_def)

lemma sub64_nowrap [wrap_simps]: "n \<le> m \<Longrightarrow> m < 2 ^ 64 \<Longrightarrow> sub64 m n = m - n"
proof -
  assume "n \<le> m" "m < 2 ^ 64"
  then have "m + (2 ^ 64 - n) = (m - n) + 2 ^ 64" by simp
  then have "sub64 m n = (m - n) mod 2 ^ 64" by (simp only: sub64_def mod_add_self2)
  then show ?thesis using \<open>m < 2 ^ 64\<close> by simp
qed

lemma dec64_zero: "dec64 0 = 2 ^ 64 - 1"
  by (simp add: dec64_def)

lemma res_bind_simps [simp]: "res_bind (Inr x) f = f x" "res_bind (Inl e) f = Inl e"
  by (simp_all add: res_bind_def)

lemma res_bind_eq_Inr: "res_bind r f = Inr y \<longleftrightarrow> (\<exists>x. r = Inr x \<and> f x = Inr y)"
  by (cases r) auto

lemma res_fold_append: "res_fold f (xs @ ys) s = res_bind (res_fold f xs s) (res_fold f ys)"
proof (induction xs arbitrary: s)
  case (Cons x xs) then show ?case by (cases "f x s") auto
qed simp

text \<open>A loop with an invariant: every body run from it succeeds and keeps it.\<close>

lemma res_fold_upt_inv:
  assumes "P 0 s" and step: "\<And>i s. i < n \<Longrightarrow> P i s \<Longrightarrow> \<exists>s'. f i s = Inr s' \<and> P (Suc i) s'"
  shows "\<exists>s'. res_fold f [0..<n] s = Inr s' \<and> P n s'"
  using step
proof (induction n)
  case 0 then show ?case using assms(1) by simp
next
  case (Suc n)
  then obtain s' where "res_fold f [0..<n] s = Inr s'" "P n s'" by fastforce
  then show ?case using Suc.prems[of n s'] by (auto simp: res_fold_append)
qed

section \<open>Bits of words\<close>

text \<open>A shifted one \<^verbatim>\<open>1 << k\<close> is simplified to \<open>2 ^ k\<close>; the mask lemmas are stated in that form.\<close>

lemma and_mask_bit_iff:
  fixes w :: "'a::len word"
  assumes "k < LENGTH('a)"
  shows "w AND 2 ^ k \<noteq> 0 \<longleftrightarrow> bit w k"
  by (simp add: and_exp_eq_0_iff_not_bit)

lemma bit_or_mask_iff:
  fixes w :: "'a::len word"
  assumes "k < LENGTH('a)" "j < LENGTH('a)"
  shows "bit (w OR 2 ^ k) j \<longleftrightarrow> j = k \<or> bit w j"
  using assms by (auto simp: bit_or_iff bit_push_bit_iff bit_1_iff bit_exp_iff)

lemma bit_andnot_mask_iff:
  fixes w :: "'a::len word"
  assumes "k < LENGTH('a)" "j < LENGTH('a)"
  shows "bit (w AND NOT (2 ^ k)) j \<longleftrightarrow> j \<noteq> k \<and> bit w j"
  using assms by (auto simp: bit_and_iff bit_not_iff bit_push_bit_iff bit_1_iff bit_exp_iff)

lemma bit_xor_mask_iff:
  fixes w :: "'a::len word"
  assumes "k < LENGTH('a)" "j < LENGTH('a)"
  shows "bit (w XOR 2 ^ k) j \<longleftrightarrow> (if j = k then \<not> bit w j else bit w j)"
  using assms by (auto simp: bit_xor_iff bit_push_bit_iff bit_1_iff bit_exp_iff)

lemmas mask_bit_iffs = and_mask_bit_iff bit_or_mask_iff bit_andnot_mask_iff bit_xor_mask_iff

end
