(* ===== verification/Gos_Bitmap.thy ===== *)
theory Gos_Bitmap
  imports Gos_Prelude
begin

text \<open>
  Byte-array bitmaps: the inline helpers of \<^verbatim>\<open>lib/bitmap.h\<close>. A bitmap is the
  list of its bytes. The interface other components rely on (what a test
  returns after a set or a clear) is the locale \<open>bit_array\<close>; its client lemmas
  (ranges, number of set bits) are proved once and used by \<^verbatim>\<open>lib/bitmap.h\<close> and by
  the physical memory manager, whose own bit helpers interpret it too.
\<close>

section \<open>The interface\<close>

locale bit_array =
  fixes nbits :: "'b \<Rightarrow> nat"
    and test :: "'b \<Rightarrow> nat \<Rightarrow> bool"
    and setb :: "'b \<Rightarrow> nat \<Rightarrow> 'b"
    and clearb :: "'b \<Rightarrow> nat \<Rightarrow> 'b"
  assumes nbits_setb: "nbits (setb b i) = nbits b"
    and nbits_clearb: "nbits (clearb b i) = nbits b"
    and test_setb: "i < nbits b \<Longrightarrow> j < nbits b \<Longrightarrow> test (setb b i) j \<longleftrightarrow> j = i \<or> test b j"
    and test_clearb: "i < nbits b \<Longrightarrow> j < nbits b \<Longrightarrow> test (clearb b i) j \<longleftrightarrow> j \<noteq> i \<and> test b j"
    and bits_ext: "nbits b = nbits c \<Longrightarrow> (\<And>i. i < nbits b \<Longrightarrow> test b i = test c i) \<Longrightarrow> b = c"
begin

lemmas nbits_simps = nbits_setb nbits_clearb

lemma nbits_set_range: "nbits (fold (\<lambda>i b. setb b (s + i)) is b) = nbits b"
  by (induction "is" arbitrary: b) (simp_all add: nbits_simps)

lemma nbits_clear_range: "nbits (fold (\<lambda>i b. clearb b (s + i)) is b) = nbits b"
  by (induction "is" arbitrary: b) (simp_all add: nbits_simps)

lemma test_set_range:
  assumes "s + n \<le> nbits b" "j < nbits b"
  shows "test (fold (\<lambda>i b. setb b (s + i)) [0..<n] b) j \<longleftrightarrow> s \<le> j \<and> j < s + n \<or> test b j"
  using assms by (induction n) (auto simp: test_setb nbits_set_range)

lemma test_clear_range:
  assumes "s + n \<le> nbits b" "j < nbits b"
  shows "test (fold (\<lambda>i b. clearb b (s + i)) [0..<n] b) j \<longleftrightarrow> \<not> (s \<le> j \<and> j < s + n) \<and> test b j"
  using assms by (induction n) (auto simp: test_clearb nbits_clear_range)

lemma set_clear_id:
  assumes "i < nbits b" "\<not> test b i"
  shows "clearb (setb b i) i = b"
  using assms by (intro bits_ext) (auto simp: nbits_simps test_setb test_clearb)

lemma count_setb:
  assumes "i < nbits b" "\<not> test b i" "lo \<le> i" "i < hi" "hi \<le> nbits b"
  shows "card {p \<in> {lo..<hi}. test (setb b i) p} = Suc (card {p \<in> {lo..<hi}. test b p})"
proof -
  have "{p \<in> {lo..<hi}. test (setb b i) p} = insert i {p \<in> {lo..<hi}. test b p}"
    using assms by (auto simp: test_setb)
  then show ?thesis using assms(2) by simp
qed

lemma count_clearb:
  assumes "i < nbits b" "test b i" "lo \<le> i" "i < hi" "hi \<le> nbits b"
  shows "Suc (card {p \<in> {lo..<hi}. test (clearb b i) p}) = card {p \<in> {lo..<hi}. test b p}"
proof -
  have "{p \<in> {lo..<hi}. test b p} = insert i {p \<in> {lo..<hi}. test (clearb b i) p}"
    using assms by (auto simp: test_clearb)
  moreover have "i \<notin> {p \<in> {lo..<hi}. test (clearb b i) p}"
    using assms by (auto simp: test_clearb)
  ultimately show ?thesis by simp
qed

lemma count_set_range:
  assumes "lo \<le> s" "s + n \<le> hi" "hi \<le> nbits b" "\<forall>k<n. \<not> test b (s + k)"
  shows "card {p \<in> {lo..<hi}. test (fold (\<lambda>i b. setb b (s + i)) [0..<n] b) p}
       = card {p \<in> {lo..<hi}. test b p} + n"
proof -
  have "{p \<in> {lo..<hi}. test (fold (\<lambda>i b. setb b (s + i)) [0..<n] b) p}
      = {p \<in> {lo..<hi}. test b p} \<union> {s..<s + n}"
    using assms(1-3) by (auto simp: test_set_range)
  moreover have "{p \<in> {lo..<hi}. test b p} \<inter> {s..<s + n} = {}"
    using assms(4) by (auto simp: le_iff_add)
  ultimately show ?thesis by (simp add: card_Un_disjoint)
qed

end

section \<open>\<^verbatim>\<open>lib/bitmap.h\<close>\<close>

type_synonym bitmap = "u8 list"

definition bitmap_get :: "bitmap \<Rightarrow> nat \<Rightarrow> bool" where
  "bitmap_get bitmap k = (bitmap ! (k div 8) AND push_bit (k mod 8) 1 \<noteq> 0)"

definition bitmap_set :: "bitmap \<Rightarrow> nat \<Rightarrow> bitmap" where
  "bitmap_set bitmap k = bitmap[k div 8 := bitmap ! (k div 8) OR push_bit (k mod 8) 1]"

definition bitmap_clear :: "bitmap \<Rightarrow> nat \<Rightarrow> bitmap" where
  "bitmap_clear bitmap k =
     bitmap[k div 8 := bitmap ! (k div 8) AND NOT (push_bit (k mod 8) 1)]"

definition bitmap_toggle :: "bitmap \<Rightarrow> nat \<Rightarrow> bitmap" where
  "bitmap_toggle bitmap k = bitmap[k div 8 := bitmap ! (k div 8) XOR push_bit (k mod 8) 1]"

text \<open>The two searches are \<^verbatim>\<open>for\<close> loops over \<^verbatim>\<open>i\<close>; the loop variable is the argument.\<close>

function bitmap_find_set_from :: "bitmap \<Rightarrow> nat \<Rightarrow> nat \<Rightarrow> nat" where
  "bitmap_find_set_from bitmap bits i =
     (if i < bits then (if bitmap_get bitmap i then i else bitmap_find_set_from bitmap bits (i + 1))
      else bits)"
  by pat_completeness auto
termination by (relation "measure (\<lambda>(b, n, i). n - i)") auto

function bitmap_find_clear_from :: "bitmap \<Rightarrow> nat \<Rightarrow> nat \<Rightarrow> nat" where
  "bitmap_find_clear_from bitmap bits i =
     (if i < bits then (if \<not> bitmap_get bitmap i then i else bitmap_find_clear_from bitmap bits (i + 1))
      else bits)"
  by pat_completeness auto
termination by (relation "measure (\<lambda>(b, n, i). n - i)") auto

definition bitmap_find_first_set :: "bitmap \<Rightarrow> nat \<Rightarrow> nat" where
  "bitmap_find_first_set bitmap bits = bitmap_find_set_from bitmap bits 0"

definition bitmap_find_first_clear :: "bitmap \<Rightarrow> nat \<Rightarrow> nat" where
  "bitmap_find_first_clear bitmap bits = bitmap_find_clear_from bitmap bits 0"

definition bitmap_set_range :: "bitmap \<Rightarrow> nat \<Rightarrow> nat \<Rightarrow> bitmap" where
  "bitmap_set_range bitmap start count = fold (\<lambda>i b. bitmap_set b (start + i)) [0..<count] bitmap"

definition bitmap_clear_range :: "bitmap \<Rightarrow> nat \<Rightarrow> nat \<Rightarrow> bitmap" where
  "bitmap_clear_range bitmap start count = fold (\<lambda>i b. bitmap_clear b (start + i)) [0..<count] bitmap"

definition bitmap_count_set :: "bitmap \<Rightarrow> nat \<Rightarrow> nat" where
  "bitmap_count_set bitmap bits = fold (\<lambda>i n. if bitmap_get bitmap i then n + 1 else n) [0..<bits] 0"

abbreviation bitmap_bits :: "bitmap \<Rightarrow> nat" where
  "bitmap_bits bitmap \<equiv> 8 * length bitmap"

declare bitmap_find_set_from.simps [simp del] bitmap_find_clear_from.simps [simp del]

section \<open>The helpers implement the interface\<close>

lemma bitmap_get_bit: "bitmap_get b i \<longleftrightarrow> bit (b ! (i div 8)) (i mod 8)"
  by (simp add: bitmap_get_def and_mask_bit_iff)

lemma same_byte_bit: "(i::nat) div 8 = j div 8 \<Longrightarrow> i mod 8 = j mod 8 \<longleftrightarrow> i = j"
  by (metis div_mult_mod_eq)

lemma bitmap_get_set:
  "i < bitmap_bits b \<Longrightarrow> j < bitmap_bits b \<Longrightarrow> bitmap_get (bitmap_set b i) j \<longleftrightarrow> j = i \<or> bitmap_get b j"
  by (auto simp: bitmap_get_bit bitmap_set_def nth_list_update bit_or_mask_iff same_byte_bit)

lemma bitmap_get_clear:
  "i < bitmap_bits b \<Longrightarrow> j < bitmap_bits b \<Longrightarrow>
     bitmap_get (bitmap_clear b i) j \<longleftrightarrow> j \<noteq> i \<and> bitmap_get b j"
  by (auto simp: bitmap_get_bit bitmap_clear_def nth_list_update bit_andnot_mask_iff same_byte_bit)

lemma bitmap_get_toggle:
  "i < bitmap_bits b \<Longrightarrow> j < bitmap_bits b \<Longrightarrow>
     bitmap_get (bitmap_toggle b i) j \<longleftrightarrow> (if j = i then \<not> bitmap_get b j else bitmap_get b j)"
  by (auto simp: bitmap_get_bit bitmap_toggle_def nth_list_update bit_xor_mask_iff same_byte_bit)

lemma bitmap_ext:
  assumes len: "bitmap_bits b = bitmap_bits c"
    and eq: "\<And>i. i < bitmap_bits b \<Longrightarrow> bitmap_get b i = bitmap_get c i"
  shows "b = c"
proof (rule nth_equalityI)
  show "length b = length c" using len by simp
  fix k assume k: "k < length b"
  show "b ! k = c ! k"
  proof (rule bit_word_eqI)
    fix n assume "n < LENGTH(8)"
    then have n: "n < 8" by simp
    then have "8 * k + n < bitmap_bits b" using k by linarith
    from eq[OF this] n show "bit (b ! k) n = bit (c ! k) n"
      by (simp add: bitmap_get_bit)
  qed
qed

interpretation bm: bit_array bitmap_bits bitmap_get bitmap_set bitmap_clear
  by unfold_locales
    (simp_all add: bitmap_get_set bitmap_get_clear bitmap_ext, simp_all add: bitmap_set_def bitmap_clear_def)

lemma bitmap_find_clear_from_spec:
  "i \<le> n \<Longrightarrow>
     (let r = bitmap_find_clear_from b n i in
        i \<le> r \<and> r \<le> n \<and> (\<forall>k. i \<le> k \<and> k < r \<longrightarrow> bitmap_get b k) \<and> (r < n \<longrightarrow> \<not> bitmap_get b r))"
proof (induction b n i rule: bitmap_find_clear_from.induct)
  case (1 b n i)
  show ?case
    using 1 by (subst (1) bitmap_find_clear_from.simps)
      (auto simp: Let_def le_Suc_eq Suc_le_eq bitmap_find_clear_from.simps[of b n i] dest: le_neq_implies_less)
qed

lemma bitmap_find_set_from_spec:
  "i \<le> n \<Longrightarrow>
     (let r = bitmap_find_set_from b n i in
        i \<le> r \<and> r \<le> n \<and> (\<forall>k. i \<le> k \<and> k < r \<longrightarrow> \<not> bitmap_get b k) \<and> (r < n \<longrightarrow> bitmap_get b r))"
proof (induction b n i rule: bitmap_find_set_from.induct)
  case (1 b n i)
  show ?case
    using 1 by (subst (1) bitmap_find_set_from.simps)
      (auto simp: Let_def le_Suc_eq Suc_le_eq bitmap_find_set_from.simps[of b n i] dest: le_neq_implies_less)
qed

lemma fold_count_eq:
  "fold (\<lambda>i n. if P i then n + 1 else n) xs m = m + length (filter P xs)"
  by (induction xs arbitrary: m) auto

lemma bitmap_count_set_card: "bitmap_count_set b n = card {i \<in> {0..<n}. bitmap_get b i}"
proof -
  have "bitmap_count_set b n = length (filter (bitmap_get b) [0..<n])"
    by (simp add: bitmap_count_set_def fold_count_eq)
  also have "\<dots> = card (set (filter (bitmap_get b) [0..<n]))"
    by (rule distinct_card [symmetric]) simp
  also have "set (filter (bitmap_get b) [0..<n]) = {i \<in> {0..<n}. bitmap_get b i}" by auto
  finally show ?thesis .
qed

end
