(* ===== verification/Gos_Pmm.thy ===== *)
theory Gos_Pmm
  imports Gos_Bitmap
begin

text \<open>
  The physical memory manager, \<^verbatim>\<open>mm/pmm/pmm.c\<close>: a bitmap with one bit per 4 KiB
  page (set = used), a count of used pages and a hint where the search for a free
  page starts. Page numbers and addresses are natural numbers below \<open>2 ^ 64\<close>;
  the address 0 is \<^verbatim>\<open>NULL\<close>. The linker symbol \<^verbatim>\<open>_kernel_end\<close> is a parameter of
  \<open>pmm_init\<close>. Log output is not modelled.
\<close>

section \<open>State and bit helpers\<close>

abbreviation PMM_PAGE_SIZE :: nat where "PMM_PAGE_SIZE \<equiv> 4096"
abbreviation PMM_MAX_PAGES :: nat where "PMM_MAX_PAGES \<equiv> 0x1000000"
abbreviation PMM_BITMAP_SIZE :: nat where "PMM_BITMAP_SIZE \<equiv> PMM_MAX_PAGES div 8"
abbreviation KERNEL_VBASE :: nat where "KERNEL_VBASE \<equiv> 0xFFFFFFFF80000000"

record pmm =
  g_pmm_bitmap :: bitmap
  g_pmm_total_pages :: nat
  g_pmm_used_pages :: nat
  g_pmm_first_free_page :: nat

definition pmm_set_bit :: "bitmap \<Rightarrow> nat \<Rightarrow> bitmap" where
  "pmm_set_bit bm page = bm[page div 8 := bm ! (page div 8) OR push_bit (page mod 8) 1]"

definition pmm_clear_bit :: "bitmap \<Rightarrow> nat \<Rightarrow> bitmap" where
  "pmm_clear_bit bm page = bm[page div 8 := bm ! (page div 8) AND NOT (push_bit (page mod 8) 1)]"

definition pmm_test_bit :: "bitmap \<Rightarrow> nat \<Rightarrow> bool" where
  "pmm_test_bit bm page = (bm ! (page div 8) AND push_bit (page mod 8) 1 \<noteq> 0)"

definition phys_to_page :: "nat \<Rightarrow> nat" where
  "phys_to_page addr = addr div PMM_PAGE_SIZE"

text \<open>\<^verbatim>\<open>x & ~(PMM_PAGE_SIZE - 1)\<close>: the low twelve bits are cleared.\<close>

definition PMM_PAGE_ALIGN_DOWN :: "nat \<Rightarrow> nat" where
  "PMM_PAGE_ALIGN_DOWN x = x - x mod PMM_PAGE_SIZE"

section \<open>Operations\<close>

definition pmm_mark_used_page :: "nat \<Rightarrow> pmm \<Rightarrow> pmm" where
  "pmm_mark_used_page p st =
     (if \<not> pmm_test_bit (g_pmm_bitmap st) p
      then st\<lparr>g_pmm_bitmap := pmm_set_bit (g_pmm_bitmap st) p,
              g_pmm_used_pages := inc64 (g_pmm_used_pages st)\<rparr>
      else st)"

definition pmm_mark_used :: "nat \<Rightarrow> nat \<Rightarrow> pmm \<Rightarrow> pmm" where
  "pmm_mark_used phys_addr pages st =
     (let start_page = phys_to_page (PMM_PAGE_ALIGN_DOWN phys_addr)
      in fold (\<lambda>i st. pmm_mark_used_page (start_page + i) st) [0..<pages] st)"

definition pmm_mark_free_page :: "nat \<Rightarrow> pmm \<Rightarrow> pmm" where
  "pmm_mark_free_page p st =
     (if pmm_test_bit (g_pmm_bitmap st) p
      then st\<lparr>g_pmm_bitmap := pmm_clear_bit (g_pmm_bitmap st) p,
              g_pmm_used_pages := dec64 (g_pmm_used_pages st),
              g_pmm_first_free_page :=
                (if p < g_pmm_first_free_page st then p else g_pmm_first_free_page st)\<rparr>
      else st)"

definition pmm_mark_free :: "nat \<Rightarrow> nat \<Rightarrow> pmm \<Rightarrow> pmm" where
  "pmm_mark_free phys_addr pages st =
     (let start_page = phys_to_page (PMM_PAGE_ALIGN_DOWN phys_addr)
      in fold (\<lambda>i st. pmm_mark_free_page (start_page + i) st) [0..<pages] st)"

text \<open>
  \<open>pmm_init\<close> runs on the zero-initialised globals of the image. The fixed region
  1 MiB to 256 MiB is made available page by page, then the kernel image is marked.
\<close>

definition pmm_init_state :: pmm where
  "pmm_init_state = \<lparr>g_pmm_bitmap = replicate PMM_BITMAP_SIZE 0, g_pmm_total_pages = 0,
     g_pmm_used_pages = 0, g_pmm_first_free_page = 0\<rparr>"

definition pmm_init :: "nat \<Rightarrow> pmm \<Rightarrow> pmm" where
  "pmm_init kernel_end st =
     (let st = st\<lparr>g_pmm_bitmap := map (\<lambda>_. 0xFF) (g_pmm_bitmap st)\<rparr>;
          avail_start = 0x100000;
          avail_end = 0x10000000;
          st = st\<lparr>g_pmm_total_pages := (avail_end - avail_start) div PMM_PAGE_SIZE\<rparr>;
          st = fold (\<lambda>k st. st\<lparr>g_pmm_bitmap := pmm_clear_bit (g_pmm_bitmap st)
                                   (phys_to_page (avail_start + k * PMM_PAGE_SIZE))\<rparr>)
                 [0..<(avail_end - avail_start) div PMM_PAGE_SIZE] st;
          kernel_end_phys = sub64 kernel_end KERNEL_VBASE;
          st = pmm_mark_used 0x100000
                 (add64 (sub64 kernel_end_phys 0x100000) (PMM_PAGE_SIZE - 1) div PMM_PAGE_SIZE) st
      in st\<lparr>g_pmm_first_free_page := phys_to_page avail_start\<rparr>)"

function pmm_scan :: "bitmap \<Rightarrow> nat \<Rightarrow> nat \<Rightarrow> nat option" where
  "pmm_scan bm tot page =
     (if page < tot then (if \<not> pmm_test_bit bm page then Some page else pmm_scan bm tot (page + 1))
      else None)"
  by pat_completeness auto
termination by (relation "measure (\<lambda>(bm, tot, page). tot - page)") auto

definition pmm_alloc_page :: "pmm \<Rightarrow> nat \<times> pmm" where
  "pmm_alloc_page st =
     (case pmm_scan (g_pmm_bitmap st) (g_pmm_total_pages st) (g_pmm_first_free_page st) of
        Some page \<Rightarrow>
          (page * PMM_PAGE_SIZE,
           st\<lparr>g_pmm_bitmap := pmm_set_bit (g_pmm_bitmap st) page,
              g_pmm_used_pages := inc64 (g_pmm_used_pages st),
              g_pmm_first_free_page := page + 1\<rparr>)
      | None \<Rightarrow> (0, st))"

text \<open>
  The inner loop of \<open>pmm_alloc_pages\<close>: the first offset below \<^verbatim>\<open>count\<close> whose page is
  used, if any. Reading past the bitmap is a fault.
\<close>

function pmm_run_blocked :: "bitmap \<Rightarrow> nat \<Rightarrow> nat \<Rightarrow> nat \<Rightarrow> nat option res" where
  "pmm_run_blocked bm page count i =
     (if i < count
      then (if bitmap_bits bm \<le> page + i then Inl OutOfBounds
            else if pmm_test_bit bm (page + i) then Inr (Some i)
            else pmm_run_blocked bm page count (i + 1))
      else Inr None)"
  by pat_completeness auto
termination by (relation "measure (\<lambda>(bm, page, count, i). count - i)") auto

declare pmm_scan.simps [simp del] pmm_run_blocked.simps [simp del]

lemma pmm_run_blocked_bound:
  "pmm_run_blocked bm page count i = Inr (Some k) \<Longrightarrow> page + k < bitmap_bits bm"
  by (induction bm page count i rule: pmm_run_blocked.induct)
    (subst (asm) pmm_run_blocked.simps, auto split: if_splits)

function pmm_find_run :: "bitmap \<Rightarrow> nat \<Rightarrow> nat \<Rightarrow> nat \<Rightarrow> nat option res" where
  "pmm_find_run bm tot count page =
     (if add64 page count \<le> tot
      then (case pmm_run_blocked bm page count 0 of
              Inl f \<Rightarrow> Inl f
            | Inr None \<Rightarrow> Inr (Some page)
            | Inr (Some i) \<Rightarrow> pmm_find_run bm tot count (page + i + 1))
      else Inr None)"
  by pat_completeness auto
termination
  by (relation "measure (\<lambda>(bm, tot, count, page). bitmap_bits bm - page)")
    (auto dest!: pmm_run_blocked_bound)

definition pmm_alloc_pages :: "nat \<Rightarrow> pmm \<Rightarrow> (nat \<times> pmm) res" where
  "pmm_alloc_pages count st =
     (if count = 0 then Inr (0, st)
      else if count = 1 then Inr (pmm_alloc_page st)
      else case pmm_find_run (g_pmm_bitmap st) (g_pmm_total_pages st) count (g_pmm_first_free_page st) of
          Inl f \<Rightarrow> Inl f
        | Inr None \<Rightarrow> Inr (0, st)
        | Inr (Some page) \<Rightarrow>
            Inr (page * PMM_PAGE_SIZE,
                 st\<lparr>g_pmm_bitmap := fold (\<lambda>i bm. pmm_set_bit bm (page + i)) [0..<count] (g_pmm_bitmap st),
                    g_pmm_used_pages := add64 (g_pmm_used_pages st) count,
                    g_pmm_first_free_page := page + count\<rparr>))"

definition pmm_free_page :: "nat \<Rightarrow> pmm \<Rightarrow> pmm" where
  "pmm_free_page page st =
     (if page = 0 then st
      else let p = phys_to_page page in
        if pmm_test_bit (g_pmm_bitmap st) p
        then st\<lparr>g_pmm_bitmap := pmm_clear_bit (g_pmm_bitmap st) p,
                g_pmm_used_pages := dec64 (g_pmm_used_pages st),
                g_pmm_first_free_page :=
                  (if p < g_pmm_first_free_page st then p else g_pmm_first_free_page st)\<rparr>
        else st)"

definition pmm_free_pages :: "nat \<Rightarrow> nat \<Rightarrow> pmm \<Rightarrow> pmm" where
  "pmm_free_pages pages count st =
     (if pages = 0 then st
      else fold (\<lambda>i st. pmm_free_page (add64 pages (i * PMM_PAGE_SIZE)) st) [0..<count] st)"

definition pmm_get_total_memory :: "pmm \<Rightarrow> nat" where
  "pmm_get_total_memory st = g_pmm_total_pages st * PMM_PAGE_SIZE mod 2 ^ 64"

definition pmm_get_used_memory :: "pmm \<Rightarrow> nat" where
  "pmm_get_used_memory st = g_pmm_used_pages st * PMM_PAGE_SIZE mod 2 ^ 64"

definition pmm_get_free_memory :: "pmm \<Rightarrow> nat" where
  "pmm_get_free_memory st = sub64 (g_pmm_total_pages st) (g_pmm_used_pages st) * PMM_PAGE_SIZE mod 2 ^ 64"

declare pmm_find_run.simps [simp del]

section \<open>The bit helpers implement the bitmap interface\<close>

lemma pmm_bits_eq:
  "pmm_set_bit = bitmap_set" "pmm_clear_bit = bitmap_clear" "pmm_test_bit = bitmap_get"
  by (auto simp: fun_eq_iff pmm_set_bit_def pmm_clear_bit_def pmm_test_bit_def
      bitmap_set_def bitmap_clear_def bitmap_get_def)

interpretation pb: bit_array bitmap_bits pmm_test_bit pmm_set_bit pmm_clear_bit
  unfolding pmm_bits_eq by (rule bm.bit_array_axioms)

section \<open>The two searches\<close>

lemma pmm_scan_Some:
  "pmm_scan bm tot p = Some q \<Longrightarrow>
     p \<le> q \<and> q < tot \<and> \<not> pmm_test_bit bm q \<and> (\<forall>k. p \<le> k \<and> k < q \<longrightarrow> pmm_test_bit bm k)"
proof (induction bm tot p rule: pmm_scan.induct)
  case (1 bm tot p)
  show ?case
  proof (cases "p < tot \<and> pmm_test_bit bm p")
    case True
    with 1 have "p + 1 \<le> q \<and> q < tot \<and> \<not> pmm_test_bit bm q \<and>
        (\<forall>k. p + 1 \<le> k \<and> k < q \<longrightarrow> pmm_test_bit bm k)"
      by (simp add: pmm_scan.simps[of bm tot p])
    with True show ?thesis by (metis Suc_eq_plus1 Suc_leD le_neq_implies_less Suc_leI)
  next
    case False
    with "1.prems" show ?thesis by (auto simp: pmm_scan.simps[of bm tot p] split: if_splits)
  qed
qed

lemma pmm_scan_None:
  "pmm_scan bm tot p = None \<longleftrightarrow> (\<forall>k. p \<le> k \<and> k < tot \<longrightarrow> pmm_test_bit bm k)"
proof (induction bm tot p rule: pmm_scan.induct)
  case (1 bm tot p)
  show ?case
  proof (cases "p < tot \<and> pmm_test_bit bm p")
    case True
    with 1 have "pmm_scan bm tot p = None \<longleftrightarrow> (\<forall>k. p + 1 \<le> k \<and> k < tot \<longrightarrow> pmm_test_bit bm k)"
      by (simp add: pmm_scan.simps[of bm tot p])
    with True show ?thesis by (metis Suc_eq_plus1 Suc_leD le_neq_implies_less Suc_leI)
  next
    case False
    then show ?thesis by (auto simp: pmm_scan.simps[of bm tot p])
  qed
qed

lemma pmm_run_blocked_Some:
  "pmm_run_blocked bm p n i = Inr (Some k) \<Longrightarrow> i \<le> k \<and> k < n \<and> pmm_test_bit bm (p + k)"
proof (induction bm p n i rule: pmm_run_blocked.induct)
  case (1 bm p n i)
  then show ?case
    by (subst (asm) (2) pmm_run_blocked.simps) (fastforce split: if_splits)
qed

lemma pmm_run_blocked_None:
  "pmm_run_blocked bm p n i = Inr None \<Longrightarrow> i \<le> k \<Longrightarrow> k < n \<Longrightarrow>
     p + k < bitmap_bits bm \<and> \<not> pmm_test_bit bm (p + k)"
proof (induction bm p n i rule: pmm_run_blocked.induct)
  case (1 bm p n i)
  then show ?case
    by (cases "k = i") (auto simp: pmm_run_blocked.simps[of bm p n i] split: if_splits)
qed

lemma pmm_run_blocked_no_fault:
  "p + n \<le> bitmap_bits bm \<Longrightarrow> pmm_run_blocked bm p n i \<noteq> Inl f"
proof (induction bm p n i rule: pmm_run_blocked.induct)
  case (1 bm p n i)
  then show ?case by (auto simp: pmm_run_blocked.simps[of bm p n i])
qed

lemma pmm_find_run_no_fault:
  assumes "tot \<le> bitmap_bits bm" "bitmap_bits bm + n < 2 ^ 64" "p \<le> bitmap_bits bm"
  shows "pmm_find_run bm tot n p \<noteq> Inl f"
  using assms
proof (induction bm tot n p rule: pmm_find_run.induct)
  case (1 bm tot n p)
  have nw: "add64 p n = p + n" using "1.prems" by (intro add64_nowrap) linarith
  show ?case
  proof (cases "p + n \<le> tot")
    case True
    then have nf: "pmm_run_blocked bm p n 0 \<noteq> Inl g" for g
      using "1.prems" pmm_run_blocked_no_fault by (meson le_trans)
    show ?thesis
    proof (cases "pmm_run_blocked bm p n 0")
      case (Inl g) then show ?thesis using nf by simp
    next
      case (Inr r)
      show ?thesis
      proof (cases r)
        case None then show ?thesis using True Inr nw by (simp add: pmm_find_run.simps[of bm tot n p])
      next
        case (Some k)
        have "p + k < bitmap_bits bm" using pmm_run_blocked_bound Inr Some by simp
        with "1.IH"[of r k] "1.prems" True Inr Some nw show ?thesis
          by (simp add: pmm_find_run.simps[of bm tot n p])
      qed
    qed
  next
    case False
    then show ?thesis using nw by (simp add: pmm_find_run.simps[of bm tot n p])
  qed
qed

lemma pmm_find_run_None:
  assumes "bitmap_bits bm + n < 2 ^ 64" "p \<le> bitmap_bits bm" "pmm_find_run bm tot n p = Inr None"
    "p \<le> q" "q + n \<le> tot"
  shows "\<exists>k<n. pmm_test_bit bm (q + k)"
  using assms
proof (induction bm tot n p rule: pmm_find_run.induct)
  case (1 bm tot n p)
  have nw: "add64 p n = p + n" using "1.prems" by (intro add64_nowrap) linarith
  have le: "p + n \<le> tot" using "1.prems" by linarith
  from "1.prems"(3) nw le obtain k where k: "pmm_run_blocked bm p n 0 = Inr (Some k)"
    by (auto simp: pmm_find_run.simps[of bm tot n p] split: if_splits sum.splits option.splits)
  then have b: "p + k < bitmap_bits bm" "k < n" "pmm_test_bit bm (p + k)"
    using pmm_run_blocked_bound pmm_run_blocked_Some by blast+
  show ?case
  proof (cases "p + k + 1 \<le> q")
    case True
    with "1.IH"[of "Some k" k] "1.prems" k b nw le show ?thesis
      by (simp add: pmm_find_run.simps[of bm tot n p])
  next
    case False
    then have "q + (p + k - q) = p + k" "p + k - q < n" using "1.prems"(4) b by auto
    then show ?thesis using b by (intro exI[of _ "p + k - q"]) simp
  qed
qed

lemma pmm_find_run_Some':
  assumes "bitmap_bits bm < 2 ^ 63" "p \<le> bitmap_bits bm" "0 < n" "pmm_find_run bm tot n p = Inr (Some q)"
  shows "p \<le> q \<and> q + n \<le> tot \<and> q + n \<le> bitmap_bits bm \<and> (\<forall>k<n. \<not> pmm_test_bit bm (q + k))"
  using assms
proof (induction bm tot n p rule: pmm_find_run.induct)
  case (1 bm tot n p)
  from "1.prems"(4) have le: "add64 p n \<le> tot"
    by (auto simp: pmm_find_run.simps[of bm tot n p] split: if_splits)
  from "1.prems"(4) obtain r where r: "pmm_run_blocked bm p n 0 = Inr r"
    by (auto simp: pmm_find_run.simps[of bm tot n p] split: if_splits sum.splits)
  show ?case
  proof (cases r)
    case None
    then have free: "p + k < bitmap_bits bm \<and> \<not> pmm_test_bit bm (p + k)" if "k < n" for k
      using that r pmm_run_blocked_None[of bm p n 0] by simp
    from free[of "n - 1"] have "p + n \<le> bitmap_bits bm" using "1.prems"(3) by linarith
    moreover from this have "add64 p n = p + n" using "1.prems"(1) by (intro add64_nowrap) simp
    ultimately show ?thesis using r None le free "1.prems"(4)
      by (auto simp: pmm_find_run.simps[of bm tot n p])
  next
    case (Some k)
    then have "p + k < bitmap_bits bm" using pmm_run_blocked_bound r by simp
    with "1.IH"[of r k] "1.prems" r Some le show ?thesis
      by (auto simp: pmm_find_run.simps[of bm tot n p])
  qed
qed

section \<open>The allocator invariant\<close>

definition pmm_inv :: "nat \<Rightarrow> nat \<Rightarrow> pmm \<Rightarrow> bool" where
  "pmm_inv lo hi st \<longleftrightarrow>
     0 < lo \<and> lo \<le> g_pmm_first_free_page st \<and> g_pmm_first_free_page st \<le> hi \<and>
     g_pmm_total_pages st \<le> hi \<and> hi \<le> bitmap_bits (g_pmm_bitmap st) \<and>
     bitmap_bits (g_pmm_bitmap st) \<le> PMM_MAX_PAGES \<and>
     (\<forall>p < bitmap_bits (g_pmm_bitmap st). p < lo \<or> hi \<le> p \<longrightarrow> pmm_test_bit (g_pmm_bitmap st) p) \<and>
     g_pmm_used_pages st = card {p \<in> {lo..<hi}. pmm_test_bit (g_pmm_bitmap st) p}"

lemma pmm_inv_used_bound: "pmm_inv lo hi st \<Longrightarrow> g_pmm_used_pages st \<le> PMM_MAX_PAGES"
proof -
  assume inv: "pmm_inv lo hi st"
  have "card {p \<in> {lo..<hi}. pmm_test_bit (g_pmm_bitmap st) p} \<le> card {lo..<hi}"
    by (rule card_mono) auto
  then show ?thesis using inv by (auto simp: pmm_inv_def)
qed

lemma pmm_alloc_page_cases:
  assumes inv: "pmm_inv lo hi st" and alloc: "pmm_alloc_page st = (a, st')"
  obtains (null) "a = 0" "st' = st"
      "\<And>p. g_pmm_first_free_page st \<le> p \<Longrightarrow> p < g_pmm_total_pages st \<Longrightarrow> pmm_test_bit (g_pmm_bitmap st) p"
    | (page) p where "a = p * PMM_PAGE_SIZE" "g_pmm_first_free_page st \<le> p" "p < g_pmm_total_pages st"
      "\<not> pmm_test_bit (g_pmm_bitmap st) p"
      "\<And>q. g_pmm_first_free_page st \<le> q \<Longrightarrow> q < p \<Longrightarrow> pmm_test_bit (g_pmm_bitmap st) q"
      "st' = st\<lparr>g_pmm_bitmap := pmm_set_bit (g_pmm_bitmap st) p,
              g_pmm_used_pages := Suc (g_pmm_used_pages st), g_pmm_first_free_page := p + 1\<rparr>"
proof (cases "pmm_scan (g_pmm_bitmap st) (g_pmm_total_pages st) (g_pmm_first_free_page st)")
  case None
  then show ?thesis using alloc null pmm_scan_None[THEN iffD1, OF None]
    by (auto simp: pmm_alloc_page_def)
next
  case (Some p)
  have "inc64 (g_pmm_used_pages st) = Suc (g_pmm_used_pages st)"
    using pmm_inv_used_bound[OF inv] by (simp add: inc64_nowrap)
  then show ?thesis using alloc page[of p] Some pmm_scan_Some[OF Some]
    by (auto simp: pmm_alloc_page_def)
qed

lemma pmm_inv_set_page:
  assumes "pmm_inv lo hi st" "lo \<le> p" "p < hi" "\<not> pmm_test_bit (g_pmm_bitmap st) p"
    "lo \<le> f" "f \<le> hi"
  shows "pmm_inv lo hi (st\<lparr>g_pmm_bitmap := pmm_set_bit (g_pmm_bitmap st) p,
              g_pmm_used_pages := Suc (g_pmm_used_pages st), g_pmm_first_free_page := f\<rparr>)"
proof -
  have "card {q \<in> {lo..<hi}. pmm_test_bit (pmm_set_bit (g_pmm_bitmap st) p) q}
      = Suc (card {q \<in> {lo..<hi}. pmm_test_bit (g_pmm_bitmap st) q})"
    using assms by (intro pb.count_setb) (auto simp: pmm_inv_def)
  then show ?thesis using assms
    by (auto simp: pmm_inv_def pb.nbits_simps pb.test_setb)
qed

lemma pmm_inv_clear_page:
  assumes "pmm_inv lo hi st" "lo \<le> p" "p < hi" "pmm_test_bit (g_pmm_bitmap st) p"
    "lo \<le> f" "f \<le> hi"
  shows "pmm_inv lo hi (st\<lparr>g_pmm_bitmap := pmm_clear_bit (g_pmm_bitmap st) p,
              g_pmm_used_pages := g_pmm_used_pages st - 1, g_pmm_first_free_page := f\<rparr>)"
proof -
  have "Suc (card {q \<in> {lo..<hi}. pmm_test_bit (pmm_clear_bit (g_pmm_bitmap st) p) q})
      = card {q \<in> {lo..<hi}. pmm_test_bit (g_pmm_bitmap st) q}"
    using assms by (intro pb.count_clearb) (auto simp: pmm_inv_def)
  then show ?thesis using assms
    by (auto simp: pmm_inv_def pb.nbits_simps pb.test_clearb)
qed

lemma pmm_alloc_page_inv:
  assumes inv: "pmm_inv lo hi st" and alloc: "pmm_alloc_page st = (a, st')"
  shows "pmm_inv lo hi st'"
  using inv alloc
proof (cases rule: pmm_alloc_page_cases)
  case null then show ?thesis using inv by simp
next
  case (page p)
  have "lo \<le> p" "p < hi" using page(2,3) inv by (auto simp: pmm_inv_def)
  then show ?thesis unfolding page(6) using page(4) by (intro pmm_inv_set_page[OF inv]) auto
qed

lemma pmm_free_page_eq:
  assumes inv: "pmm_inv lo hi st" and "lo \<le> a div PMM_PAGE_SIZE" "a div PMM_PAGE_SIZE < hi"
    and used: "pmm_test_bit (g_pmm_bitmap st) (a div PMM_PAGE_SIZE)"
  shows "pmm_free_page a st = st\<lparr>g_pmm_bitmap := pmm_clear_bit (g_pmm_bitmap st) (a div PMM_PAGE_SIZE),
              g_pmm_used_pages := g_pmm_used_pages st - 1,
              g_pmm_first_free_page := min (a div PMM_PAGE_SIZE) (g_pmm_first_free_page st)\<rparr>"
proof -
  have "a \<noteq> 0" using assms by (auto simp: pmm_inv_def)
  have "a div PMM_PAGE_SIZE \<in> {p \<in> {lo..<hi}. pmm_test_bit (g_pmm_bitmap st) p}"
    using assms by simp
  then have "0 < g_pmm_used_pages st"
    using inv by (auto simp: pmm_inv_def card_gt_0_iff)
  then have "dec64 (g_pmm_used_pages st) = g_pmm_used_pages st - 1"
    using pmm_inv_used_bound[OF inv] by (intro dec64_nowrap) auto
  then show ?thesis using \<open>a \<noteq> 0\<close> used
    by (simp add: pmm_free_page_def phys_to_page_def Let_def min_def)
qed

lemma pmm_free_page_unused:
  "\<not> pmm_test_bit (g_pmm_bitmap st) (a div PMM_PAGE_SIZE) \<Longrightarrow> pmm_free_page a st = st"
  by (simp add: pmm_free_page_def phys_to_page_def Let_def)

lemma pmm_free_page_inv:
  assumes inv: "pmm_inv lo hi st" and "lo \<le> a div PMM_PAGE_SIZE" "a div PMM_PAGE_SIZE < hi"
  shows "pmm_inv lo hi (pmm_free_page a st)"
proof (cases "pmm_test_bit (g_pmm_bitmap st) (a div PMM_PAGE_SIZE)")
  case True
  have "lo \<le> min (a div PMM_PAGE_SIZE) (g_pmm_first_free_page st)"
    "min (a div PMM_PAGE_SIZE) (g_pmm_first_free_page st) \<le> hi"
    using assms by (auto simp: pmm_inv_def)
  then show ?thesis
    unfolding pmm_free_page_eq[OF assms True]
    by (rule pmm_inv_clear_page[OF inv assms(2,3) True])
next
  case False
  then show ?thesis using inv by (simp add: pmm_free_page_unused)
qed


lemma pmm_alloc_pages_cases:
  assumes inv: "pmm_inv lo hi st" and alloc: "pmm_alloc_pages n st = Inr (a, st')" and n: "1 < n"
  obtains (null) "a = 0" "st' = st"
    | (run) q where "a = q * PMM_PAGE_SIZE" "g_pmm_first_free_page st \<le> q" "q + n \<le> g_pmm_total_pages st"
      "\<And>k. k < n \<Longrightarrow> \<not> pmm_test_bit (g_pmm_bitmap st) (q + k)"
      "st' = st\<lparr>g_pmm_bitmap := fold (\<lambda>i bm. pmm_set_bit bm (q + i)) [0..<n] (g_pmm_bitmap st),
              g_pmm_used_pages := g_pmm_used_pages st + n, g_pmm_first_free_page := q + n\<rparr>"
proof -
  let ?r = "pmm_find_run (g_pmm_bitmap st) (g_pmm_total_pages st) n (g_pmm_first_free_page st)"
  consider (None) "?r = Inr None" | (Some) q where "?r = Inr (Some q)"
    using alloc n by (auto simp: pmm_alloc_pages_def split: if_splits sum.splits option.splits)
  then show ?thesis
  proof cases
    case None
    then show ?thesis using alloc n null by (auto simp: pmm_alloc_pages_def)
  next
    case (Some q)
    have b: "bitmap_bits (g_pmm_bitmap st) < 2 ^ 63"
      "g_pmm_first_free_page st \<le> bitmap_bits (g_pmm_bitmap st)"
      using inv by (auto simp: pmm_inv_def)
    from pmm_find_run_Some'[OF b _ Some] n
    have q: "g_pmm_first_free_page st \<le> q" "q + n \<le> g_pmm_total_pages st"
      "q + n \<le> bitmap_bits (g_pmm_bitmap st)" "\<forall>k<n. \<not> pmm_test_bit (g_pmm_bitmap st) (q + k)" by auto
    have "add64 (g_pmm_used_pages st) n = g_pmm_used_pages st + n"
      using pmm_inv_used_bound[OF inv] q(3) inv by (intro add64_nowrap) (auto simp: pmm_inv_def)
    then show ?thesis using alloc n run[of q] q Some by (auto simp: pmm_alloc_pages_def)
  qed
qed

lemma pmm_inv_set_range:
  assumes "pmm_inv lo hi st" "lo \<le> q" "q + n \<le> hi" "\<And>k. k < n \<Longrightarrow> \<not> pmm_test_bit (g_pmm_bitmap st) (q + k)"
    "lo \<le> f" "f \<le> hi"
  shows "pmm_inv lo hi (st\<lparr>g_pmm_bitmap := fold (\<lambda>i bm. pmm_set_bit bm (q + i)) [0..<n] (g_pmm_bitmap st),
              g_pmm_used_pages := g_pmm_used_pages st + n, g_pmm_first_free_page := f\<rparr>)"
proof -
  have "card {p \<in> {lo..<hi}. pmm_test_bit (fold (\<lambda>i bm. pmm_set_bit bm (q + i)) [0..<n] (g_pmm_bitmap st)) p}
      = card {p \<in> {lo..<hi}. pmm_test_bit (g_pmm_bitmap st) p} + n"
    using assms by (intro pb.count_set_range) (auto simp: pmm_inv_def)
  then show ?thesis using assms
    by (auto simp: pmm_inv_def pb.nbits_set_range pb.test_set_range)
qed

lemma pmm_alloc_pages_inv:
  assumes inv: "pmm_inv lo hi st" and alloc: "pmm_alloc_pages n st = Inr (a, st')"
  shows "pmm_inv lo hi st'"
proof -
  consider "n = 0" | "n = 1" | "1 < n" by linarith
  then show ?thesis
  proof cases
    case 1 then show ?thesis using alloc inv by (simp add: pmm_alloc_pages_def)
  next
    case 2 then show ?thesis using alloc pmm_alloc_page_inv[OF inv] by (simp add: pmm_alloc_pages_def)
  next
    case 3
    from inv alloc 3 show ?thesis
    proof (cases rule: pmm_alloc_pages_cases)
      case null then show ?thesis using inv by simp
    next
      case (run q)
      have "lo \<le> q" "q + n \<le> hi" using run(2,3) inv by (auto simp: pmm_inv_def)
      then show ?thesis unfolding run(5) using run(4) by (intro pmm_inv_set_range[OF inv]) auto
    qed
  qed
qed

lemma pmm_mark_used_page_inv:
  assumes "pmm_inv lo hi st" "lo \<le> p" "p < hi"
  shows "pmm_inv lo hi (pmm_mark_used_page p st)"
proof (cases "pmm_test_bit (g_pmm_bitmap st) p")
  case True then show ?thesis using assms by (simp add: pmm_mark_used_page_def)
next
  case False
  have "inc64 (g_pmm_used_pages st) = Suc (g_pmm_used_pages st)"
    using pmm_inv_used_bound[OF assms(1)] by (simp add: inc64_nowrap)
  moreover have "lo \<le> g_pmm_first_free_page st" "g_pmm_first_free_page st \<le> hi"
    using assms(1) by (auto simp: pmm_inv_def)
  ultimately show ?thesis using pmm_inv_set_page[OF assms False, of "g_pmm_first_free_page st"] False
    by (simp add: pmm_mark_used_page_def)
qed

lemma pmm_mark_used_page_test:
  assumes "p < bitmap_bits (g_pmm_bitmap st)" "j < bitmap_bits (g_pmm_bitmap st)"
  shows "pmm_test_bit (g_pmm_bitmap (pmm_mark_used_page p st)) j \<longleftrightarrow> j = p \<or> pmm_test_bit (g_pmm_bitmap st) j"
  using assms by (auto simp: pmm_mark_used_page_def pb.test_setb)

lemma pmm_bits_length [simp]:
  "length (pmm_set_bit b p) = length b" "length (pmm_clear_bit b p) = length b"
  by (simp_all add: pmm_set_bit_def pmm_clear_bit_def)

lemma pmm_mark_used_page_pres [pres]:
  "bitmap_bits (g_pmm_bitmap (pmm_mark_used_page p st)) = bitmap_bits (g_pmm_bitmap st)"
  "g_pmm_total_pages (pmm_mark_used_page p st) = g_pmm_total_pages st"
  "g_pmm_first_free_page (pmm_mark_used_page p st) = g_pmm_first_free_page st"
  by (simp_all add: pmm_mark_used_page_def pb.nbits_simps)

lemma pmm_mark_used_run:
  fixes s n :: nat and st :: pmm
  defines "st' \<equiv> fold (\<lambda>i st. pmm_mark_used_page (s + i) st) [0..<n] st"
  assumes "pmm_inv lo hi st" "lo \<le> s" "s + n \<le> hi"
  shows "pmm_inv lo hi st' \<and> bitmap_bits (g_pmm_bitmap st') = bitmap_bits (g_pmm_bitmap st) \<and>
     g_pmm_total_pages st' = g_pmm_total_pages st \<and> g_pmm_first_free_page st' = g_pmm_first_free_page st \<and>
     (\<forall>j < bitmap_bits (g_pmm_bitmap st). pmm_test_bit (g_pmm_bitmap st') j \<longleftrightarrow>
        s \<le> j \<and> j < s + n \<or> pmm_test_bit (g_pmm_bitmap st) j)"
  using assms(4) unfolding st'_def
proof (induction n)
  case 0 then show ?case using assms(2) by auto
next
  case (Suc n)
  let ?m = "fold (\<lambda>i st. pmm_mark_used_page (s + i) st) [0..<n] st"
  have IH: "pmm_inv lo hi ?m" "bitmap_bits (g_pmm_bitmap ?m) = bitmap_bits (g_pmm_bitmap st)"
    "g_pmm_total_pages ?m = g_pmm_total_pages st" "g_pmm_first_free_page ?m = g_pmm_first_free_page st"
    "\<forall>j < bitmap_bits (g_pmm_bitmap st). pmm_test_bit (g_pmm_bitmap ?m) j \<longleftrightarrow>
        s \<le> j \<and> j < s + n \<or> pmm_test_bit (g_pmm_bitmap st) j"
    using Suc by auto
  have p: "lo \<le> s + n" "s + n < hi" "s + n < bitmap_bits (g_pmm_bitmap ?m)"
    using Suc.prems assms(3) IH(1) by (auto simp: pmm_inv_def)
  have t: "pmm_test_bit (g_pmm_bitmap (pmm_mark_used_page (s + n) ?m)) j \<longleftrightarrow>
      s \<le> j \<and> j < s + Suc n \<or> pmm_test_bit (g_pmm_bitmap st) j" if "j < bitmap_bits (g_pmm_bitmap st)" for j
    using that IH(2,5) pmm_mark_used_page_test[OF p(3), of j] by auto
  show ?case
    using pmm_mark_used_page_inv[OF IH(1) p(1,2)] IH(2-4) t
    by (simp only: upt_Suc_append[OF le0] fold_append comp_apply fold_simps pres) blast
qed

lemma fold_bitmap_update:
  "fold (\<lambda>k st. st\<lparr>g_pmm_bitmap := f k (g_pmm_bitmap st)\<rparr>) xs st
     = st\<lparr>g_pmm_bitmap := fold f xs (g_pmm_bitmap st)\<rparr>"
  by (induction xs arbitrary: st) auto

lemma fold_mark_used_first_free:
  "fold (\<lambda>i st. pmm_mark_used_page (s + i) st) xs (st\<lparr>g_pmm_first_free_page := f\<rparr>)
     = (fold (\<lambda>i st. pmm_mark_used_page (s + i) st) xs st)\<lparr>g_pmm_first_free_page := f\<rparr>"
proof (induction xs arbitrary: st)
  case (Cons x xs)
  have "pmm_mark_used_page (s + x) (st\<lparr>g_pmm_first_free_page := f\<rparr>)
      = (pmm_mark_used_page (s + x) st)\<lparr>g_pmm_first_free_page := f\<rparr>"
    by (simp add: pmm_mark_used_page_def)
  with Cons show ?case by simp
qed simp

section \<open>The boot state\<close>

definition kernel_pages :: "nat \<Rightarrow> nat" where
  "kernel_pages kernel_end = (kernel_end - KERNEL_VBASE - 0x100000 + (PMM_PAGE_SIZE - 1)) div PMM_PAGE_SIZE"

definition kernel_end_ok :: "nat \<Rightarrow> bool" where
  "kernel_end_ok kernel_end \<longleftrightarrow> KERNEL_VBASE + 0x100000 \<le> kernel_end \<and> kernel_end \<le> KERNEL_VBASE + 0x10000000"

lemma kernel_pages_le: "kernel_end_ok ke \<Longrightarrow> kernel_pages ke \<le> 65280"
proof -
  assume "kernel_end_ok ke"
  then have "ke - KERNEL_VBASE - 0x100000 + (PMM_PAGE_SIZE - 1) \<le> 0xFF00000 + 4095"
    by (auto simp: kernel_end_ok_def)
  from div_le_mono[OF this, of PMM_PAGE_SIZE] show ?thesis by (simp add: kernel_pages_def)
qed

definition pmm_boot_bitmap :: bitmap where
  "pmm_boot_bitmap = fold (\<lambda>i b. pmm_clear_bit b (256 + i)) [0..<65280] (replicate PMM_BITMAP_SIZE 0xFF)"

lemma length_pmm_boot_bitmap: "bitmap_bits pmm_boot_bitmap = PMM_MAX_PAGES"
  using pb.nbits_clear_range[of 256 "[0..<65280]" "replicate PMM_BITMAP_SIZE 0xFF"]
  by (simp add: pmm_boot_bitmap_def)

lemma test_all_ones: "p < 8 * n \<Longrightarrow> pmm_test_bit (replicate n 0xFF) p"
proof -
  assume "p < 8 * n"
  moreover have "bit (0xFF :: u8) k" if "k < 8" for k
  proof -
    have "(0xFF :: u8) = NOT 0" by simp
    then show ?thesis using that by (simp only: bit_not_iff) simp
  qed
  ultimately show ?thesis by (simp add: pmm_bits_eq bitmap_get_bit)
qed

lemma test_pmm_boot_bitmap:
  assumes "p < PMM_MAX_PAGES"
  shows "pmm_test_bit pmm_boot_bitmap p \<longleftrightarrow> p < 256 \<or> 65536 \<le> p"
proof -
  have "pmm_test_bit pmm_boot_bitmap p \<longleftrightarrow>
      \<not> (256 \<le> p \<and> p < 256 + 65280) \<and> pmm_test_bit (replicate PMM_BITMAP_SIZE 0xFF) p"
    unfolding pmm_boot_bitmap_def using assms by (intro pb.test_clear_range) auto
  then show ?thesis using assms test_all_ones[of p PMM_BITMAP_SIZE] by auto
qed

definition pmm_boot_state :: pmm where
  "pmm_boot_state = \<lparr>g_pmm_bitmap = pmm_boot_bitmap, g_pmm_total_pages = 65280,
     g_pmm_used_pages = 0, g_pmm_first_free_page = 256\<rparr>"

lemma pmm_boot_state_inv: "pmm_inv 256 65536 pmm_boot_state"
proof -
  have "{p \<in> {256..<65536}. pmm_test_bit pmm_boot_bitmap p} = {}"
    using test_pmm_boot_bitmap by auto
  then show ?thesis using length_pmm_boot_bitmap test_pmm_boot_bitmap
    by (auto simp: pmm_inv_def pmm_boot_state_def)
qed

lemma pmm_init_eq:
  assumes "kernel_end_ok ke"
  shows "pmm_init ke pmm_init_state
       = fold (\<lambda>i st. pmm_mark_used_page (256 + i) st) [0..<kernel_pages ke] pmm_boot_state"
proof -
  have k: "add64 (sub64 (sub64 ke KERNEL_VBASE) 0x100000) (PMM_PAGE_SIZE - 1) div PMM_PAGE_SIZE = kernel_pages ke"
  proof -
    have 1: "sub64 ke KERNEL_VBASE = ke - KERNEL_VBASE"
      using assms by (intro sub64_nowrap) (auto simp: kernel_end_ok_def)
    have 2: "sub64 (ke - KERNEL_VBASE) 0x100000 = ke - KERNEL_VBASE - 0x100000"
      using assms by (intro sub64_nowrap) (auto simp: kernel_end_ok_def)
    have 3: "add64 (ke - KERNEL_VBASE - 0x100000) (PMM_PAGE_SIZE - 1)
        = ke - KERNEL_VBASE - 0x100000 + (PMM_PAGE_SIZE - 1)"
      using assms by (intro add64_nowrap) (auto simp: kernel_end_ok_def)
    show ?thesis unfolding kernel_pages_def 1 2 3 ..
  qed
  have page: "phys_to_page (0x100000 + k * PMM_PAGE_SIZE) = 256 + k" for k
    by (simp add: phys_to_page_def)
  have st: "phys_to_page (PMM_PAGE_ALIGN_DOWN 0x100000) = 256" "phys_to_page 0x100000 = 256"
    by (simp_all add: phys_to_page_def PMM_PAGE_ALIGN_DOWN_def)
  have "(0x10000000 - 0x100000) div PMM_PAGE_SIZE = 65280" by simp
  note n = this
  show ?thesis
    unfolding pmm_init_def Let_def pmm_mark_used_def k page st n pmm_init_state_def
      fold_bitmap_update[where f = "\<lambda>k b. pmm_clear_bit b (256 + k)"]
    by (simp add: fold_mark_used_first_free [symmetric] pmm_boot_state_def pmm_boot_bitmap_def map_replicate_const del: upt_Suc)
qed

lemma pmm_init_spec:
  assumes "kernel_end_ok ke"
  defines "st \<equiv> pmm_init ke pmm_init_state"
  shows "pmm_inv 256 65536 st" "g_pmm_total_pages st = 65280" "g_pmm_first_free_page st = 256"
    "bitmap_bits (g_pmm_bitmap st) = PMM_MAX_PAGES"
    "\<And>p. 256 \<le> p \<Longrightarrow> p < 65536 \<Longrightarrow> pmm_test_bit (g_pmm_bitmap st) p \<longleftrightarrow> p < 256 + kernel_pages ke"
proof -
  note run = pmm_mark_used_run[OF pmm_boot_state_inv order_refl, of "kernel_pages ke"]
  have "256 + kernel_pages ke \<le> 65536" using kernel_pages_le[OF assms(1)] by simp
  note r = run[OF this, folded pmm_init_eq[OF assms(1)], folded st_def]
  show "pmm_inv 256 65536 st" "g_pmm_total_pages st = 65280" "g_pmm_first_free_page st = 256"
    "bitmap_bits (g_pmm_bitmap st) = PMM_MAX_PAGES"
    using r length_pmm_boot_bitmap by (auto simp: pmm_boot_state_def)
  fix p :: nat assume "256 \<le> p" "p < 65536"
  then show "pmm_test_bit (g_pmm_bitmap st) p \<longleftrightarrow> p < 256 + kernel_pages ke"
    using r test_pmm_boot_bitmap[of p] length_pmm_boot_bitmap by (auto simp: pmm_boot_state_def)
qed

section \<open>Freeing a run of pages\<close>

lemma pmm_free_page_test:
  assumes "a \<noteq> 0" "a div PMM_PAGE_SIZE < bitmap_bits (g_pmm_bitmap st)" "j < bitmap_bits (g_pmm_bitmap st)"
  shows "pmm_test_bit (g_pmm_bitmap (pmm_free_page a st)) j \<longleftrightarrow>
     j \<noteq> a div PMM_PAGE_SIZE \<and> pmm_test_bit (g_pmm_bitmap st) j"
  using assms by (auto simp: pmm_free_page_def phys_to_page_def Let_def pb.test_clearb)

lemma pmm_free_page_pres [pres]:
  "length (g_pmm_bitmap (pmm_free_page a st)) = length (g_pmm_bitmap st)"
  "g_pmm_total_pages (pmm_free_page a st) = g_pmm_total_pages st"
  by (simp_all add: pmm_free_page_def Let_def)

lemma pmm_free_run:
  fixes q n :: nat and st :: pmm
  defines "st' \<equiv> fold (\<lambda>i st. pmm_free_page (add64 (q * PMM_PAGE_SIZE) (i * PMM_PAGE_SIZE)) st) [0..<n] st"
  assumes "pmm_inv lo hi st" "lo \<le> q" "q + n \<le> hi"
  shows "pmm_inv lo hi st' \<and> length (g_pmm_bitmap st') = length (g_pmm_bitmap st) \<and>
     g_pmm_total_pages st' = g_pmm_total_pages st \<and>
     (\<forall>j < bitmap_bits (g_pmm_bitmap st). pmm_test_bit (g_pmm_bitmap st') j \<longleftrightarrow>
        \<not> (q \<le> j \<and> j < q + n) \<and> pmm_test_bit (g_pmm_bitmap st) j)"
  using assms(4) unfolding st'_def
proof (induction n)
  case 0 then show ?case using assms(2) by auto
next
  case (Suc n)
  let ?m = "fold (\<lambda>i st. pmm_free_page (add64 (q * PMM_PAGE_SIZE) (i * PMM_PAGE_SIZE)) st) [0..<n] st"
  have IH: "pmm_inv lo hi ?m" "length (g_pmm_bitmap ?m) = length (g_pmm_bitmap st)"
    "g_pmm_total_pages ?m = g_pmm_total_pages st"
    "\<forall>j < bitmap_bits (g_pmm_bitmap st). pmm_test_bit (g_pmm_bitmap ?m) j \<longleftrightarrow>
        \<not> (q \<le> j \<and> j < q + n) \<and> pmm_test_bit (g_pmm_bitmap st) j"
    using Suc by auto
  have p: "lo \<le> q + n" "q + n < hi" "q + n < bitmap_bits (g_pmm_bitmap ?m)" "0 < q"
    using Suc.prems assms(3) IH(1) by (auto simp: pmm_inv_def)
  let ?a = "add64 (q * PMM_PAGE_SIZE) (n * PMM_PAGE_SIZE)"
  have a: "?a = (q + n) * PMM_PAGE_SIZE"
    using p IH(1) by (subst add64_nowrap) (auto simp: pmm_inv_def algebra_simps)
  then have ad: "?a div PMM_PAGE_SIZE = q + n" "?a \<noteq> 0" using p by auto
  have t: "pmm_test_bit (g_pmm_bitmap (pmm_free_page ?a ?m)) j \<longleftrightarrow>
      \<not> (q \<le> j \<and> j < q + Suc n) \<and> pmm_test_bit (g_pmm_bitmap st) j" if "j < bitmap_bits (g_pmm_bitmap st)" for j
    using that IH(2,4) pmm_free_page_test[of ?a ?m j] ad p by auto
  have i: "pmm_inv lo hi (pmm_free_page ?a ?m)"
    using pmm_free_page_inv[OF IH(1), of ?a] ad p by simp
  show ?case
    using i IH(2-3) t
    by (simp only: upt_Suc_append[OF le0] fold_append comp_apply fold_simps pres) blast
qed

section \<open>Clients of the page allocator\<close>

text \<open>
  A client state is the allocator with the set of pages handed out and not yet
  given back. Clients free only what they own; every other call is unrestricted.
\<close>

inductive pmm_step :: "pmm \<times> nat set \<Rightarrow> pmm \<times> nat set \<Rightarrow> bool" where
  alloc_page: "pmm_alloc_page st = (a, st') \<Longrightarrow> a \<noteq> 0 \<Longrightarrow>
     pmm_step (st, own) (st', insert (a div PMM_PAGE_SIZE) own)"
| alloc_page_null: "pmm_alloc_page st = (0, st') \<Longrightarrow> pmm_step (st, own) (st', own)"
| alloc_pages: "pmm_alloc_pages n st = Inr (a, st') \<Longrightarrow> a \<noteq> 0 \<Longrightarrow>
     pmm_step (st, own) (st', own \<union> {a div PMM_PAGE_SIZE..<a div PMM_PAGE_SIZE + n})"
| alloc_pages_null: "pmm_alloc_pages n st = Inr (0, st') \<Longrightarrow> pmm_step (st, own) (st', own)"
| free_page: "a div PMM_PAGE_SIZE \<in> own \<Longrightarrow>
     pmm_step (st, own) (pmm_free_page a st, own - {a div PMM_PAGE_SIZE})"
| free_pages: "{q..<q + n} \<subseteq> own \<Longrightarrow> 0 < n \<Longrightarrow>
     pmm_step (st, own) (pmm_free_pages (q * PMM_PAGE_SIZE) n st, own - {q..<q + n})"

inductive pmm_reachable :: "nat \<Rightarrow> pmm \<times> nat set \<Rightarrow> bool" for kernel_end where
  boot: "pmm_reachable kernel_end (pmm_init kernel_end pmm_init_state, {})"
| step: "pmm_reachable kernel_end s \<Longrightarrow> pmm_step s t \<Longrightarrow> pmm_reachable kernel_end t"

definition pmm_owned_inv :: "nat \<Rightarrow> pmm \<times> nat set \<Rightarrow> bool" where
  "pmm_owned_inv ke = (\<lambda>(st, own). pmm_inv 256 65536 st \<and> g_pmm_total_pages st = 65280 \<and>
     own \<inter> {256..<256 + kernel_pages ke} = {} \<and> finite own \<and>
     {p \<in> {256..<65536}. pmm_test_bit (g_pmm_bitmap st) p} = {256..<256 + kernel_pages ke} \<union> own)"

lemma pmm_alloc_pages_set:
  assumes inv: "pmm_inv lo hi st" and alloc: "pmm_alloc_pages n st = Inr (a, st')" and a: "a \<noteq> 0"
  shows "0 < n" "a mod PMM_PAGE_SIZE = 0" "g_pmm_first_free_page st \<le> a div PMM_PAGE_SIZE"
    "a div PMM_PAGE_SIZE + n \<le> g_pmm_total_pages st" "g_pmm_total_pages st' = g_pmm_total_pages st"
    "\<And>k. k < n \<Longrightarrow> \<not> pmm_test_bit (g_pmm_bitmap st) (a div PMM_PAGE_SIZE + k)"
    "{p \<in> {lo..<hi}. pmm_test_bit (g_pmm_bitmap st') p}
       = {p \<in> {lo..<hi}. pmm_test_bit (g_pmm_bitmap st) p} \<union> {a div PMM_PAGE_SIZE..<a div PMM_PAGE_SIZE + n}"
proof -
  have hb: "lo \<le> g_pmm_first_free_page st" "g_pmm_total_pages st \<le> hi" "hi \<le> bitmap_bits (g_pmm_bitmap st)"
    using inv by (auto simp: pmm_inv_def)
  have "n \<noteq> 0" using alloc a by (auto simp: pmm_alloc_pages_def split: if_splits)
  then consider "n = 1" | "1 < n" by linarith
  then have "0 < n \<and> a mod PMM_PAGE_SIZE = 0 \<and> g_pmm_first_free_page st \<le> a div PMM_PAGE_SIZE \<and>
    a div PMM_PAGE_SIZE + n \<le> g_pmm_total_pages st \<and> g_pmm_total_pages st' = g_pmm_total_pages st \<and>
    (\<forall>k<n. \<not> pmm_test_bit (g_pmm_bitmap st) (a div PMM_PAGE_SIZE + k)) \<and>
    {p \<in> {lo..<hi}. pmm_test_bit (g_pmm_bitmap st') p}
       = {p \<in> {lo..<hi}. pmm_test_bit (g_pmm_bitmap st) p} \<union> {a div PMM_PAGE_SIZE..<a div PMM_PAGE_SIZE + n}"
  proof cases
    case 1
    then have "pmm_alloc_page st = (a, st')" using alloc by (simp add: pmm_alloc_pages_def)
    from inv this show ?thesis
    proof (cases rule: pmm_alloc_page_cases)
      case null then show ?thesis using a by simp
    next
      case (page p)
      then have "{q \<in> {lo..<hi}. pmm_test_bit (g_pmm_bitmap st') q}
          = {q \<in> {lo..<hi}. pmm_test_bit (g_pmm_bitmap st) q} \<union> {p..<p + 1}"
        using hb by (auto simp: pb.test_setb)
      then show ?thesis using page 1 by auto
    qed
  next
    case 2
    from inv alloc 2 show ?thesis
    proof (cases rule: pmm_alloc_pages_cases)
      case null then show ?thesis using a by simp
    next
      case (run q)
      then have "{p \<in> {lo..<hi}. pmm_test_bit (g_pmm_bitmap st') p}
          = {p \<in> {lo..<hi}. pmm_test_bit (g_pmm_bitmap st) p} \<union> {q..<q + n}"
        using hb by (auto simp: pb.test_set_range)
      then show ?thesis using run 2 by auto
    qed
  qed
  then show "0 < n" "a mod PMM_PAGE_SIZE = 0" "g_pmm_first_free_page st \<le> a div PMM_PAGE_SIZE"
    "a div PMM_PAGE_SIZE + n \<le> g_pmm_total_pages st" "g_pmm_total_pages st' = g_pmm_total_pages st"
    "\<And>k. k < n \<Longrightarrow> \<not> pmm_test_bit (g_pmm_bitmap st) (a div PMM_PAGE_SIZE + k)"
    "{p \<in> {lo..<hi}. pmm_test_bit (g_pmm_bitmap st') p}
       = {p \<in> {lo..<hi}. pmm_test_bit (g_pmm_bitmap st) p} \<union> {a div PMM_PAGE_SIZE..<a div PMM_PAGE_SIZE + n}"
    by blast+
qed

lemma pmm_alloc_pages_length:
  "pmm_alloc_pages n st = Inr (a, st') \<Longrightarrow> length (g_pmm_bitmap st') = length (g_pmm_bitmap st)"
  using pb.nbits_set_range
  by (auto simp: pmm_alloc_pages_def pmm_alloc_page_def split: if_splits sum.splits option.splits)

lemma pmm_alloc_pages_test:
  assumes inv: "pmm_inv lo hi st" and alloc: "pmm_alloc_pages n st = Inr (a, st')" "a \<noteq> 0"
    and i: "i < bitmap_bits (g_pmm_bitmap st)"
  shows "pmm_test_bit (g_pmm_bitmap st') i \<longleftrightarrow>
    a div PMM_PAGE_SIZE \<le> i \<and> i < a div PMM_PAGE_SIZE + n \<or> pmm_test_bit (g_pmm_bitmap st) i"
proof -
  note s = pmm_alloc_pages_set[OF inv alloc]
  have b: "a div PMM_PAGE_SIZE + n \<le> bitmap_bits (g_pmm_bitmap st)"
    using s(4) inv by (auto simp: pmm_inv_def)
  have "g_pmm_bitmap st' = fold (\<lambda>i bm. pmm_set_bit bm (a div PMM_PAGE_SIZE + i)) [0..<n] (g_pmm_bitmap st)"
    using alloc by (auto simp: pmm_alloc_pages_def pmm_alloc_page_def split: if_splits sum.splits option.splits)
  then show ?thesis using pb.test_set_range[OF b i] by simp
qed

lemma pmm_alloc_null:
  assumes "pmm_inv lo hi st" "pmm_alloc_pages n st = Inr (0, st')"
  shows "st' = st"
proof -
  consider "n = 0" | "n = 1" | "1 < n" by linarith
  then show ?thesis
  proof cases
    case 1 then show ?thesis using assms by (simp add: pmm_alloc_pages_def)
  next
    case 2
    then have "pmm_alloc_page st = (0, st')" using assms by (simp add: pmm_alloc_pages_def)
    from assms(1) this assms(1) show ?thesis
      by (cases rule: pmm_alloc_page_cases) (auto simp: pmm_inv_def)
  next
    case 3
    from assms 3 assms(1) show ?thesis
      by (cases rule: pmm_alloc_pages_cases) (auto simp: pmm_inv_def)
  qed
qed

lemma pmm_owned_alloc:
  assumes "pmm_owned_inv ke (st, own)" "pmm_alloc_pages n st = Inr (a, st')" "a \<noteq> 0"
  shows "pmm_owned_inv ke (st', own \<union> {a div PMM_PAGE_SIZE..<a div PMM_PAGE_SIZE + n})"
    "own \<inter> {a div PMM_PAGE_SIZE..<a div PMM_PAGE_SIZE + n} = {}"
    "{256..<256 + kernel_pages ke} \<inter> {a div PMM_PAGE_SIZE..<a div PMM_PAGE_SIZE + n} = {}"
proof -
  let ?A = "{a div PMM_PAGE_SIZE..<a div PMM_PAGE_SIZE + n}"
  let ?U = "{p \<in> {256..<65536}. pmm_test_bit (g_pmm_bitmap st) p}"
  have inv: "pmm_inv 256 65536 st" and U: "?U = {256..<256 + kernel_pages ke} \<union> own"
    using assms(1) by (auto simp: pmm_owned_inv_def)
  note s = pmm_alloc_pages_set[OF inv assms(2,3)]
  have "?U \<inter> ?A = {}" using s(6) by (auto simp: le_iff_add)
  then have d: "own \<inter> ?A = {}" "{256..<256 + kernel_pages ke} \<inter> ?A = {}" unfolding U by blast+
  then show "own \<inter> ?A = {}" "{256..<256 + kernel_pages ke} \<inter> ?A = {}" .
  show "pmm_owned_inv ke (st', own \<union> ?A)"
    using assms(1) s(5,7) d pmm_alloc_pages_inv[OF inv assms(2)]
    by (auto simp: pmm_owned_inv_def)
qed

lemma pmm_alloc_page_pages: "pmm_alloc_page st = (a, st') \<Longrightarrow> pmm_alloc_pages 1 st = Inr (a, st')"
  by (simp add: pmm_alloc_pages_def)

lemma pmm_owned_free:
  assumes "pmm_owned_inv ke (st, own)" "{q..<q + n} \<subseteq> own" "0 < n"
  shows "pmm_owned_inv ke (pmm_free_pages (q * PMM_PAGE_SIZE) n st, own - {q..<q + n})"
proof -
  let ?U = "{p \<in> {256..<65536}. pmm_test_bit (g_pmm_bitmap st) p}"
  have inv: "pmm_inv 256 65536 st" and U: "?U = {256..<256 + kernel_pages ke} \<union> own"
    using assms(1) by (auto simp: pmm_owned_inv_def)
  have "q \<in> own" "q + (n - 1) \<in> own" using assms(2,3) by auto
  then have "q \<in> ?U" "q + (n - 1) \<in> ?U" using U by blast+
  then have q: "256 \<le> q" "q + n \<le> 65536" using assms(3) by auto
  note f = pmm_free_run[OF inv q]
  have "pmm_free_pages (q * PMM_PAGE_SIZE) n st
      = fold (\<lambda>i st. pmm_free_page (add64 (q * PMM_PAGE_SIZE) (i * PMM_PAGE_SIZE)) st) [0..<n] st"
    using q by (simp add: pmm_free_pages_def)
  note f = f[folded this]
  have "hi \<le> bitmap_bits (g_pmm_bitmap st)" if "hi = 65536" for hi
    using inv that by (auto simp: pmm_inv_def)
  then have "{p \<in> {256..<65536}. pmm_test_bit (g_pmm_bitmap (pmm_free_pages (q * PMM_PAGE_SIZE) n st)) p}
      = ?U - {q..<q + n}" using f by fastforce
  then show ?thesis using f U assms by (auto simp: pmm_owned_inv_def)
qed

lemma pmm_free_page_pages:
  assumes "a div PMM_PAGE_SIZE \<noteq> 0" "a < 2 ^ 64"
  shows "pmm_free_page a st = pmm_free_pages (a div PMM_PAGE_SIZE * PMM_PAGE_SIZE) 1 st"
  using assms
  by (auto simp: pmm_free_pages_def pmm_free_page_def phys_to_page_def add64_def)

lemma pmm_owned_inv_step:
  assumes "pmm_step s t" "pmm_owned_inv ke s"
  shows "pmm_owned_inv ke t"
  using assms
proof (induction rule: pmm_step.induct)
  case (alloc_page st a st' own)
  from pmm_owned_alloc(1)[OF alloc_page(3) pmm_alloc_page_pages[OF alloc_page(1)] alloc_page(2)]
  show ?case by (simp add: Un_insert_right)
next
  case (alloc_page_null st st' own)
  then have "pmm_inv 256 65536 st" by (simp add: pmm_owned_inv_def)
  from pmm_alloc_null[OF this pmm_alloc_page_pages[OF alloc_page_null(1)]] alloc_page_null
  show ?case by simp
next
  case (alloc_pages n st a st' own)
  from pmm_owned_alloc(1)[OF alloc_pages(3,1,2)] show ?case .
next
  case (alloc_pages_null n st st' own)
  then have "pmm_inv 256 65536 st" by (simp add: pmm_owned_inv_def)
  from pmm_alloc_null[OF this alloc_pages_null(1)] alloc_pages_null show ?case by simp
next
  case (free_page a own st)
  let ?q = "a div PMM_PAGE_SIZE"
  have "?q \<in> {p \<in> {256..<65536}. pmm_test_bit (g_pmm_bitmap st) p}"
    using free_page by (simp add: pmm_owned_inv_def)
  then have q: "?q \<noteq> 0" "a < 2 ^ 64" by auto
  have "{?q..<?q + 1} \<subseteq> own" using free_page by simp
  from pmm_owned_free[OF free_page(2) this]
  show ?case using pmm_free_page_pages[OF q] by simp
next
  case (free_pages q n own st)
  from pmm_owned_free[OF free_pages(3,1,2)] show ?case .
qed

lemma pmm_reachable_inv:
  assumes "kernel_end_ok ke" "pmm_reachable ke s"
  shows "pmm_owned_inv ke s"
  using assms(2)
proof (induction rule: pmm_reachable.induct)
  case boot
  have "256 + kernel_pages ke \<le> 65536" using kernel_pages_le[OF assms(1)] by simp
  then have "{p \<in> {256..<65536}. pmm_test_bit (g_pmm_bitmap (pmm_init ke pmm_init_state)) p}
      = {256..<256 + kernel_pages ke}"
    using pmm_init_spec(5)[OF assms(1)] by auto
  then show ?case using pmm_init_spec[OF assms(1)] by (simp add: pmm_owned_inv_def)
next
  case (step s t) then show ?case by (blast intro: pmm_owned_inv_step)
qed

lemma pmm_reachable_used_count:
  assumes "pmm_owned_inv ke (st, own)"
  shows "g_pmm_used_pages st = kernel_pages ke + card own"
proof -
  have "g_pmm_used_pages st = card ({256..<256 + kernel_pages ke} \<union> own)"
    using assms by (simp add: pmm_owned_inv_def pmm_inv_def)
  also have "\<dots> = card {256..<256 + kernel_pages ke} + card own"
    using assms by (intro card_Un_disjoint) (auto simp: pmm_owned_inv_def)
  finally show ?thesis by simp
qed

text \<open>
  C1 (pmm_alloc_exclusive): after boot and any sequence of allocations and frees of owned pages, a successful
  \<^verbatim>\<open>pmm_alloc_pages\<close> returns a page-aligned run that lies above the kernel image and
  below the managed bound, meets no page handed out before, and the used-page counter is
  the kernel image plus the pages handed out, before and after the call.
\<close>

theorem pmm_alloc_exclusive:
  assumes ke: "kernel_end_ok ke"
    and reach: "pmm_reachable ke (st, own)"
    and alloc: "pmm_alloc_pages n st = Inr (a, st')" "a \<noteq> 0"
  shows "a mod PMM_PAGE_SIZE = 0 \<and> 0 < n \<and>
    256 + kernel_pages ke \<le> a div PMM_PAGE_SIZE \<and> a div PMM_PAGE_SIZE + n \<le> 65280 \<and>
    {a div PMM_PAGE_SIZE..<a div PMM_PAGE_SIZE + n} \<inter> own = {} \<and>
    g_pmm_used_pages st = kernel_pages ke + card own \<and>
    g_pmm_used_pages st' = kernel_pages ke + card own + n"
proof -
  have o: "pmm_owned_inv ke (st, own)" by (rule pmm_reachable_inv[OF ke reach])
  then have inv: "pmm_inv 256 65536 st" and tot: "g_pmm_total_pages st = 65280"
    by (auto simp: pmm_owned_inv_def)
  note s = pmm_alloc_pages_set[OF inv alloc]
  note d = pmm_owned_alloc[OF o alloc]
  have lo: "256 \<le> a div PMM_PAGE_SIZE" using s(3) inv by (simp add: pmm_inv_def)
  moreover have "256 + kernel_pages ke \<le> a div PMM_PAGE_SIZE"
  proof (rule ccontr)
    assume "\<not> ?thesis"
    with lo s(1) have "a div PMM_PAGE_SIZE \<in> {256..<256 + kernel_pages ke} \<inter>
      {a div PMM_PAGE_SIZE..<a div PMM_PAGE_SIZE + n}" by simp
    with d(3) show False by blast
  qed
  moreover have "card (own \<union> {a div PMM_PAGE_SIZE..<a div PMM_PAGE_SIZE + n}) = card own + n"
    using d(2) o by (subst card_Un_disjoint) (auto simp: pmm_owned_inv_def)
  ultimately show ?thesis
    using s(1,2,4) tot d(2) pmm_reachable_used_count[OF o] pmm_reachable_used_count[OF d(1)]
    by (auto simp: Int_commute)
qed

theorem pmm_alloc_exclusive_witness:
  "\<exists>a st'. pmm_alloc_pages 1 (pmm_init 0xFFFFFFFF80100000 pmm_init_state) = Inr (a, st') \<and>
     a div PMM_PAGE_SIZE = 256 \<and> g_pmm_used_pages st' = 1"
proof -
  define ke where "ke = (0xFFFFFFFF80100000 :: nat)"
  have ke: "kernel_end_ok ke" and kp: "kernel_pages ke = 0"
    by (simp_all add: ke_def kernel_end_ok_def kernel_pages_def)
  let ?st = "pmm_init ke pmm_init_state"
  note i = pmm_init_spec[OF ke]
  have "pmm_scan (g_pmm_bitmap ?st) (g_pmm_total_pages ?st) (g_pmm_first_free_page ?st) = Some 256"
    using i kp by (simp add: pmm_scan.simps)
  then obtain st' where al: "pmm_alloc_pages 1 ?st = Inr (256 * PMM_PAGE_SIZE, st')"
    by (simp add: pmm_alloc_pages_def pmm_alloc_page_def)
  from pmm_alloc_exclusive[OF ke pmm_reachable.boot al] al kp show ?thesis by (simp add: ke_def)
qed

text \<open>
  C9 (pmm_alloc_pages_complete): for a positive count whose sum with the page limit does not wrap, the contiguous search never reads outside the bitmap, keeps the invariant, and
  fails (NULL) exactly when no run of \<^verbatim>\<open>count\<close> free pages lies between the hint
  and the managed bound.
\<close>

theorem pmm_alloc_pages_complete:
  assumes inv: "pmm_inv lo hi st" and n: "n + PMM_MAX_PAGES < 2 ^ 64" "0 < n"
  shows "\<exists>a st'. pmm_alloc_pages n st = Inr (a, st') \<and> pmm_inv lo hi st' \<and>
    (a = 0 \<longleftrightarrow> \<not> (\<exists>q. g_pmm_first_free_page st \<le> q \<and> q + n \<le> g_pmm_total_pages st \<and>
                   (\<forall>k<n. \<not> pmm_test_bit (g_pmm_bitmap st) (q + k))))"
proof -
  let ?bm = "g_pmm_bitmap st" and ?t = "g_pmm_total_pages st" and ?f = "g_pmm_first_free_page st"
  have b: "?t \<le> bitmap_bits ?bm" "bitmap_bits ?bm + n < 2 ^ 64" "?f \<le> bitmap_bits ?bm" "0 < ?f"
    "bitmap_bits ?bm < 2 ^ 63"
    using inv n by (auto simp: pmm_inv_def)
  consider "n = 1" | "1 < n" using n(2) by linarith
  then show ?thesis
  proof cases
    case 1
    obtain a st' where al: "pmm_alloc_page st = (a, st')" by fastforce
    then have al': "pmm_alloc_pages n st = Inr (a, st')" using 1 by (simp add: pmm_alloc_pages_def)
    from inv al have "a = 0 \<longleftrightarrow> \<not> (\<exists>q. ?f \<le> q \<and> q + n \<le> ?t \<and> (\<forall>k<n. \<not> pmm_test_bit ?bm (q + k)))"
    proof (cases rule: pmm_alloc_page_cases)
      case null then show ?thesis using 1 by force
    next
      case (page p)
      then have "a \<noteq> 0" using b(4) by auto
      moreover have "\<exists>q. ?f \<le> q \<and> q + n \<le> ?t \<and> (\<forall>k<n. \<not> pmm_test_bit ?bm (q + k))"
        using page 1 by (intro exI[of _ p]) auto
      ultimately show ?thesis by simp
    qed
    then show ?thesis using al' pmm_alloc_pages_inv[OF inv al'] by blast
  next
    case 2
    obtain r where r: "pmm_find_run ?bm ?t n ?f = Inr r"
      using pmm_find_run_no_fault[OF b(1-3)] by (cases "pmm_find_run ?bm ?t n ?f") auto
    obtain a st' where al: "pmm_alloc_pages n st = Inr (a, st')"
      using 2 r by (cases r) (auto simp: pmm_alloc_pages_def)
    have "a = 0 \<longleftrightarrow> r = None"
      using al r 2 b(4) pmm_find_run_Some'[OF b(5,3) n(2), of ?t] by (cases r) (fastforce simp: pmm_alloc_pages_def)+
    moreover have "r = None \<longleftrightarrow> \<not> (\<exists>q. ?f \<le> q \<and> q + n \<le> ?t \<and> (\<forall>k<n. \<not> pmm_test_bit ?bm (q + k)))"
      using r pmm_find_run_None[OF b(2,3)] pmm_find_run_Some'[OF b(5,3) n(2)] by (cases r) blast+
    ultimately show ?thesis using al pmm_alloc_pages_inv[OF inv al] by blast
  qed
qed

theorem pmm_alloc_pages_complete_witness:
  "\<exists>a st'. pmm_alloc_pages 2 pmm_boot_state = Inr (a, st') \<and> a \<noteq> 0"
proof -
  have "256 \<le> (256::nat) \<and> 256 + 2 \<le> g_pmm_total_pages pmm_boot_state \<and>
      (\<forall>k<2. \<not> pmm_test_bit (g_pmm_bitmap pmm_boot_state) (256 + k))"
    using test_pmm_boot_bitmap by (simp add: pmm_boot_state_def)
  then have "\<exists>q. g_pmm_first_free_page pmm_boot_state \<le> q \<and> q + 2 \<le> g_pmm_total_pages pmm_boot_state \<and>
      (\<forall>k<2. \<not> pmm_test_bit (g_pmm_bitmap pmm_boot_state) (q + k))"
    by (intro exI[of _ 256]) (simp add: pmm_boot_state_def)
  then show ?thesis
    using pmm_alloc_pages_complete[OF pmm_boot_state_inv, of 2] by auto
qed

text \<open>
  C15 (pmm_alloc_free_roundtrip): freeing the run an allocation just returned restores the bitmap and the
  used-page counter exactly.
\<close>

theorem pmm_alloc_free_roundtrip:
  assumes inv: "pmm_inv lo hi st" and alloc: "pmm_alloc_pages n st = Inr (a, st')" "a \<noteq> 0"
  shows "g_pmm_bitmap (pmm_free_pages a n st') = g_pmm_bitmap st \<and>
    g_pmm_used_pages (pmm_free_pages a n st') = g_pmm_used_pages st \<and>
    g_pmm_total_pages (pmm_free_pages a n st') = g_pmm_total_pages st"
proof -
  let ?q = "a div PMM_PAGE_SIZE" and ?f = "pmm_free_pages a n st'"
  note s = pmm_alloc_pages_set[OF inv alloc]
  have aq: "a = ?q * PMM_PAGE_SIZE" using s(2) by auto
  have inv': "pmm_inv lo hi st'" by (rule pmm_alloc_pages_inv[OF inv alloc(1)])
  have b: "lo \<le> ?q" "?q + n \<le> hi" using s(3,4) inv by (auto simp: pmm_inv_def)
  have len: "length (g_pmm_bitmap st') = length (g_pmm_bitmap st)"
    by (rule pmm_alloc_pages_length[OF alloc(1)])
  have "?f = fold (\<lambda>i st. pmm_free_page (add64 (?q * PMM_PAGE_SIZE) (i * PMM_PAGE_SIZE)) st) [0..<n] st'"
    using alloc(2) aq by (simp add: pmm_free_pages_def)
  note f = pmm_free_run[OF inv' b, folded this]
  have bm: "g_pmm_bitmap ?f = g_pmm_bitmap st"
  proof (rule pb.bits_ext)
    show "bitmap_bits (g_pmm_bitmap ?f) = bitmap_bits (g_pmm_bitmap st)" using f len by simp
    fix i assume "i < bitmap_bits (g_pmm_bitmap ?f)"
    then have i: "i < bitmap_bits (g_pmm_bitmap st)" using f len by simp
    show "pmm_test_bit (g_pmm_bitmap ?f) i = pmm_test_bit (g_pmm_bitmap st) i"
    proof (cases "?q \<le> i \<and> i < ?q + n")
      case True
      then have "i - ?q < n" "?q + (i - ?q) = i" by linarith+
      then have "\<not> pmm_test_bit (g_pmm_bitmap st) i" using s(6)[of "i - ?q"] by simp
      then show ?thesis using True f i len by simp
    next
      case False
      then show ?thesis using f i len pmm_alloc_pages_test[OF inv alloc i] by auto
    qed
  qed
  then show ?thesis using f inv s(5) by (auto simp: pmm_inv_def)
qed

theorem pmm_alloc_free_roundtrip_witness:
  "\<exists>a st'. pmm_alloc_pages 1 pmm_boot_state = Inr (a, st') \<and>
     g_pmm_bitmap (pmm_free_pages a 1 st') = g_pmm_bitmap pmm_boot_state"
proof -
  have "pmm_scan (g_pmm_bitmap pmm_boot_state) (g_pmm_total_pages pmm_boot_state)
      (g_pmm_first_free_page pmm_boot_state) = Some 256"
    using test_pmm_boot_bitmap by (simp add: pmm_boot_state_def pmm_scan.simps)
  then obtain st' where al: "pmm_alloc_pages 1 pmm_boot_state = Inr (256 * PMM_PAGE_SIZE, st')"
    by (simp add: pmm_alloc_pages_def pmm_alloc_page_def)
  from pmm_alloc_free_roundtrip[OF pmm_boot_state_inv al] al show ?thesis by simp
qed

text \<open>
  The hint is not an invariant: after a contiguous allocation it can lie beyond a free
  page, so \<^verbatim>\<open>pmm_alloc_page\<close> reports out of memory while page 1 is free.
\<close>

lemma pmm_hint_skips_hole:
  "\<exists>st st'. g_pmm_first_free_page st = 1 \<and> pmm_alloc_pages 2 st = Inr (3 * PMM_PAGE_SIZE, st') \<and>
     \<not> pmm_test_bit (g_pmm_bitmap st') 1 \<and> fst (pmm_alloc_page st') = 0"
proof -
  define st where "st = \<lparr>g_pmm_bitmap = [0xE5], g_pmm_total_pages = 8, g_pmm_used_pages = 5,
     g_pmm_first_free_page = 1\<rparr>"
  show ?thesis
    by (rule exI[of _ st], rule exI[of _ "snd (projr (pmm_alloc_pages 2 st))"])
      (simp add: st_def pmm_alloc_pages_def pmm_find_run.simps pmm_run_blocked.simps add64_def
        pmm_test_bit_def pmm_set_bit_def upt_rec pmm_alloc_page_def pmm_scan.simps)
qed

section \<open>What the page tables need of the page allocator\<close>

text \<open>
  The interface between the page allocator and its clients: \<open>used\<close> pages are owned by
  somebody, \<open>avail\<close> counts the pages the allocator can still hand out.
\<close>

locale page_provider =
  fixes pinv :: "'s \<Rightarrow> bool"
    and used :: "'s \<Rightarrow> nat set"
    and avail :: "'s \<Rightarrow> nat"
    and alloc :: "'s \<Rightarrow> nat \<times> 's"
  assumes alloc_inv: "pinv s \<Longrightarrow> alloc s = (a, s') \<Longrightarrow> pinv s'"
    and alloc_null: "pinv s \<Longrightarrow> alloc s = (a, s') \<Longrightarrow> a = 0 \<longleftrightarrow> avail s = 0"
    and alloc_fresh: "pinv s \<Longrightarrow> alloc s = (a, s') \<Longrightarrow> a \<noteq> 0 \<Longrightarrow>
       \<exists>p. a = p * PMM_PAGE_SIZE \<and> 256 \<le> p \<and> p < 65536 \<and> p \<notin> used s \<and> used s' = insert p (used s)"
    and alloc_avail: "pinv s \<Longrightarrow> alloc s = (a, s') \<Longrightarrow> a \<noteq> 0 \<Longrightarrow> Suc (avail s') = avail s"
begin

lemma alloc_succeeds:
  assumes "pinv s" "0 < avail s"
  obtains p s' where "alloc s = (p * PMM_PAGE_SIZE, s')" "p * PMM_PAGE_SIZE \<noteq> 0" "256 \<le> p" "p < 65536"
    "p \<notin> used s" "used s' = insert p (used s)" "pinv s'" "Suc (avail s') = avail s"
proof -
  obtain a s' where al: "alloc s = (a, s')" by fastforce
  with assms have "a \<noteq> 0" using alloc_null by auto
  with alloc_fresh[OF assms(1) al] alloc_avail[OF assms(1) al] alloc_inv[OF assms(1) al] al that
  show ?thesis by blast
qed

end

definition pmm_used :: "pmm \<Rightarrow> nat set" where
  "pmm_used st = {p \<in> {256..<65536}. pmm_test_bit (g_pmm_bitmap st) p}"

definition pmm_avail :: "pmm \<Rightarrow> nat" where
  "pmm_avail st = card {p \<in> {g_pmm_first_free_page st..<g_pmm_total_pages st}. \<not> pmm_test_bit (g_pmm_bitmap st) p}"

lemma pmm_avail_alloc:
  assumes inv: "pmm_inv 256 65536 st" and al: "pmm_alloc_page st = (a, st')"
  shows "a = 0 \<longleftrightarrow> pmm_avail st = 0" "a \<noteq> 0 \<Longrightarrow> Suc (pmm_avail st') = pmm_avail st"
proof -
  let ?A = "\<lambda>st. {p \<in> {g_pmm_first_free_page st..<g_pmm_total_pages st}. \<not> pmm_test_bit (g_pmm_bitmap st) p}"
  have "(a = 0 \<longleftrightarrow> pmm_avail st = 0) \<and> (a \<noteq> 0 \<longrightarrow> Suc (pmm_avail st') = pmm_avail st)"
    using inv al
  proof (cases rule: pmm_alloc_page_cases)
    case null
    then have "?A st = {}" by auto
    then show ?thesis using null by (simp add: pmm_avail_def)
  next
    case (page p)
    have "0 < p" using page inv by (auto simp: pmm_inv_def)
    have len: "p < bitmap_bits (g_pmm_bitmap st)" "g_pmm_total_pages st \<le> bitmap_bits (g_pmm_bitmap st)"
      using page inv by (auto simp: pmm_inv_def)
    have "?A st = insert p (?A st')"
    proof (rule set_eqI)
      fix q
      show "q \<in> ?A st \<longleftrightarrow> q \<in> insert p (?A st')"
      proof (cases "q < p")
        case True
        then show ?thesis using page by auto
      next
        case False
        then show ?thesis using page len by (auto simp: pb.test_setb)
      qed
    qed
    moreover have "p \<notin> ?A st'" using page by auto
    ultimately have "Suc (card (?A st')) = card (?A st)" by simp
    then have "Suc (pmm_avail st') = pmm_avail st" unfolding pmm_avail_def .
    moreover have "a \<noteq> 0" using page(1) \<open>0 < p\<close> by simp
    ultimately show ?thesis by simp
  qed
  then show "a = 0 \<longleftrightarrow> pmm_avail st = 0" "a \<noteq> 0 \<Longrightarrow> Suc (pmm_avail st') = pmm_avail st" by auto
qed

interpretation pp: page_provider "pmm_inv 256 65536" pmm_used pmm_avail pmm_alloc_page
proof
  fix s s' :: pmm and a
  assume inv: "pmm_inv 256 65536 s" and al: "pmm_alloc_page s = (a, s')"
  show "pmm_inv 256 65536 s'" using pmm_alloc_page_inv[OF inv al] .
  show "a = 0 \<longleftrightarrow> pmm_avail s = 0" by (rule pmm_avail_alloc(1)[OF inv al])
  assume a: "a \<noteq> 0"
  then show "Suc (pmm_avail s') = pmm_avail s" by (rule pmm_avail_alloc(2)[OF inv al])
  note s = pmm_alloc_pages_set[OF inv pmm_alloc_page_pages[OF al] a]
  have b: "256 \<le> g_pmm_first_free_page s" "g_pmm_total_pages s \<le> 65536" using inv by (auto simp: pmm_inv_def)
  show "\<exists>p. a = p * PMM_PAGE_SIZE \<and> 256 \<le> p \<and> p < 65536 \<and> p \<notin> pmm_used s \<and> pmm_used s' = insert p (pmm_used s)"
  proof (intro exI conjI)
    show "a = a div PMM_PAGE_SIZE * PMM_PAGE_SIZE" using s(2) by auto
    show "256 \<le> a div PMM_PAGE_SIZE" using s(3) b by simp
    show "a div PMM_PAGE_SIZE < 65536" using s(4) b by simp
    show "a div PMM_PAGE_SIZE \<notin> pmm_used s" using s(6)[of 0] by (simp add: pmm_used_def)
    show "pmm_used s' = insert (a div PMM_PAGE_SIZE) (pmm_used s)" using s(7) by (simp add: pmm_used_def)
  qed
qed

end
