(* ===== verification/Gos_Memory.thy ===== *)
theory Gos_Memory
  imports Gos_Prelude
begin

text \<open>
  Byte memory, and the code that moves bytes through pointers: \<^verbatim>\<open>include/gOS/unaligned.h\<close>,
  \<^verbatim>\<open>include/gOS/endian.h\<close> and the memory functions of \<^verbatim>\<open>lib/string.c\<close>, \<^verbatim>\<open>lib/memmove.c\<close> and
  \<^verbatim>\<open>lib/memcmp.c\<close>. A pointer is its address; memory is flat, as it is for the kernel.
\<close>

type_synonym mem = "nat \<Rightarrow> u8"

section \<open>\<^verbatim>\<open>include/gOS/unaligned.h\<close>\<close>

definition read_unaligned_u16 :: "mem \<Rightarrow> nat \<Rightarrow> u16" where
  "read_unaligned_u16 m p = ucast (m p) OR push_bit 8 (ucast (m (p + 1)))"

definition read_unaligned_u32 :: "mem \<Rightarrow> nat \<Rightarrow> u32" where
  "read_unaligned_u32 m p = ucast (m p) OR push_bit 8 (ucast (m (p + 1))) OR
     push_bit 16 (ucast (m (p + 2))) OR push_bit 24 (ucast (m (p + 3)))"

definition read_unaligned_u64 :: "mem \<Rightarrow> nat \<Rightarrow> u64" where
  "read_unaligned_u64 m p = ucast (m p) OR push_bit 8 (ucast (m (p + 1))) OR
     push_bit 16 (ucast (m (p + 2))) OR push_bit 24 (ucast (m (p + 3))) OR
     push_bit 32 (ucast (m (p + 4))) OR push_bit 40 (ucast (m (p + 5))) OR
     push_bit 48 (ucast (m (p + 6))) OR push_bit 56 (ucast (m (p + 7)))"

definition write_unaligned_u16 :: "mem \<Rightarrow> nat \<Rightarrow> u16 \<Rightarrow> mem" where
  "write_unaligned_u16 m p val = m(p := ucast (val AND 0xFF), p + 1 := ucast (drop_bit 8 val AND 0xFF))"

definition write_unaligned_u32 :: "mem \<Rightarrow> nat \<Rightarrow> u32 \<Rightarrow> mem" where
  "write_unaligned_u32 m p val = m(p := ucast (val AND 0xFF), p + 1 := ucast (drop_bit 8 val AND 0xFF),
     p + 2 := ucast (drop_bit 16 val AND 0xFF), p + 3 := ucast (drop_bit 24 val AND 0xFF))"

definition write_unaligned_u64 :: "mem \<Rightarrow> nat \<Rightarrow> u64 \<Rightarrow> mem" where
  "write_unaligned_u64 m p val = m(p := ucast (val AND 0xFF), p + 1 := ucast (drop_bit 8 val AND 0xFF),
     p + 2 := ucast (drop_bit 16 val AND 0xFF), p + 3 := ucast (drop_bit 24 val AND 0xFF),
     p + 4 := ucast (drop_bit 32 val AND 0xFF), p + 5 := ucast (drop_bit 40 val AND 0xFF),
     p + 6 := ucast (drop_bit 48 val AND 0xFF), p + 7 := ucast (drop_bit 56 val AND 0xFF))"

section \<open>\<^verbatim>\<open>include/gOS/endian.h\<close>\<close>

definition bswap16 :: "u16 \<Rightarrow> u16" where
  "bswap16 x = drop_bit 8 x OR push_bit 8 x"

definition bswap32 :: "u32 \<Rightarrow> u32" where
  "bswap32 x = (drop_bit 24 x AND 0xFF) OR (drop_bit 8 x AND 0xFF00) OR
     (push_bit 8 x AND 0xFF0000) OR (push_bit 24 x AND 0xFF000000)"

definition bswap64 :: "u64 \<Rightarrow> u64" where
  "bswap64 x = (drop_bit 56 x AND 0xFF) OR (drop_bit 40 x AND 0xFF00) OR
     (drop_bit 24 x AND 0xFF0000) OR (drop_bit 8 x AND 0xFF000000) OR
     (push_bit 8 x AND 0xFF00000000) OR (push_bit 24 x AND 0xFF0000000000) OR
     (push_bit 40 x AND 0xFF000000000000) OR (push_bit 56 x AND 0xFF00000000000000)"

section \<open>Memory functions\<close>

fun memcpy :: "mem \<Rightarrow> nat \<Rightarrow> nat \<Rightarrow> nat \<Rightarrow> mem" where
  "memcpy m d s 0 = m"
| "memcpy m d s (Suc n) = memcpy (m(d := m s)) (d + 1) (s + 1) n"

fun memset :: "mem \<Rightarrow> nat \<Rightarrow> u8 \<Rightarrow> nat \<Rightarrow> mem" where
  "memset m p c 0 = m"
| "memset m p c (Suc n) = memset (m(p := c)) (p + 1) c n"

text \<open>The pointer \<^verbatim>\<open>memchr\<close> returns, 0 for \<^verbatim>\<open>NULL\<close>.\<close>

fun memchr :: "mem \<Rightarrow> nat \<Rightarrow> u8 \<Rightarrow> nat \<Rightarrow> nat" where
  "memchr m p c 0 = 0"
| "memchr m p c (Suc n) = (if m p = c then p else memchr m (p + 1) c n)"

definition memmove :: "mem \<Rightarrow> nat \<Rightarrow> nat \<Rightarrow> nat \<Rightarrow> mem" where
  "memmove m d s n =
     (if d < s then fold (\<lambda>i m. m(d + i := m (s + i))) [0..<n] m
      else if s < d then fold (\<lambda>i m. m(d + i := m (s + i))) (rev [0..<n]) m
      else m)"

fun memcmp_from :: "mem \<Rightarrow> nat \<Rightarrow> nat \<Rightarrow> nat \<Rightarrow> int" where
  "memcmp_from m p1 p2 0 = 0"
| "memcmp_from m p1 p2 (Suc n) =
     (if m p1 \<noteq> m p2 then uint (m p1) - uint (m p2) else memcmp_from m (p1 + 1) (p2 + 1) n)"

definition memcmp :: "mem \<Rightarrow> nat \<Rightarrow> nat \<Rightarrow> nat \<Rightarrow> int" where
  "memcmp m s1 s2 n = memcmp_from m s1 s2 n"

section \<open>Round trips of the unaligned accesses\<close>

lemma bit_byte_mask: "bit (w AND 0xFF) n \<longleftrightarrow> n < 8 \<and> bit w n" for w :: "'a::len word"
proof -
  have "(0xFF :: 'a word) = mask 8" by (simp add: mask_eq_exp_minus_1)
  then show ?thesis by (simp only: bit_and_iff bit_mask_iff) (auto dest: bit_imp_le_length)
qed

lemma ucast_byte: "ucast (w AND 0xFF) = (ucast w :: u8)" for w :: "'a::len word"
  by (rule bit_word_eqI) (auto simp: bit_ucast_iff bit_byte_mask)

lemma bit_byte_at:
  "bit (push_bit k (ucast (ucast (drop_bit k x) :: u8)) :: 'a word) n \<longleftrightarrow> k \<le> n \<and> n < k + 8 \<and> bit x n"
  for x :: "'a::len word"
  by (auto simp: bit_simps dest: bit_imp_le_length)

lemma bit_byte_0: "bit (ucast (ucast x :: u8) :: 'a::len word) n \<longleftrightarrow> n < 8 \<and> bit (x :: 'a word) n"
  by (auto simp: bit_simps dest: bit_imp_le_length)

lemma split_u16: "ucast (ucast x :: u8) OR push_bit 8 (ucast (ucast (drop_bit 8 x) :: u8)) = (x :: u16)"
  by (rule bit_word_eqI) (simp add: bit_or_iff bit_byte_at bit_byte_0, linarith?)

lemma split_u32:
  "ucast (ucast x :: u8) OR push_bit 8 (ucast (ucast (drop_bit 8 x) :: u8)) OR
     push_bit 16 (ucast (ucast (drop_bit 16 x) :: u8)) OR push_bit 24 (ucast (ucast (drop_bit 24 x) :: u8)) = (x :: u32)"
  by (rule bit_word_eqI) (simp add: bit_or_iff bit_byte_at bit_byte_0, linarith?)

lemma split_u64:
  "ucast (ucast x :: u8) OR push_bit 8 (ucast (ucast (drop_bit 8 x) :: u8)) OR
     push_bit 16 (ucast (ucast (drop_bit 16 x) :: u8)) OR push_bit 24 (ucast (ucast (drop_bit 24 x) :: u8)) OR
     push_bit 32 (ucast (ucast (drop_bit 32 x) :: u8)) OR push_bit 40 (ucast (ucast (drop_bit 40 x) :: u8)) OR
     push_bit 48 (ucast (ucast (drop_bit 48 x) :: u8)) OR push_bit 56 (ucast (ucast (drop_bit 56 x) :: u8)) = (x :: u64)"
  by (rule bit_word_eqI) (simp add: bit_or_iff bit_byte_at bit_byte_0, linarith?)

lemma read_write_u16: "read_unaligned_u16 (write_unaligned_u16 m p v) p = v"
  by (simp add: read_unaligned_u16_def write_unaligned_u16_def ucast_byte split_u16)

lemma read_write_u32: "read_unaligned_u32 (write_unaligned_u32 m p v) p = v"
  by (simp add: read_unaligned_u32_def write_unaligned_u32_def ucast_byte split_u32)

lemma read_write_u64: "read_unaligned_u64 (write_unaligned_u64 m p v) p = v"
  by (simp add: read_unaligned_u64_def write_unaligned_u64_def ucast_byte split_u64)

lemma write_frame_u64: "q < p \<or> p + 8 \<le> q \<Longrightarrow> write_unaligned_u64 m p v q = m q"
  by (auto simp: write_unaligned_u64_def)

lemma read_cong_u64:
  assumes "\<And>k. k < 8 \<Longrightarrow> m (q + k) = m' (q + k)"
  shows "read_unaligned_u64 m q = read_unaligned_u64 m' q"
  using assms[of 0] assms[of 1] assms[of 2] assms[of 3] assms[of 4] assms[of 5] assms[of 6] assms[of 7]
  by (simp add: read_unaligned_u64_def)

lemma read_frame_u64:
  "q + 8 \<le> p \<or> p + 8 \<le> q \<Longrightarrow> read_unaligned_u64 (write_unaligned_u64 m p v) q = read_unaligned_u64 m q"
  by (rule read_cong_u64) (auto simp: write_frame_u64)

section \<open>Byte swaps\<close>

lemma bit_bswap16: "n < 16 \<Longrightarrow> bit (bswap16 x) n \<longleftrightarrow> bit x (if n < 8 then n + 8 else n - 8)"
  by (auto simp: bswap16_def bit_simps add.commute dest: bit_imp_le_length)

lemma bswap16_bswap16: "bswap16 (bswap16 x) = x"
  by (rule bit_word_eqI) (auto simp: bit_bswap16)

lemma bit_and_byte: "bit (w AND push_bit k (mask 8)) n \<longleftrightarrow> k \<le> n \<and> n < k + 8 \<and> bit w n" for w :: "'a::len word"
  by (auto simp: bit_simps dest: bit_imp_le_length)

lemma byte_cases:
  assumes "n < 8 * (k::nat)" obtains j r where "n = 8 * j + r" "r < 8" "j < k" "n div 8 = j" "n mod 8 = r"
proof
  show "n = 8 * (n div 8) + n mod 8" "n mod 8 < 8" by simp_all
  show "n div 8 < k" using assms by (simp add: less_mult_imp_div_less mult.commute)
qed simp_all

lemma bit_bswap32:
  assumes "n < 32" shows "bit (bswap32 x) n \<longleftrightarrow> bit x (24 - 8 * (n div 8) + n mod 8)"
proof -
  have m: "(0xFF :: u32) = push_bit 0 (mask 8)" "(0xFF00 :: u32) = push_bit 8 (mask 8)"
    "(0xFF0000 :: u32) = push_bit 16 (mask 8)" "(0xFF000000 :: u32) = push_bit 24 (mask 8)"
    by (simp_all add: mask_eq_exp_minus_1 push_bit_eq_mult)
  obtain j r where n: "n = 8 * j + r" "r < 8" "j < 4" "n div 8 = j" "n mod 8 = r" using byte_cases[of n 4] assms by auto
  then consider "j = 0" | "j = 1" | "j = 2" | "j = 3" by linarith
  then show ?thesis
    unfolding bswap32_def m bit_or_iff bit_and_byte n(4,5)
    by cases (use n in \<open>simp_all add: bit_drop_bit_eq bit_push_bit_iff\<close>)
qed

lemma bit_bswap64:
  assumes "n < 64" shows "bit (bswap64 x) n \<longleftrightarrow> bit x (56 - 8 * (n div 8) + n mod 8)"
proof -
  have m: "(0xFF :: u64) = push_bit 0 (mask 8)" "(0xFF00 :: u64) = push_bit 8 (mask 8)"
    "(0xFF0000 :: u64) = push_bit 16 (mask 8)" "(0xFF000000 :: u64) = push_bit 24 (mask 8)"
    "(0xFF00000000 :: u64) = push_bit 32 (mask 8)" "(0xFF0000000000 :: u64) = push_bit 40 (mask 8)"
    "(0xFF000000000000 :: u64) = push_bit 48 (mask 8)" "(0xFF00000000000000 :: u64) = push_bit 56 (mask 8)"
    by (simp_all add: mask_eq_exp_minus_1 push_bit_eq_mult)
  obtain j r where n: "n = 8 * j + r" "r < 8" "j < 8" "n div 8 = j" "n mod 8 = r" using byte_cases[of n 8] assms by auto
  from n(3) consider "j = 0" | "j = 1" | "j = 2" | "j = 3" | "j = 4" | "j = 5" | "j = 6" | "j = 7"
    by (auto simp: less_Suc_eq numeral_eq_Suc)
  then show ?thesis
    unfolding bswap64_def m bit_or_iff bit_and_byte n(4,5)
    by cases (use n in \<open>simp_all add: bit_drop_bit_eq bit_push_bit_iff\<close>)
qed

lemma bswap32_bswap32: "bswap32 (bswap32 x) = x"
proof (rule bit_word_eqI)
  fix n assume "n < LENGTH(32)"
  then obtain j r where n: "n = 8 * j + r" "r < 8" "j < 4" "n div 8 = j" "n mod 8 = r" using byte_cases[of n 4] by auto
  then have "24 - 8 * j + r = 8 * (3 - j) + r" by simp
  moreover have "(8 * (3 - j) + r) div 8 = 3 - j" "(8 * (3 - j) + r) mod 8 = r" using n(2) by simp_all
  ultimately show "bit (bswap32 (bswap32 x)) n = bit x n"
    using n by (simp add: bit_bswap32) (simp add: algebra_simps)
qed

lemma bswap64_bswap64: "bswap64 (bswap64 x) = x"
proof (rule bit_word_eqI)
  fix n assume "n < LENGTH(64)"
  then obtain j r where n: "n = 8 * j + r" "r < 8" "j < 8" "n div 8 = j" "n mod 8 = r" using byte_cases[of n 8] by auto
  then have "56 - 8 * j + r = 8 * (7 - j) + r" by simp
  moreover have "(8 * (7 - j) + r) div 8 = 7 - j" "(8 * (7 - j) + r) mod 8 = r" using n(2) by simp_all
  ultimately show "bit (bswap64 (bswap64 x)) n = bit x n"
    using n by (simp add: bit_bswap64) (simp add: algebra_simps)
qed


section \<open>Memory functions\<close>

lemma memcpy_spec:
  assumes "d \<le> s \<or> s + n \<le> d"
  shows "memcpy m d s n x = (if d \<le> x \<and> x < d + n then m (s + (x - d)) else m x)"
  using assms
proof (induction n arbitrary: m d s)
  case (Suc n)
  then have "memcpy (m(d := m s)) (d + 1) (s + 1) n x =
      (if d + 1 \<le> x \<and> x < d + 1 + n then (m(d := m s)) (s + 1 + (x - (d + 1))) else (m(d := m s)) x)"
    by (intro Suc.IH) auto
  moreover have "(m(d := m s)) (s + 1 + (x - (d + 1))) = m (s + (x - d))" if "d + 1 \<le> x" "x < d + 1 + n"
  proof -
    have e: "s + 1 + (x - (d + 1)) = s + (x - d)" "s + (x - d) \<noteq> d" using that Suc.prems by linarith+
    show ?thesis unfolding e(1) using e(2) by (rule fun_upd_other)
  qed
  ultimately show ?case by auto
qed auto

lemma memset_spec: "memset m p c n x = (if p \<le> x \<and> x < p + n then c else m x)"
  by (induction n arbitrary: m p) auto

lemma fold_copy_up:
  assumes "d < s"
  shows "fold (\<lambda>i m. m(d + i := m (s + i))) [0..<n] m x = (if d \<le> x \<and> x < d + n then m (s + (x - d)) else m x)"
proof (induction n arbitrary: x)
  case (Suc n)
  let ?f = "\<lambda>i m. m(d + i := m (s + i))"
  have "fold ?f [0..<n] m (s + n) = m (s + n)" using Suc[of "s + n"] assms by (simp del: fun_upd_apply)
  then have "fold ?f [0..<Suc n] m = (fold ?f [0..<n] m)(d + n := m (s + n))" by (simp del: fun_upd_apply)
  then have "fold ?f [0..<Suc n] m x = (if x = d + n then m (s + n) else fold ?f [0..<n] m x)"
    by (simp only: fun_upd_apply)
  also have "\<dots> = (if d \<le> x \<and> x < d + Suc n then m (s + (x - d)) else m x)" unfolding Suc by auto
  finally show ?case .
qed auto

lemma fold_copy_down:
  assumes "s < d" "j + k \<le> n"
  shows "fold (\<lambda>i m. m(d + i := m (s + i))) (rev [j..<j + k]) m x
     = (if d + j \<le> x \<and> x < d + j + k then m (s + (x - d)) else m x)"
  using assms(2)
proof (induction k arbitrary: m)
  case (Suc k)
  let ?m = "m(d + (j + k) := m (s + (j + k)))"
  have "fold (\<lambda>i m. m(d + i := m (s + i))) (rev [j..<j + Suc k]) m x
      = fold (\<lambda>i m. m(d + i := m (s + i))) (rev [j..<j + k]) ?m x" by simp
  also have "\<dots> = (if d + j \<le> x \<and> x < d + j + k then ?m (s + (x - d)) else ?m x)"
    using Suc.prems by (intro Suc.IH) simp
  also have "\<dots> = (if d + j \<le> x \<and> x < d + j + Suc k then m (s + (x - d)) else m x)"
    using assms(1) by auto
  finally show ?case .
qed auto

lemma memmove_spec:
  "memmove m d s n x = (if d \<le> x \<and> x < d + n then m (s + (x - d)) else m x)"
proof -
  consider "d < s" | "s < d" | "s = d" by linarith
  then show ?thesis
  proof cases
    case 1 then show ?thesis by (simp add: memmove_def fold_copy_up)
  next
    case 2 then show ?thesis using fold_copy_down[of s d 0 n n m x] by (simp add: memmove_def)
  next
    case 3 then show ?thesis by (auto simp: memmove_def)
  qed
qed

lemma memcmp_eq_0_iff: "memcmp m s1 s2 n = 0 \<longleftrightarrow> (\<forall>i<n. m (s1 + i) = m (s2 + i))"
  unfolding memcmp_def
proof (induction n arbitrary: s1 s2)
  case (Suc n)
  have "uint (m s1) - uint (m s2) \<noteq> 0" if "m s1 \<noteq> m s2" using that by (simp add: word_uint_eq_iff)
  moreover have "(\<forall>i<Suc n. m (s1 + i) = m (s2 + i)) \<longleftrightarrow> m s1 = m s2 \<and> (\<forall>i<n. m (s1 + 1 + i) = m (s2 + 1 + i))"
    by (auto simp: less_Suc_eq_0_disj)
  ultimately show ?case using Suc[of "s1 + 1" "s2 + 1"] by (simp split: if_splits)
qed simp

lemma memchr_spec:
  "0 < p \<Longrightarrow> (memchr m p c n = 0 \<longleftrightarrow> (\<forall>i<n. m (p + i) \<noteq> c)) \<and>
     (memchr m p c n \<noteq> 0 \<longrightarrow> (\<exists>i<n. memchr m p c n = p + i \<and> m (p + i) = c \<and> (\<forall>j<i. m (p + j) \<noteq> c)))"
proof (induction n arbitrary: p)
  case (Suc n)
  show ?case
  proof (cases "m p = c")
    case True then show ?thesis using Suc.prems by auto
  next
    case False
    have pos: "0 < p + 1" by simp
    note IH = Suc.IH[OF pos]
    have g: "memchr m p c (Suc n) = memchr m (p + 1) c n" using False by simp
    have shift: "(\<forall>i<Suc n. m (p + i) \<noteq> c) \<longleftrightarrow> (\<forall>i<n. m (p + 1 + i) \<noteq> c)"
      using False by (auto simp: less_Suc_eq_0_disj)
    have "\<exists>i<Suc n. memchr m (p + 1) c n = p + i \<and> m (p + i) = c \<and> (\<forall>j<i. m (p + j) \<noteq> c)"
      if "memchr m (p + 1) c n \<noteq> 0"
    proof -
      from IH that obtain i where "i < n" "memchr m (p + 1) c n = p + 1 + i" "m (p + 1 + i) = c"
        "\<forall>j<i. m (p + 1 + j) \<noteq> c" by auto
      then show ?thesis using False by (intro exI[of _ "Suc i"]) (auto simp: less_Suc_eq_0_disj)
    qed
    then show ?thesis unfolding g shift using IH by blast
  qed
qed simp

section \<open>Runs of bytes\<close>

text \<open>\<open>load m p n\<close> reads the \<open>n\<close> bytes at \<open>p\<close>; \<open>store m p xs\<close> writes the bytes \<open>xs\<close> there.\<close>

definition load :: "mem \<Rightarrow> nat \<Rightarrow> nat \<Rightarrow> u8 list" where
  "load m p n = map (\<lambda>i. m (p + i)) [0..<n]"

definition store :: "mem \<Rightarrow> nat \<Rightarrow> u8 list \<Rightarrow> mem" where
  "store m p xs = (\<lambda>a. if p \<le> a \<and> a < p + length xs then xs ! (a - p) else m a)"

lemma length_load [simp]: "length (load m p n) = n"
  by (simp add: load_def)

lemma nth_load [simp]: "i < n \<Longrightarrow> load m p n ! i = m (p + i)"
  by (simp add: load_def)

lemma load_0 [simp]: "load m p 0 = []"
  by (simp add: load_def)

lemma load_Suc: "load m p (Suc n) = m p # load m (Suc p) n"
  by (rule nth_equalityI) (auto simp: nth_Cons' simp del: upt_Suc)

lemma load_cong: "(\<And>a. p \<le> a \<Longrightarrow> a < p + n \<Longrightarrow> m a = m' a) \<Longrightarrow> load m p n = load m' p n"
  by (simp add: load_def)

lemma store_Nil [simp]: "store m p [] = m"
  by (auto simp: store_def fun_eq_iff)

lemma store_Cons: "store m p (x # xs) = store (m(p := x)) (Suc p) xs"
  by (auto simp: store_def fun_eq_iff nth_Cons')

lemma store_append: "store m p (xs @ ys) = store (store m p xs) (p + length xs) ys"
  by (auto simp: store_def fun_eq_iff nth_append)

lemma store_other: "a < p \<or> p + length xs \<le> a \<Longrightarrow> store m p xs a = m a"
  by (auto simp: store_def)

lemma load_store [simp]: "load (store m p xs) p (length xs) = xs"
  by (rule nth_equalityI) (auto simp: store_def)

lemma load_store_other: "q + n \<le> p \<or> p + length xs \<le> q \<Longrightarrow> load (store m p xs) q n = load m q n"
  by (rule load_cong) (auto simp: store_def)

text \<open>Little-endian fields of a packed structure, read from its bytes.\<close>

definition field16 :: "u8 list \<Rightarrow> nat \<Rightarrow> nat" where
  "field16 p i = unat (p ! i) + 256 * unat (p ! (i + 1))"

definition field32 :: "u8 list \<Rightarrow> nat \<Rightarrow> nat" where
  "field32 p i = field16 p i + 2 ^ 16 * field16 p (i + 2)"

definition field64 :: "u8 list \<Rightarrow> nat \<Rightarrow> nat" where
  "field64 p i = field32 p i + 2 ^ 32 * field32 p (i + 4)"

lemma field16_less: "field16 p i < 2 ^ 16"
proof -
  have "unat (p ! i) < 256" "unat (p ! (i + 1)) < 256" using unsigned_less[of "p ! i", where ?'a=nat] unsigned_less[of "p ! (i + 1)", where ?'a=nat] by simp_all
  then show ?thesis unfolding field16_def by simp
qed

lemma field32_less: "field32 p i < 2 ^ 32"
  using field16_less[of p i] field16_less[of p "i + 2"] by (simp add: field32_def)

lemma field64_less: "field64 p i < 2 ^ 64"
  using field32_less[of p i] field32_less[of p "i + 4"] by (simp add: field64_def)

end
