(* ===== verification/Gos_Math.thy ===== *)
theory Gos_Math
  imports Gos_Memory "HOL-Library.Signed_Division"
begin

text \<open>
  Arithmetic helpers: \<^verbatim>\<open>lib/math.h\<close>, \<^verbatim>\<open>lib/bitops.h\<close> and the address macros of \<^verbatim>\<open>include/gOS/kernel.h\<close>, all at
  their width. A shift takes its count modulo the operand width, as the processor does; a
  division by zero, or one whose quotient does not fit, is the divide fault.
\<close>

section \<open>\<^verbatim>\<open>lib/math.h\<close>\<close>

definition abs32 :: "u32 \<Rightarrow> u32" where
  "abs32 x = (if sint x < 0 then - x else x)"

definition labs :: "u64 \<Rightarrow> u64" where
  "labs x = (if sint x < 0 then - x else x)"

definition llabs :: "u64 \<Rightarrow> u64" where
  "llabs x = (if sint x < 0 then - x else x)"

definition imax :: "u32 \<Rightarrow> u32 \<Rightarrow> u32" where
  "imax a b = (if sint a > sint b then a else b)"

definition imin :: "u32 \<Rightarrow> u32 \<Rightarrow> u32" where
  "imin a b = (if sint a < sint b then a else b)"

definition lmax :: "u64 \<Rightarrow> u64 \<Rightarrow> u64" where
  "lmax a b = (if sint a > sint b then a else b)"

definition lmin :: "u64 \<Rightarrow> u64 \<Rightarrow> u64" where
  "lmin a b = (if sint a < sint b then a else b)"

definition umax32 :: "u32 \<Rightarrow> u32 \<Rightarrow> u32" where
  "umax32 a b = (if a > b then a else b)"

definition umin32 :: "u32 \<Rightarrow> u32 \<Rightarrow> u32" where
  "umin32 a b = (if a < b then a else b)"

definition umax64 :: "u64 \<Rightarrow> u64 \<Rightarrow> u64" where
  "umax64 a b = (if a > b then a else b)"

definition umin64 :: "u64 \<Rightarrow> u64 \<Rightarrow> u64" where
  "umin64 a b = (if a < b then a else b)"

definition div_round_up :: "u32 \<Rightarrow> u32 \<Rightarrow> u32 res" where
  "div_round_up a b =
     (let n = a + b - 1 in
      if b = 0 \<or> (sint n = - (2 ^ 31) \<and> sint b = -1) then Inl DivideError else Inr (word_of_int (sint n sdiv sint b)))"

definition div64_round_up :: "u64 \<Rightarrow> u64 \<Rightarrow> u64 res" where
  "div64_round_up a b = (if b = 0 then Inl DivideError else Inr ((a + b - 1) div b))"

definition is_aligned :: "u64 \<Rightarrow> u64 \<Rightarrow> bool" where
  "is_aligned addr alignment = (addr AND (alignment - 1) = 0)"

definition align_up :: "u64 \<Rightarrow> u64 \<Rightarrow> u64" where
  "align_up addr alignment = (addr + alignment - 1) AND NOT (alignment - 1)"

definition align_down :: "u64 \<Rightarrow> u64 \<Rightarrow> u64" where
  "align_down addr alignment = addr AND NOT (alignment - 1)"

section \<open>\<^verbatim>\<open>lib/bitops.h\<close>\<close>

text \<open>The compiler builtins: leading and trailing zero bits, and the number of set bits.\<close>

definition clz :: "'a::len word \<Rightarrow> nat" where
  "clz x = length (takeWhile (\<lambda>i. \<not> bit x i) (rev [0..<LENGTH('a)]))"

definition ctz :: "'a::len word \<Rightarrow> nat" where
  "ctz x = length (takeWhile (\<lambda>i. \<not> bit x i) [0..<LENGTH('a)])"

definition popcount :: "'a::len word \<Rightarrow> nat" where
  "popcount x = length (filter (bit x) [0..<LENGTH('a)])"

definition clz32 :: "u32 \<Rightarrow> nat" where "clz32 x = clz x"
definition clz64 :: "u64 \<Rightarrow> nat" where "clz64 x = clz x"
definition ctz32 :: "u32 \<Rightarrow> nat" where "ctz32 x = ctz x"
definition ctz64 :: "u64 \<Rightarrow> nat" where "ctz64 x = ctz x"
definition popcount32 :: "u32 \<Rightarrow> nat" where "popcount32 x = popcount x"
definition popcount64 :: "u64 \<Rightarrow> nat" where "popcount64 x = popcount x"

definition ffs32 :: "u32 \<Rightarrow> nat" where
  "ffs32 x = (if x = 0 then 0 else ctz x + 1)"

definition ffs64 :: "u64 \<Rightarrow> nat" where
  "ffs64 x = (if x = 0 then 0 else ctz x + 1)"

definition shl :: "'a::len word \<Rightarrow> nat \<Rightarrow> 'a word" where
  "shl x n = push_bit (n mod LENGTH('a)) x"

definition shr :: "'a::len word \<Rightarrow> nat \<Rightarrow> 'a word" where
  "shr x n = drop_bit (n mod LENGTH('a)) x"

definition rol32 :: "u32 \<Rightarrow> nat \<Rightarrow> u32" where
  "rol32 x n = shl x n OR shr x (32 - n)"

definition ror32 :: "u32 \<Rightarrow> nat \<Rightarrow> u32" where
  "ror32 x n = shr x n OR shl x (32 - n)"

definition rol64 :: "u64 \<Rightarrow> nat \<Rightarrow> u64" where
  "rol64 x n = shl x n OR shr x (64 - n)"

definition ror64 :: "u64 \<Rightarrow> nat \<Rightarrow> u64" where
  "ror64 x n = shr x n OR shl x (64 - n)"

definition swap_bytes32 :: "u32 \<Rightarrow> u32" where
  "swap_bytes32 x = bswap32 x"

definition swap_bytes64 :: "u64 \<Rightarrow> u64" where
  "swap_bytes64 x = bswap64 x"

definition first_set_bit :: "u64 \<Rightarrow> int" where
  "first_set_bit x = (if x = 0 then -1 else int (ctz64 x))"

definition last_set_bit :: "u64 \<Rightarrow> int" where
  "last_set_bit x = (if x = 0 then -1 else 63 - int (clz64 x))"

definition bit_range_mask :: "nat \<Rightarrow> nat \<Rightarrow> u64" where
  "bit_range_mask lo hi = shl (shl 1 (hi - lo + 1) - 1) lo"

definition log2_ceil :: "u64 \<Rightarrow> nat" where
  "log2_ceil x = (if x \<le> 1 then 0 else 64 - clz (x - 1))"

definition log2_floor :: "u64 \<Rightarrow> nat" where
  "log2_floor x = (if x = 0 then 0 else 63 - clz x)"

section \<open>\<^verbatim>\<open>include/gOS/kernel.h\<close>\<close>

abbreviation KERNEL_VBASE64 :: u64 where "KERNEL_VBASE64 \<equiv> 0xFFFFFFFF80000000"

definition PHYS_TO_VIRT :: "u64 \<Rightarrow> u64" where
  "PHYS_TO_VIRT p = p + KERNEL_VBASE64"

definition VIRT_TO_PHYS :: "u64 \<Rightarrow> u64" where
  "VIRT_TO_PHYS v = v - KERNEL_VBASE64"

section \<open>Alignment\<close>

lemma unat_u64: "unat a < 2 ^ 64" for a :: u64
  by (rule order_less_le_trans[OF unsigned_less]) simp

lemma align_mask: "NOT (2 ^ k - 1) = (NOT (mask k) :: u64)"
  by (simp add: mask_eq_exp_minus_1)

lemma unat_align: "unat (a AND NOT (mask k)) = unat a div 2 ^ k * 2 ^ k" for a :: u64
proof -
  have "a AND NOT (mask k) = push_bit k (drop_bit k a)"
    by (rule bit_eqI) (auto simp: bit_simps bit_mask_iff not_less)
  moreover have "unat (push_bit k (drop_bit k a)) = push_bit k (drop_bit k (unat a))"
  proof -
    have "push_bit k (drop_bit k (unat a)) \<le> unat a" by (simp add: push_bit_eq_mult drop_bit_eq_div)
    also have "unat a < 2 ^ 64" by (rule unat_u64)
    finally have "take_bit 64 (push_bit k (drop_bit k (unat a))) = push_bit k (drop_bit k (unat a))"
      by (simp add: take_bit_nat_eq_self)
    moreover have "take_bit 64 (unat a) = unat a" by (rule take_bit_nat_eq_self[OF unat_u64])
    ultimately show ?thesis by (simp add: unsigned_push_bit_eq unsigned_drop_bit_eq take_bit_push_bit)
  qed
  ultimately show ?thesis by (simp add: push_bit_eq_mult drop_bit_eq_div)
qed

lemma align_down_value: "unat (align_down a (2 ^ k)) = unat a div 2 ^ k * 2 ^ k"
  unfolding align_down_def align_mask by (rule unat_align)


lemma unat_add_mask:
  assumes "k < 64"
  shows "unat (a + 2 ^ k - 1 :: u64) = (if unat a \<le> 2 ^ 64 - 2 ^ k then unat a + 2 ^ k - 1 else unat a + 2 ^ k - 1 - 2 ^ 64)"
proof -
  have p0: "(2::nat) ^ k < 2 ^ 64" using assms by (intro power_strict_increasing) auto
  then have p: "(2 ^ k - 1) mod 2 ^ 64 = (2 ^ k - 1 :: nat)" "(2::nat) ^ k < 2 ^ 64" "0 < (2::nat) ^ k"
    by (simp_all add: less_imp_diff_less)
  have m: "(2 ^ k - 1 :: u64) = word_of_nat (2 ^ k - 1)" using p(3) by (simp add: of_nat_diff)
  have um: "unat (2 ^ k - 1 :: u64) = 2 ^ k - 1" unfolding m unat_of_nat using p(1) by simp
  have "unat (a + (2 ^ k - 1) :: u64) = (unat a + (2 ^ k - 1)) mod 2 ^ 64"
    by (simp only: unat_word_ariths um) simp
  also have "\<dots> = (if unat a \<le> 2 ^ 64 - 2 ^ k then unat a + 2 ^ k - 1 else unat a + 2 ^ k - 1 - 2 ^ 64)"
  proof (cases "unat a \<le> 2 ^ 64 - 2 ^ k")
    case True
    then have "unat a + (2 ^ k - 1) < 2 ^ 64" using p by linarith
    then show ?thesis using True p(3) by simp
  next
    case False
    have "unat a < 2 ^ 64" by (rule unat_u64)
    then have "2 ^ 64 \<le> unat a + (2 ^ k - 1)" "unat a + (2 ^ k - 1) - 2 ^ 64 < 2 ^ 64" using False p by linarith+
    then have "(unat a + (2 ^ k - 1)) mod 2 ^ 64 = unat a + (2 ^ k - 1) - 2 ^ 64" by (simp add: le_mod_geq)
    then show ?thesis using False p(3) by simp
  qed
  finally show ?thesis by (simp add: add_diff_eq)
qed

text \<open>
  For a power-of-two alignment, \<^verbatim>\<open>align_up\<close> gives the least aligned address not below
  its argument; in the last \<^verbatim>\<open>alignment - 1\<close> bytes of the address space, where there is none, it wraps to 0.
\<close>

lemma align_up_least:
  assumes "k < 64"
  shows "if unat a \<le> 2 ^ 64 - 2 ^ k
    then a \<le> align_up a (2 ^ k) \<and> is_aligned (align_up a (2 ^ k)) (2 ^ k) \<and>
         (\<forall>b. a \<le> b \<and> is_aligned b (2 ^ k) \<longrightarrow> align_up a (2 ^ k) \<le> b)
    else align_up a (2 ^ k) = 0"
proof -
  have al: "is_aligned b (2 ^ k) \<longleftrightarrow> unat b div 2 ^ k * 2 ^ k = unat b" for b
  proof -
    have "is_aligned b (2 ^ k) \<longleftrightarrow> b AND mask k = 0" by (simp add: is_aligned_def mask_eq_exp_minus_1)
    also have "\<dots> \<longleftrightarrow> unat (take_bit k b) = 0" by (simp add: take_bit_eq_mask unsigned_eq_0_iff)
    also have "\<dots> \<longleftrightarrow> unat b mod 2 ^ k = 0" unfolding unsigned_take_bit_eq by (simp add: take_bit_eq_mod)
    also have "\<dots> \<longleftrightarrow> unat b div 2 ^ k * 2 ^ k = unat b" by (metis add.right_neutral div_mult_mod_eq mod_mult_self2_is_0)
    finally show ?thesis .
  qed
  have up: "unat (align_up a (2 ^ k)) = unat (a + 2 ^ k - 1) div 2 ^ k * 2 ^ k"
    unfolding align_up_def align_mask by (rule unat_align)
  have p: "0 < (2::nat) ^ k" by simp
  show ?thesis
  proof (cases "unat a \<le> 2 ^ 64 - 2 ^ k")
    case True
    then have u: "unat (align_up a (2 ^ k)) = (unat a + 2 ^ k - 1) div 2 ^ k * 2 ^ k" using up unat_add_mask[OF assms, of a] by simp
    let ?n = "unat a + 2 ^ k - 1"
    have "?n div 2 ^ k * 2 ^ k + ?n mod 2 ^ k = ?n" "?n mod 2 ^ k < 2 ^ k" by (rule div_mult_mod_eq, simp)
    then have ge: "unat a \<le> ?n div 2 ^ k * 2 ^ k" using p by linarith
    have "?n div 2 ^ k * 2 ^ k \<le> unat b" if "unat a \<le> unat b" "unat b div 2 ^ k * 2 ^ k = unat b" for b :: u64
    proof -
      have "?n div 2 ^ k \<le> (unat b + (2 ^ k - 1)) div 2 ^ k" using that(1) p by (intro div_le_mono) linarith
      also have "(unat b + (2 ^ k - 1)) div 2 ^ k = unat b div 2 ^ k"
        using div_mult_self3[of "2 ^ k" "unat b div 2 ^ k" "2 ^ k - 1"] that(2) by simp
      finally have "?n div 2 ^ k * 2 ^ k \<le> unat b div 2 ^ k * 2 ^ k" by simp
      then show ?thesis using that(2) by simp
    qed
    then show ?thesis using True u ge al by (simp add: word_le_nat_alt)
  next
    case False
    have "unat a < 2 ^ 64" by (rule unat_u64)
    then have "unat (a + 2 ^ k - 1) < 2 ^ k" using unat_add_mask[OF assms, of a] False p by simp
    then have "unat (align_up a (2 ^ k)) = 0" using up by simp
    then show ?thesis using False by (simp add: unsigned_eq_0_iff)
  qed
qed

section \<open>Bit operations\<close>

lemma bit_rol32: "n < 32 \<Longrightarrow> i < 32 \<Longrightarrow> bit (rol32 x n) i \<longleftrightarrow> bit x (if n \<le> i then i - n else 32 + i - n)"
  using bit_imp_le_length[of x "32 + i - n"]
  by (cases "n = 0") (auto simp: rol32_def shl_def shr_def bit_simps not_le dest: bit_imp_le_length)

lemma bit_ror32: "n < 32 \<Longrightarrow> i < 32 \<Longrightarrow> bit (ror32 x n) i \<longleftrightarrow> bit x (if i + n < 32 then i + n else i + n - 32)"
  by (cases "n = 0") (auto simp: ror32_def shl_def shr_def bit_simps not_less ac_simps dest: bit_imp_le_length)

lemma ror32_rol32: "n < 32 \<Longrightarrow> ror32 (rol32 x n) n = x"
  by (rule bit_eqI) (auto simp: bit_ror32 bit_rol32)

lemma bit_range_mask_bits:
  assumes "lo \<le> hi" "hi < 64" "hi - lo < 63"
  shows "bit (bit_range_mask lo hi) i \<longleftrightarrow> lo \<le> i \<and> i \<le> hi"
proof -
  have "bit_range_mask lo hi = push_bit lo (mask (hi - lo + 1))"
    using assms by (simp add: bit_range_mask_def shl_def mask_eq_exp_minus_1)
  then show ?thesis using assms by (auto simp: bit_push_bit_iff bit_mask_iff)
qed

text \<open>The full range is the exception: the shift by 64 is a shift by 0, and the mask comes out empty.\<close>

lemma bit_range_mask_full: "bit_range_mask 0 63 = 0"
  by (simp add: bit_range_mask_def shl_def)

lemma phys_virt_inverse: "VIRT_TO_PHYS (PHYS_TO_VIRT p) = p" "PHYS_TO_VIRT (VIRT_TO_PHYS v) = v"
  by (simp_all add: VIRT_TO_PHYS_def PHYS_TO_VIRT_def)

lemma abs32_value: "x \<noteq> 0x80000000 \<Longrightarrow> sint (abs32 x) = \<bar>sint x\<bar>"
proof -
  assume "x \<noteq> 0x80000000"
  then have "sint x \<noteq> sint (0x80000000 :: u32)" using signed_word_eqI by blast
  moreover have "- (2 ^ 31) \<le> sint x" "sint x < 2 ^ 31" using sint_range_size[of x] by (simp_all add: word_size)
  ultimately have "- (2 ^ 31) < sint x" "sint x < 2 ^ 31" by (simp_all add: order_le_less)
  then have "signed_take_bit 31 (- sint x) = - sint x" by (intro signed_take_bit_int_eq_self) auto
  then show ?thesis by (simp add: abs32_def sint_word_ariths)
qed

end
