(* ===== verification/Gos_Vmm.thy ===== *)
theory Gos_Vmm
  imports Gos_Pmm Gos_Math
begin

text \<open>
  The virtual memory manager, \<^verbatim>\<open>mm/vmm/vmm.c\<close> and \<^verbatim>\<open>mm/vmm/vmm_map.c\<close>: four-level page
  tables. Table memory is the map from (direct-map) addresses to 64-bit entries; all
  accesses of the code are aligned entry accesses. The processor state the code touches
  is \<open>cr3\<close> and the cache of leaf translations \<open>tlb\<close>, keyed by virtual page number.
  The out-of-memory stop of \<^verbatim>\<open>vmm_get_or_create_table\<close> is the fault \<open>Halted\<close>.
\<close>

section \<open>Paging constants of \<^verbatim>\<open>include/gOS/kernel.h\<close>\<close>

abbreviation PAGE_SIZE :: u64 where "PAGE_SIZE \<equiv> 4096"
abbreviation PAGE_PRESENT :: u64 where "PAGE_PRESENT \<equiv> 0x1"
abbreviation PAGE_WRITABLE :: u64 where "PAGE_WRITABLE \<equiv> 0x2"
abbreviation PAGE_USER :: u64 where "PAGE_USER \<equiv> 0x4"
abbreviation PAGE_GLOBAL :: u64 where "PAGE_GLOBAL \<equiv> 0x100"
abbreviation PAGE_NX :: u64 where "PAGE_NX \<equiv> 0x8000000000000000"

section \<open>State\<close>

record vmm =
  vmm_pmm :: pmm
  ptmem :: "u64 \<Rightarrow> u64"
  g_vmm_kernel_pml4 :: u64
  cr3 :: u64
  tlb :: "u64 \<Rightarrow> u64 option"

definition entry_at :: "u64 \<Rightarrow> u64 \<Rightarrow> u64" where
  "entry_at table index = table + 8 * index"

definition vpn :: "u64 \<Rightarrow> u64" where
  "vpn virt = drop_bit 12 virt AND 0xFFFFFFFFF"

text \<open>\<^verbatim>\<open>write_cr3\<close> drops the cached translations that are not global; \<^verbatim>\<open>invlpg\<close> drops one page.\<close>

definition write_cr3 :: "u64 \<Rightarrow> vmm \<Rightarrow> vmm" where
  "write_cr3 val st = st\<lparr>cr3 := val,
     tlb := (\<lambda>p. case tlb st p of Some e \<Rightarrow> if e AND PAGE_GLOBAL \<noteq> 0 then Some e else None | None \<Rightarrow> None)\<rparr>"

definition vmm_invalidate_page :: "u64 \<Rightarrow> vmm \<Rightarrow> vmm" where
  "vmm_invalidate_page virt st = st\<lparr>tlb := (tlb st)(vpn virt := None)\<rparr>"

definition vmm_invalidate_all :: "vmm \<Rightarrow> vmm" where
  "vmm_invalidate_all st = write_cr3 (cr3 st) st"

section \<open>Operations of \<^verbatim>\<open>vmm.c\<close>\<close>

definition vmm_virt_to_index :: "u64 \<Rightarrow> nat \<Rightarrow> u64" where
  "vmm_virt_to_index virt level = (let shift = 12 + level * 9 in drop_bit shift virt AND 0x1FF)"

definition vmm_get_or_create_table :: "u64 \<Rightarrow> u64 \<Rightarrow> u64 \<Rightarrow> vmm \<Rightarrow> (u64 \<times> vmm) res" where
  "vmm_get_or_create_table parent index flags st =
     (let e = ptmem st (entry_at parent index) in
      if e AND PAGE_PRESENT \<noteq> 0 then Inr ((e AND NOT 0xFFF) + KERNEL_VBASE64, st)
      else case pmm_alloc_page (vmm_pmm st) of (page, pmm') \<Rightarrow>
        if page = 0 then Inl Halted
        else let mem = (ptmem st)(entry_at parent index := of_nat page OR flags);
                 table = of_nat page + KERNEL_VBASE64;
                 mem = fold (\<lambda>i m. m(entry_at table (of_nat i) := 0)) [0..<512] mem
             in Inr (table, st\<lparr>vmm_pmm := pmm', ptmem := mem\<rparr>))"

definition vmm_map_page :: "u64 \<Rightarrow> u64 \<Rightarrow> u64 \<Rightarrow> vmm \<Rightarrow> vmm res" where
  "vmm_map_page virt phys flags st =
     (if g_vmm_kernel_pml4 st = 0 then Inr st
      else let pml4i = vmm_virt_to_index virt 3;
               pdpti = vmm_virt_to_index virt 2;
               pdi = vmm_virt_to_index virt 1;
               pti = vmm_virt_to_index virt 0
        in case vmm_get_or_create_table (g_vmm_kernel_pml4 st) pml4i (PAGE_PRESENT OR PAGE_WRITABLE) st of
             Inl f \<Rightarrow> Inl f
           | Inr (pdpt, st) \<Rightarrow>
        case vmm_get_or_create_table pdpt pdpti (PAGE_PRESENT OR PAGE_WRITABLE) st of
             Inl f \<Rightarrow> Inl f
           | Inr (pd, st) \<Rightarrow>
        case vmm_get_or_create_table pd pdi (PAGE_PRESENT OR PAGE_WRITABLE) st of
             Inl f \<Rightarrow> Inl f
           | Inr (pt, st) \<Rightarrow>
             let st = st\<lparr>ptmem := (ptmem st)(entry_at pt pti :=
                          ((phys AND NOT 0xFFF) OR (flags AND 0xFFF)) OR PAGE_PRESENT)\<rparr>
             in Inr (vmm_invalidate_page virt st))"

text \<open>The pointer \<^verbatim>\<open>vmm_get_pte\<close> returns, 0 for \<^verbatim>\<open>NULL\<close>.\<close>

definition vmm_get_pte :: "u64 \<Rightarrow> vmm \<Rightarrow> u64" where
  "vmm_get_pte virt st =
     (if g_vmm_kernel_pml4 st = 0 then 0
      else let pml4i = vmm_virt_to_index virt 3;
               e3 = ptmem st (entry_at (g_vmm_kernel_pml4 st) pml4i)
        in if e3 AND PAGE_PRESENT = 0 then 0
      else let pdpt = (e3 AND NOT 0xFFF) + KERNEL_VBASE64;
               pdpti = vmm_virt_to_index virt 2;
               e2 = ptmem st (entry_at pdpt pdpti)
        in if e2 AND PAGE_PRESENT = 0 then 0
      else let pd = (e2 AND NOT 0xFFF) + KERNEL_VBASE64;
               pdi = vmm_virt_to_index virt 1;
               e1 = ptmem st (entry_at pd pdi)
        in if e1 AND PAGE_PRESENT = 0 then 0
      else let pt = (e1 AND NOT 0xFFF) + KERNEL_VBASE64;
               pti = vmm_virt_to_index virt 0
        in entry_at pt pti)"

definition vmm_unmap_page :: "u64 \<Rightarrow> vmm \<Rightarrow> vmm" where
  "vmm_unmap_page virt st =
     (if g_vmm_kernel_pml4 st = 0 then st
      else let pte = vmm_get_pte virt st in
        if pte \<noteq> 0 \<and> ptmem st pte AND PAGE_PRESENT \<noteq> 0
        then vmm_invalidate_page virt (st\<lparr>ptmem := (ptmem st)(pte := 0)\<rparr>)
        else st)"

definition vmm_is_mapped :: "u64 \<Rightarrow> vmm \<Rightarrow> bool" where
  "vmm_is_mapped virt st =
     (let pte = vmm_get_pte virt st in pte \<noteq> 0 \<and> ptmem st pte AND PAGE_PRESENT \<noteq> 0)"

definition vmm_get_phys :: "u64 \<Rightarrow> vmm \<Rightarrow> u64" where
  "vmm_get_phys virt st =
     (let pte = vmm_get_pte virt st in
      if pte = 0 \<or> ptmem st pte AND PAGE_PRESENT = 0 then 0
      else (ptmem st pte AND NOT 0xFFF) OR (virt AND 0xFFF))"

definition vmm_get_pml4 :: "vmm \<Rightarrow> u64" where
  "vmm_get_pml4 st = g_vmm_kernel_pml4 st"

definition vmm_switch_pml4 :: "u64 \<Rightarrow> vmm \<Rightarrow> vmm" where
  "vmm_switch_pml4 pml4 st = write_cr3 (VIRT_TO_PHYS pml4) st"

section \<open>Operations of \<^verbatim>\<open>vmm_map.c\<close>\<close>

definition vmm_map_range :: "u64 \<Rightarrow> u64 \<Rightarrow> nat \<Rightarrow> u64 \<Rightarrow> vmm \<Rightarrow> vmm res" where
  "vmm_map_range virt phys count flags st =
     res_fold (\<lambda>i st. vmm_map_page (virt + of_nat i * PAGE_SIZE) (phys + of_nat i * PAGE_SIZE) flags st)
       [0..<count] st"

definition vmm_unmap_range :: "u64 \<Rightarrow> nat \<Rightarrow> vmm \<Rightarrow> vmm" where
  "vmm_unmap_range virt count st =
     fold (\<lambda>i st. vmm_unmap_page (virt + of_nat i * PAGE_SIZE) st) [0..<count] st"

text \<open>
  The three loops \<^verbatim>\<open>for (addr = start; addr < end; addr += PAGE_SIZE)\<close>. With \<^verbatim>\<open>end\<close> page
  aligned the addition cannot step over \<^verbatim>\<open>end\<close>, so the loop visits the addresses
  \<open>start + k * PAGE_SIZE\<close> below \<^verbatim>\<open>end\<close>; both bounds are aligned by the callers.
\<close>

definition page_addrs :: "u64 \<Rightarrow> u64 \<Rightarrow> u64 list" where
  "page_addrs start stop =
     map (\<lambda>k. start + of_nat k * PAGE_SIZE) [0..<(unat stop - unat start + 4095) div 4096]"

definition vmm_map_identity :: "u64 \<Rightarrow> u64 \<Rightarrow> u64 \<Rightarrow> vmm \<Rightarrow> vmm res" where
  "vmm_map_identity start stop flags st =
     (let start = align_down start PAGE_SIZE; stop = align_up stop PAGE_SIZE
      in res_fold (\<lambda>addr st. vmm_map_page addr addr flags st) (page_addrs start stop) st)"

definition vmm_map_kernel_text :: "u64 \<Rightarrow> u64 \<Rightarrow> vmm \<Rightarrow> vmm res" where
  "vmm_map_kernel_text start etext st =
     (let start = align_down start PAGE_SIZE; stop = align_up etext PAGE_SIZE
      in res_fold (\<lambda>addr st. vmm_map_page addr (addr - KERNEL_VBASE64) (PAGE_PRESENT OR PAGE_NX) st)
           (page_addrs start stop) st)"

definition vmm_map_kernel_data :: "u64 \<Rightarrow> u64 \<Rightarrow> vmm \<Rightarrow> vmm res" where
  "vmm_map_kernel_data edata stop st =
     (let start = align_down edata PAGE_SIZE; stop = align_up stop PAGE_SIZE
      in res_fold (\<lambda>addr st. vmm_map_page addr (addr - KERNEL_VBASE64) (PAGE_PRESENT OR PAGE_WRITABLE) st)
           (page_addrs start stop) st)"

definition vmm_protect_page :: "u64 \<Rightarrow> u64 \<Rightarrow> vmm \<Rightarrow> (bool \<times> vmm) res" where
  "vmm_protect_page virt new_flags st =
     (let phys = vmm_get_phys virt st in
      if phys = 0 then Inr (False, st)
      else res_bind (vmm_map_page virt phys new_flags (vmm_unmap_page virt st)) (\<lambda>st. Inr (True, st)))"

definition vmm_init :: "vmm \<Rightarrow> vmm res" where
  "vmm_init st =
     (case pmm_alloc_page (vmm_pmm st) of (page, pmm') \<Rightarrow>
        let pml4 = of_nat page + KERNEL_VBASE64;
            st = st\<lparr>vmm_pmm := pmm', g_vmm_kernel_pml4 := pml4,
                    ptmem := fold (\<lambda>i m. m(entry_at pml4 (of_nat i) := 0)) [0..<512] (ptmem st)\<rparr>
        in res_bind (vmm_map_range 0 0 0x40000 (PAGE_PRESENT OR PAGE_WRITABLE) st)
             (\<lambda>st. res_bind (vmm_map_range KERNEL_VBASE64 0 0x40000 (PAGE_PRESENT OR PAGE_WRITABLE) st)
               (\<lambda>st. Inr (vmm_switch_pml4 (g_vmm_kernel_pml4 st) st))))"

section \<open>Entry arithmetic\<close>

definition table_of :: "nat \<Rightarrow> u64" where
  "table_of pg = of_nat (pg * PMM_PAGE_SIZE) + KERNEL_VBASE64"

lemma unat_lt_512: "(i::u64) < 512 \<Longrightarrow> unat i < 512"
  by (simp add: word_less_nat_alt)

lemma entry_at_inj:
  assumes "pg < 65536" "pg' < 65536" "i < 512" "j < 512"
    and "entry_at (table_of pg) i = entry_at (table_of pg') j"
  shows "pg = pg' \<and> i = j"
proof -
  have n: "(of_nat (pg * PMM_PAGE_SIZE) :: u64) + 8 * i = of_nat (pg * PMM_PAGE_SIZE + 8 * unat i)" for pg i
    by simp
  have ii: "unat i < 512" "unat j < 512" using assms unat_lt_512 by auto
  from assms(5) have "(of_nat (pg * PMM_PAGE_SIZE) :: u64) + 8 * i = of_nat (pg' * PMM_PAGE_SIZE) + 8 * j"
    by (simp add: entry_at_def table_of_def algebra_simps)
  then have "(of_nat (pg * PMM_PAGE_SIZE + 8 * unat i) :: u64) = of_nat (pg' * PMM_PAGE_SIZE + 8 * unat j)"
    unfolding n .
  then have e: "pg * PMM_PAGE_SIZE + 8 * unat i = pg' * PMM_PAGE_SIZE + 8 * unat j"
    using assms(1,2) ii by (subst (asm) word_of_nat_eq_iff) (simp add: take_bit_nat_eq_self)
  then have "(pg * PMM_PAGE_SIZE + 8 * unat i) div PMM_PAGE_SIZE = (pg' * PMM_PAGE_SIZE + 8 * unat j) div PMM_PAGE_SIZE"
    by simp
  then have "pg = pg'" using ii by (subst (asm) (1 2) div_mult_self3) simp_all
  then show ?thesis using e by (simp add: word_unat_eq_iff)
qed

lemma table_of_inj: "pg < 65536 \<Longrightarrow> pg' < 65536 \<Longrightarrow> table_of pg = table_of pg' \<Longrightarrow> pg = pg'"
  using entry_at_inj[of pg pg' 0 0] by simp

lemma table_of_nonzero:
  assumes "pg < 65536" shows "table_of pg \<noteq> 0" "entry_at (table_of pg) i \<noteq> 0 \<or> \<not> i < 512"
proof -
  have "entry_at (table_of pg) i \<noteq> 0" if "i < 512" for i
  proof
    assume "entry_at (table_of pg) i = 0"
    then have "(of_nat (pg * PMM_PAGE_SIZE + 8 * unat i) :: u64) = - KERNEL_VBASE64"
      by (simp add: entry_at_def table_of_def eq_neg_iff_add_eq_0 add_ac)
    then have "unat (of_nat (pg * PMM_PAGE_SIZE + 8 * unat i) :: u64) = unat (- KERNEL_VBASE64)" by simp
    moreover have "unat (of_nat (pg * PMM_PAGE_SIZE + 8 * unat i) :: u64) = pg * PMM_PAGE_SIZE + 8 * unat i"
      using assms unat_lt_512[OF that] by (subst unat_of_nat) simp
    moreover have "unat (- KERNEL_VBASE64) = 0x80000000" by simp
    ultimately show False using assms unat_lt_512[OF that] by simp
  qed
  from this this[of 0] show "table_of pg \<noteq> 0" "entry_at (table_of pg) i \<noteq> 0 \<or> \<not> i < 512"
    by (auto simp: entry_at_def)
qed

lemma table_entry_decode:
  "((of_nat (pg * PMM_PAGE_SIZE) OR (PAGE_PRESENT OR PAGE_WRITABLE)) AND NOT 0xFFF) + KERNEL_VBASE64 = table_of pg"
proof -
  have a: "(of_nat (pg * PMM_PAGE_SIZE) :: u64) = push_bit 12 (of_nat pg)"
    by (simp add: push_bit_eq_mult mult.commute)
  have m: "(0xFFF :: u64) = mask 12" "(PAGE_PRESENT OR PAGE_WRITABLE) = (mask 2 :: u64)" by (simp_all add: mask_eq_exp_minus_1)
  have "(of_nat (pg * PMM_PAGE_SIZE) OR (PAGE_PRESENT OR PAGE_WRITABLE)) AND NOT 0xFFF
      = (of_nat (pg * PMM_PAGE_SIZE) :: u64)"
    unfolding a m by (rule bit_word_eqI) (auto simp: bit_simps simp del: mask_numeral)
  then show ?thesis by (simp add: table_of_def)
qed

lemma table_entry_present:
  "(of_nat (pg * PMM_PAGE_SIZE) OR (PAGE_PRESENT OR PAGE_WRITABLE)) AND PAGE_PRESENT \<noteq> 0"
proof -
  have "bit ((of_nat (pg * PMM_PAGE_SIZE) OR (PAGE_PRESENT OR PAGE_WRITABLE)) AND PAGE_PRESENT) 0"
    by (simp add: bit_simps)
  then show ?thesis by force
qed

lemma vmm_virt_to_index_lt: "vmm_virt_to_index virt l < 512"
proof -
  have "vmm_virt_to_index virt l \<le> 0x1FF" by (simp add: vmm_virt_to_index_def word_and_le1)
  also have "(0x1FF::u64) < 512" by simp
  finally show ?thesis .
qed

section \<open>Walks\<close>

fun walk :: "(u64 \<Rightarrow> u64) \<Rightarrow> u64 \<Rightarrow> u64 list \<Rightarrow> u64 option" where
  "walk m t [] = Some t"
| "walk m t (i # is) =
     (if m (entry_at t i) AND PAGE_PRESENT \<noteq> 0
      then walk m ((m (entry_at t i) AND NOT 0xFFF) + KERNEL_VBASE64) is else None)"

lemma walk_append: "walk m t (p @ q) = Option.bind (walk m t p) (\<lambda>s. walk m s q)"
  by (induction p arbitrary: t) auto

text \<open>The table paths: at most three indices, each below 512.\<close>

definition paths :: "u64 list set" where
  "paths = {p. length p \<le> 3 \<and> set p \<subseteq> {..<512}}"

lemma paths_prefix: "p @ q \<in> paths \<Longrightarrow> p \<in> paths"
  by (simp add: paths_def)

lemma finite_paths: "finite paths"
proof -
  have "paths = {p. set p \<subseteq> {..<512} \<and> length p \<le> 3}" by (auto simp: paths_def)
  then show ?thesis using finite_lists_length_le[of "{..<512::u64}" 3] by simp
qed

text \<open>
  Well-formed page tables: every reachable table is a page the allocator counts as
  used, and two paths never share a table.
\<close>

definition pt_wf :: "vmm \<Rightarrow> bool" where
  "pt_wf st \<longleftrightarrow> pmm_inv 256 65536 (vmm_pmm st) \<and>
     (\<forall>p \<in> paths. \<forall>t. walk (ptmem st) (g_vmm_kernel_pml4 st) p = Some t \<longrightarrow>
        (\<exists>pg \<in> pmm_used (vmm_pmm st). t = table_of pg)) \<and>
     (\<forall>p \<in> paths. \<forall>q \<in> paths. \<forall>t. walk (ptmem st) (g_vmm_kernel_pml4 st) p = Some t \<longrightarrow>
        walk (ptmem st) (g_vmm_kernel_pml4 st) q = Some t \<longrightarrow> p = q)"

text \<open>The entry a full path selects in the last-level table; 0 when a table is missing.\<close>

definition leaf :: "vmm \<Rightarrow> u64 list \<Rightarrow> u64 \<Rightarrow> u64" where
  "leaf st p i = (case walk (ptmem st) (g_vmm_kernel_pml4 st) p of Some t \<Rightarrow> ptmem st (entry_at t i) | None \<Rightarrow> 0)"

lemma pmm_used_bound: "pg \<in> pmm_used st \<Longrightarrow> pg < 65536"
  by (simp add: pmm_used_def)

lemma pt_wf_table:
  assumes "pt_wf st" "p \<in> paths" "walk (ptmem st) (g_vmm_kernel_pml4 st) p = Some t"
  obtains pg where "pg \<in> pmm_used (vmm_pmm st)" "pg < 65536" "t = table_of pg"
  using assms pmm_used_bound unfolding pt_wf_def by blast

lemma pt_wf_same_entry:
  assumes wf: "pt_wf st" and "p \<in> paths" "q \<in> paths"
    and "walk (ptmem st) (g_vmm_kernel_pml4 st) p = Some s" "walk (ptmem st) (g_vmm_kernel_pml4 st) q = Some t"
    and "i < 512" "j < 512" "entry_at s i = entry_at t j"
  shows "p = q \<and> i = j"
proof -
  obtain a b where "a < 65536" "s = table_of a" "b < 65536" "t = table_of b"
    using pt_wf_table[OF wf assms(2,4)] pt_wf_table[OF wf assms(3,5)] by metis
  with entry_at_inj[of a b i j] assms(6-8) have "s = t" "i = j" by auto
  with wf assms(2-5) show ?thesis unfolding pt_wf_def by blast
qed

lemma walk_write:
  assumes "\<And>q i r s. p = q @ i # r \<Longrightarrow> walk m t q = Some s \<Longrightarrow> entry_at s i \<notin> A"
    and "\<And>x. x \<notin> A \<Longrightarrow> m' x = m x"
  shows "walk m' t p = walk m t p"
  using assms(1)
proof (induction p arbitrary: t)
  case (Cons i p)
  have "m' (entry_at t i) = m (entry_at t i)" using Cons.prems[of "[]" i p t] assms(2) by simp
  moreover have "walk m' ((m (entry_at t i) AND NOT 0xFFF) + KERNEL_VBASE64) p
      = walk m ((m (entry_at t i) AND NOT 0xFFF) + KERNEL_VBASE64) p"
    if "m (entry_at t i) AND PAGE_PRESENT \<noteq> 0"
    using that by (intro Cons.IH) (use Cons.prems[of "i # _"] in auto)
  ultimately show ?case by simp
qed simp

section \<open>Creating a table\<close>

abbreviation root_walk :: "vmm \<Rightarrow> u64 list \<Rightarrow> u64 option" where
  "root_walk st \<equiv> walk (ptmem st) (g_vmm_kernel_pml4 st)"

definition table_paths :: "vmm \<Rightarrow> u64 list set" where
  "table_paths st = {p \<in> paths. root_walk st p \<noteq> None}"

lemma finite_table_paths: "finite (table_paths st)"
  using finite_paths by (simp add: table_paths_def)

lemma zero_table:
  "fold (\<lambda>i m. m(entry_at t (of_nat i) := 0)) [0..<n] m x
     = (if \<exists>i<n. x = entry_at t (of_nat i) then 0 else m x)"
  by (induction n) (auto simp: less_Suc_eq)

lemma zero_table_512:
  "fold (\<lambda>i m. m(entry_at t (of_nat i) := 0)) [0..<512] m x
     = (if \<exists>i<512. x = entry_at t i then 0 else m x)"
proof -
  have "(\<exists>i<512. x = entry_at t (of_nat i)) \<longleftrightarrow> (\<exists>i<512. x = entry_at t i)"
  proof
    assume "\<exists>i<512. x = entry_at t (of_nat i)"
    then obtain i where i: "i < (512::nat)" "x = entry_at t (of_nat i)" by blast
    then have "(of_nat i :: u64) < 512" by (simp add: word_less_nat_alt unat_of_nat)
    then show "\<exists>i<512. x = entry_at t i" using i by blast
  next
    assume "\<exists>i<512. x = entry_at t i"
    then obtain i where "i < 512" "x = entry_at t i" by blast
    then show "\<exists>i<512. x = entry_at t (of_nat i)"
      using unat_lt_512[of i] by (intro exI[of _ "unat i"]) simp
  qed
  then show ?thesis by (simp only: zero_table)
qed

text \<open>
  The state after a fresh page has become the table below entry \<open>i\<close> of table \<open>t\<close>.
\<close>

definition add_table :: "u64 \<Rightarrow> u64 \<Rightarrow> nat \<Rightarrow> pmm \<Rightarrow> vmm \<Rightarrow> vmm" where
  "add_table t i pg pmm' st = st\<lparr>vmm_pmm := pmm',
     ptmem := fold (\<lambda>i m. m(entry_at (table_of pg) (of_nat i) := 0)) [0..<512]
       ((ptmem st)(entry_at t i := of_nat (pg * PMM_PAGE_SIZE) OR (PAGE_PRESENT OR PAGE_WRITABLE)))\<rparr>"

lemma add_table_simps [simp]:
  "g_vmm_kernel_pml4 (add_table t i pg pmm' st) = g_vmm_kernel_pml4 st"
  "vmm_pmm (add_table t i pg pmm' st) = pmm'"
  "tlb (add_table t i pg pmm' st) = tlb st" "cr3 (add_table t i pg pmm' st) = cr3 st"
  by (simp_all add: add_table_def)

lemma add_table_mem:
  assumes wf: "pt_wf st" and p: "p \<in> paths" "root_walk st p = Some t" and i: "i < 512"
    and fresh: "pg < 65536" "pg \<notin> pmm_used (vmm_pmm st)"
  shows add_table_new: "j < 512 \<Longrightarrow> ptmem (add_table t i pg pmm' st) (entry_at (table_of pg) j) = 0"
    and add_table_entry: "ptmem (add_table t i pg pmm' st) (entry_at t i)
        = of_nat (pg * PMM_PAGE_SIZE) OR (PAGE_PRESENT OR PAGE_WRITABLE)"
    and add_table_other: "q \<in> paths \<Longrightarrow> root_walk st q = Some s \<Longrightarrow> j < 512 \<Longrightarrow> q @ [j] \<noteq> p @ [i] \<Longrightarrow>
        ptmem (add_table t i pg pmm' st) (entry_at s j) = ptmem st (entry_at s j)"
proof -
  obtain tp where tp: "tp \<in> pmm_used (vmm_pmm st)" "tp < 65536" "t = table_of tp"
    using pt_wf_table[OF wf p] by metis
  show "j < 512 \<Longrightarrow> ptmem (add_table t i pg pmm' st) (entry_at (table_of pg) j) = 0"
    by (auto simp: add_table_def zero_table_512)
  have "\<not> (\<exists>k<512. entry_at t i = entry_at (table_of pg) k)"
    using entry_at_inj[OF tp(2) fresh(1) i] tp fresh by blast
  then show "ptmem (add_table t i pg pmm' st) (entry_at t i)
      = of_nat (pg * PMM_PAGE_SIZE) OR (PAGE_PRESENT OR PAGE_WRITABLE)"
    by (auto simp: add_table_def zero_table_512)
  assume q: "q \<in> paths" "root_walk st q = Some s" "j < 512" "q @ [j] \<noteq> p @ [i]"
  obtain sp where sp: "sp \<in> pmm_used (vmm_pmm st)" "sp < 65536" "s = table_of sp"
    using pt_wf_table[OF wf q(1,2)] by metis
  have "entry_at s j \<noteq> entry_at t i"
    using pt_wf_same_entry[OF wf q(1) p(1) q(2) p(2) q(3) i] q(4) by auto
  moreover have "\<not> (\<exists>k<512. entry_at s j = entry_at (table_of pg) k)"
    using entry_at_inj[OF sp(2) fresh(1) q(3)] sp fresh by blast
  ultimately show "ptmem (add_table t i pg pmm' st) (entry_at s j) = ptmem st (entry_at s j)"
    by (auto simp: add_table_def zero_table_512)
qed

text \<open>The new table hangs at \<open>p @ [i]\<close>; every other table path is walked as before.\<close>

lemma add_table_walk:
  assumes wf: "pt_wf st" and p: "p \<in> paths" "root_walk st p = Some t" and i: "i < 512"
    and absent: "root_walk st (p @ [i]) = None"
    and fresh: "pg < 65536" "pg \<notin> pmm_used (vmm_pmm st)"
    and q: "q \<in> paths"
  shows "root_walk (add_table t i pg pmm' st) q = (if q = p @ [i] then Some (table_of pg) else root_walk st q)"
proof -
  let ?m = "ptmem st" and ?r = "g_vmm_kernel_pml4 st" and ?m' = "ptmem (add_table t i pg pmm' st)"
  note M = add_table_mem[OF wf p i fresh]
  have base: "walk ?m' ?r u = walk ?m ?r u" if "u \<in> paths" and no: "\<And>r. u \<noteq> p @ i # r" for u
  proof (rule walk_write[where A = "{x. ?m' x \<noteq> ?m x}"])
    fix v j w s assume u: "u = v @ j # w" "walk ?m ?r v = Some s"
    have "v \<in> paths" "j < 512" using that(1) u by (auto simp: paths_def)
    moreover have "v @ [j] \<noteq> p @ [i]" using no[of w] u by auto
    ultimately show "entry_at s j \<notin> {x. ?m' x \<noteq> ?m x}" using M(3)[of v s j] u(2) by simp
  qed simp
  show ?thesis
  proof (cases "\<exists>r. q = p @ i # r")
    case False
    then show ?thesis using base[OF q] by auto
  next
    case True
    then obtain r where r: "q = p @ i # r" by blast
    have "walk ?m' ?r p = Some t" using base[OF p(1)] p(2) by simp
    then have "walk ?m' ?r q = walk ?m' (table_of pg) r"
      unfolding r walk_append using M(2) table_entry_decode table_entry_present by simp
    moreover have "walk ?m ?r q = None"
      using absent walk_append[of ?m ?r "p @ [i]" r] by (simp add: r)
    moreover have "walk ?m' (table_of pg) r = (if r = [] then Some (table_of pg) else None)"
    proof (cases r)
      case (Cons j w)
      then have "j < 512" using q r by (simp add: paths_def)
      then show ?thesis using Cons M(1) by simp
    qed simp
    ultimately show ?thesis using r by simp
  qed
qed

lemma add_table_leaf:
  assumes wf: "pt_wf st" and p: "p \<in> paths" "root_walk st p = Some t" "length p < 3" and i: "i < 512"
    and absent: "root_walk st (p @ [i]) = None"
    and fresh: "pg < 65536" "pg \<notin> pmm_used (vmm_pmm st)"
    and q: "q \<in> paths" "length q = 3" "j < 512"
  shows "leaf (add_table t i pg pmm' st) q j = leaf st q j"
proof (cases "q = p @ [i]")
  case True
  then show ?thesis
    using add_table_walk[OF wf p(1,2) i absent fresh q(1)] add_table_mem(1)[OF wf p(1,2) i fresh q(3)] absent
    by (simp add: leaf_def)
next
  case False
  have "q @ [j] \<noteq> p @ [i]" using p(3) q(2) by auto
  then show ?thesis
    using add_table_walk[OF wf p(1,2) i absent fresh q(1), of pmm'] False
      add_table_mem(3)[OF wf p(1,2) i fresh q(1) _ q(3)]
    by (simp add: leaf_def split: option.splits)
qed

lemma add_table_wf:
  assumes wf: "pt_wf st" and p: "p \<in> paths" "root_walk st p = Some t" and i: "i < 512"
    and absent: "root_walk st (p @ [i]) = None"
    and fresh: "pg < 65536" "pg \<notin> pmm_used (vmm_pmm st)"
    and pmm': "pmm_inv 256 65536 pmm'" "pmm_used pmm' = insert pg (pmm_used (vmm_pmm st))"
  shows "pt_wf (add_table t i pg pmm' st)"
proof -
  note W = add_table_walk[OF wf p i absent fresh, of _ pmm']
  have new: "root_walk st q \<noteq> Some (table_of pg)" if "q \<in> paths" for q
  proof
    assume "root_walk st q = Some (table_of pg)"
    from pt_wf_table[OF wf that this] obtain a where "a \<in> pmm_used (vmm_pmm st)" "a < 65536" "table_of pg = table_of a"
      by metis
    then show False using table_of_inj[OF fresh(1), of a] fresh(2) by auto
  qed
  show ?thesis
    unfolding pt_wf_def
  proof (intro conjI ballI allI impI)
    show "pmm_inv 256 65536 (vmm_pmm (add_table t i pg pmm' st))" using pmm'(1) by simp
    fix q u assume q: "q \<in> paths" "root_walk (add_table t i pg pmm' st) q = Some u"
    have "\<exists>a \<in> pmm_used (vmm_pmm st). u = table_of a" if "root_walk st q = Some u"
      using pt_wf_table[OF wf q(1) that] by metis
    then show "\<exists>a \<in> pmm_used (vmm_pmm (add_table t i pg pmm' st)). u = table_of a"
      using q W[OF q(1)] pmm'(2) by (auto split: if_splits)
  next
    fix q q' u
    assume q: "q \<in> paths" "q' \<in> paths" "root_walk (add_table t i pg pmm' st) q = Some u"
      "root_walk (add_table t i pg pmm' st) q' = Some u"
    have "root_walk st q = Some u \<Longrightarrow> root_walk st q' = Some u \<Longrightarrow> q = q'"
      using wf q(1,2) unfolding pt_wf_def by blast
    then show "q = q'"
      using q W[OF q(1)] W[OF q(2)] new[OF q(1)] new[OF q(2)] by (auto split: if_splits)
  qed
qed

lemma get_or_create:
  assumes wf: "pt_wf st" and p: "p \<in> paths" "length p < 3" "root_walk st p = Some t" and i: "i < 512"
    and av: "root_walk st (p @ [i]) = None \<Longrightarrow> 0 < pmm_avail (vmm_pmm st)"
  obtains u st' where "vmm_get_or_create_table t i (PAGE_PRESENT OR PAGE_WRITABLE) st = Inr (u, st')"
    "pt_wf st'" "root_walk st' (p @ [i]) = Some u" "g_vmm_kernel_pml4 st' = g_vmm_kernel_pml4 st"
    "tlb st' = tlb st" "cr3 st' = cr3 st"
    "\<And>q j. q \<in> paths \<Longrightarrow> length q = 3 \<Longrightarrow> j < 512 \<Longrightarrow> leaf st' q j = leaf st q j"
    "table_paths st' = insert (p @ [i]) (table_paths st)"
    "pmm_avail (vmm_pmm st') + card (table_paths st') = pmm_avail (vmm_pmm st) + card (table_paths st)"
proof (cases "ptmem st (entry_at t i) AND PAGE_PRESENT \<noteq> 0")
  case True
  let ?u = "(ptmem st (entry_at t i) AND NOT 0xFFF) + KERNEL_VBASE64"
  have w: "root_walk st (p @ [i]) = Some ?u" unfolding walk_append using p(3) True by simp
  have "p @ [i] \<in> table_paths st" using p i w by (auto simp: table_paths_def paths_def)
  then show ?thesis using that[of ?u st] True wf w
    by (simp add: vmm_get_or_create_table_def insert_absorb)
next
  case False
  let ?q = "p @ [i]"
  have w: "root_walk st ?q = None" unfolding walk_append using p(3) False by simp
  have qp: "?q \<in> paths" using p i by (auto simp: paths_def)
  have inv: "pmm_inv 256 65536 (vmm_pmm st)" using wf by (simp add: pt_wf_def)
  obtain pg pmm' where al: "pmm_alloc_page (vmm_pmm st) = (pg * PMM_PAGE_SIZE, pmm')" "pg * PMM_PAGE_SIZE \<noteq> 0"
      "256 \<le> pg" "pg < 65536" "pg \<notin> pmm_used (vmm_pmm st)" "pmm_used pmm' = insert pg (pmm_used (vmm_pmm st))"
      "pmm_inv 256 65536 pmm'" "Suc (pmm_avail pmm') = pmm_avail (vmm_pmm st)"
    using pp.alloc_succeeds[OF inv av[OF w]] by metis
  let ?st' = "add_table t i pg pmm' st"
  have r: "vmm_get_or_create_table t i (PAGE_PRESENT OR PAGE_WRITABLE) st = Inr (table_of pg, ?st')"
    using False al(1,2) by (simp add: vmm_get_or_create_table_def add_table_def table_of_def Let_def)
  note W = add_table_walk[OF wf p(1,3) i w al(4,5), of _ pmm']
  have tps: "table_paths ?st' = insert ?q (table_paths st)" using qp W by (auto simp: table_paths_def)
  moreover have "?q \<notin> table_paths st" using w by (simp add: table_paths_def)
  ultimately have "pmm_avail (vmm_pmm ?st') + card (table_paths ?st') = pmm_avail (vmm_pmm st) + card (table_paths st)"
    using al(8) finite_table_paths[of st] by simp
  then show ?thesis
    using that[OF r add_table_wf[OF wf p(1,3) i w al(4,5,7,6)]] W[OF qp] tps
      add_table_leaf[OF wf p(1,3,2) i w al(4,5)] by simp
qed

section \<open>Mapping and unmapping refine an abstract address space\<close>

text \<open>
  The abstract address space maps the nine-bit indices of an address to the entry
  that translates it.
\<close>

definition vpath :: "u64 \<Rightarrow> u64 list" where
  "vpath virt = [vmm_virt_to_index virt 3, vmm_virt_to_index virt 2, vmm_virt_to_index virt 1]"

abbreviation pti :: "u64 \<Rightarrow> u64" where
  "pti virt \<equiv> vmm_virt_to_index virt 0"

definition vmm_abs :: "vmm \<Rightarrow> u64 list \<times> u64 \<Rightarrow> u64 option" where
  "vmm_abs st = (\<lambda>(p, i). let e = leaf st p i in if e AND PAGE_PRESENT \<noteq> 0 then Some e else None)"

definition vkey :: "u64 \<Rightarrow> u64 list \<times> u64" where
  "vkey virt = (vpath virt, pti virt)"

definition pte_of :: "u64 \<Rightarrow> u64 \<Rightarrow> u64" where
  "pte_of phys flags = ((phys AND NOT 0xFFF) OR (flags AND 0xFFF)) OR PAGE_PRESENT"

lemma vpath_paths: "vpath virt \<in> paths" "length (vpath virt) = 3"
  by (auto simp: vpath_def paths_def vmm_virt_to_index_lt)

lemma vmm_get_pte_walk:
  "g_vmm_kernel_pml4 st \<noteq> 0 \<Longrightarrow>
     vmm_get_pte virt st = (case root_walk st (vpath virt) of None \<Rightarrow> 0 | Some pt \<Rightarrow> entry_at pt (pti virt))"
  by (simp add: vmm_get_pte_def vpath_def Let_def)

text \<open>The well-formed states with a root table.\<close>

definition vmm_wf :: "vmm \<Rightarrow> bool" where
  "vmm_wf st \<longleftrightarrow> pt_wf st \<and> g_vmm_kernel_pml4 st \<noteq> 0"

lemma get_pte_entry:
  assumes "vmm_wf st" "root_walk st (vpath virt) = Some pt"
  shows "vmm_get_pte virt st = entry_at pt (pti virt)" "entry_at pt (pti virt) \<noteq> 0"
proof -
  show "vmm_get_pte virt st = entry_at pt (pti virt)"
    using assms vmm_get_pte_walk[of st virt] by (simp add: vmm_wf_def)
  obtain pg where "pg < 65536" "pt = table_of pg"
    using pt_wf_table[of st "vpath virt" pt] assms vpath_paths by (auto simp: vmm_wf_def)
  then show "entry_at pt (pti virt) \<noteq> 0"
    using table_of_nonzero(2)[of pg "pti virt"] vmm_virt_to_index_lt by auto
qed

lemma vmm_lookup:
  assumes "vmm_wf st"
  shows "vmm_is_mapped virt st \<longleftrightarrow> vmm_abs st (vkey virt) \<noteq> None"
    "vmm_get_phys virt st = (case vmm_abs st (vkey virt) of
       None \<Rightarrow> 0 | Some e \<Rightarrow> (e AND NOT 0xFFF) OR (virt AND 0xFFF))"
proof -
  have "(vmm_is_mapped virt st \<longleftrightarrow> vmm_abs st (vkey virt) \<noteq> None) \<and>
    vmm_get_phys virt st = (case vmm_abs st (vkey virt) of
       None \<Rightarrow> 0 | Some e \<Rightarrow> (e AND NOT 0xFFF) OR (virt AND 0xFFF))"
  proof (cases "root_walk st (vpath virt)")
    case None
    then show ?thesis using assms vmm_get_pte_walk[of st virt]
      by (simp add: vmm_wf_def vmm_is_mapped_def vmm_get_phys_def vmm_abs_def vkey_def leaf_def Let_def)
  next
    case (Some pt)
    note g = get_pte_entry[OF assms Some]
    show ?thesis using g Some
      by (simp add: vmm_is_mapped_def vmm_get_phys_def vmm_abs_def vkey_def leaf_def Let_def)
  qed
  then show "vmm_is_mapped virt st \<longleftrightarrow> vmm_abs st (vkey virt) \<noteq> None"
    "vmm_get_phys virt st = (case vmm_abs st (vkey virt) of
       None \<Rightarrow> 0 | Some e \<Rightarrow> (e AND NOT 0xFFF) OR (virt AND 0xFFF))" by auto
qed

text \<open>Writing an entry of a last-level table changes one translation and no table.\<close>

lemma leaf_write:
  fixes e :: u64
  assumes wf: "vmm_wf st" and w: "root_walk st p = Some pt" and p: "p \<in> paths" "length p = 3" and i: "i < 512"
  defines "st' \<equiv> st\<lparr>ptmem := (ptmem st)(entry_at pt i := e)\<rparr>"
  shows "vmm_wf st'" "table_paths st' = table_paths st"
    "\<And>q j. q \<in> paths \<Longrightarrow> length q = 3 \<Longrightarrow> j < 512 \<Longrightarrow> leaf st' q j = (if q = p \<and> j = i then e else leaf st q j)"
    "\<And>q. q \<in> paths \<Longrightarrow> root_walk st' q = root_walk st q"
proof -
  have ptw: "pt_wf st" using wf by (simp add: vmm_wf_def)
  have f: "vmm_pmm st' = vmm_pmm st" "g_vmm_kernel_pml4 st' = g_vmm_kernel_pml4 st"
    by (simp_all add: st'_def)
  have W: "root_walk st' q = root_walk st q" if q: "q \<in> paths" for q
    unfolding f
  proof (rule walk_write[where A = "{entry_at pt i}"])
    fix v j r s assume u: "q = v @ j # r" "root_walk st v = Some s"
    then have "v \<in> paths" "j < 512" "length v < 3" using q by (auto simp: paths_def)
    then show "entry_at s j \<notin> {entry_at pt i}"
      using pt_wf_same_entry[OF ptw _ p(1) u(2) w _ i] p(2) by auto
  qed (simp add: st'_def)
  show "root_walk st' q = root_walk st q" if "q \<in> paths" for q by (rule W[OF that])
  show "vmm_wf st'" using wf W unfolding vmm_wf_def pt_wf_def f by auto
  show "table_paths st' = table_paths st" using W by (auto simp: table_paths_def)
  fix q :: "u64 list" and j :: u64
  assume q: "q \<in> paths" "length q = 3" "j < 512"
  show "leaf st' q j = (if q = p \<and> j = i then e else leaf st q j)"
  proof (cases "root_walk st q")
    case None then show ?thesis using W[OF q(1)] w by (auto simp: leaf_def)
  next
    case (Some t)
    then have "entry_at t j = entry_at pt i \<longleftrightarrow> q = p \<and> j = i"
      using pt_wf_same_entry[OF ptw q(1) p(1) Some w q(3) i] w by auto
    then show ?thesis using W[OF q(1)] Some by (auto simp: leaf_def st'_def)
  qed
qed

lemma bit_index: "bit (vmm_virt_to_index v l) n \<longleftrightarrow> n < 9 \<and> bit v (12 + l * 9 + n)"
proof -
  have m: "(0x1FF :: u64) = mask 9" by (simp add: mask_eq_exp_minus_1)
  show ?thesis unfolding vmm_virt_to_index_def Let_def m
    by (auto simp: bit_simps simp del: mask_numeral dest: bit_imp_le_length)
qed

lemma bit_vpn: "bit (vpn v) n \<longleftrightarrow> n < 36 \<and> bit v (12 + n)"
proof -
  have m: "(0xFFFFFFFFF :: u64) = mask 36" by (simp add: mask_eq_exp_minus_1)
  show ?thesis unfolding vpn_def m
    by (auto simp: bit_simps simp del: mask_numeral dest: bit_imp_le_length)
qed

lemma vkey_eq_iff: "vkey v = vkey w \<longleftrightarrow> vpn v = vpn w"
proof
  assume "vkey v = vkey w"
  then have l: "vmm_virt_to_index v l = vmm_virt_to_index w l" if "l \<in> {0, 1, 2, 3}" for l
    using that by (auto simp: vkey_def vpath_def)
  have b: "bit v (12 + l * 9 + n) = bit w (12 + l * 9 + n)" if "l \<in> {0, 1, 2, 3}" "n < 9" for l n
    using l[OF that(1)] that(2) bit_index[of v l n] bit_index[of w l n] by simp
  show "vpn v = vpn w"
  proof (rule bit_word_eqI)
    fix n assume "n < LENGTH(64)"
    have "bit v (12 + n) = bit w (12 + n)" if "n < 36"
    proof -
      have "n div 9 \<in> {0, 1, 2, 3}" using that by auto
      from b[OF this, of "n mod 9"] show ?thesis by (simp add: add.assoc)
    qed
    then show "bit (vpn v) n = bit (vpn w) n" by (auto simp: bit_vpn)
  qed
next
  assume e: "vpn v = vpn w"
  have b: "bit v (12 + n) = bit w (12 + n)" if "n < 36" for n
    using e that bit_vpn[of v n] bit_vpn[of w n] by simp
  have "vmm_virt_to_index v l = vmm_virt_to_index w l" if "l \<le> 3" for l
  proof (rule bit_word_eqI)
    fix n assume "n < LENGTH(64)"
    show "bit (vmm_virt_to_index v l) n = bit (vmm_virt_to_index w l) n"
      using b[of "l * 9 + n"] that by (auto simp: bit_index add.assoc)
  qed
  then show "vkey v = vkey w" by (simp add: vkey_def vpath_def)
qed

definition tlb_coherent :: "vmm \<Rightarrow> bool" where
  "tlb_coherent st \<longleftrightarrow> (\<forall>virt e. tlb st (vpn virt) = Some e \<longrightarrow> vmm_abs st (vkey virt) = Some e)"

lemma vmm_abs_vkey: "vmm_abs st (vkey v) = (let e = leaf st (vpath v) (pti v) in if e AND PAGE_PRESENT \<noteq> 0 then Some e else None)"
  by (simp add: vmm_abs_def vkey_def)

lemma pte_of_present: "pte_of phys flags AND PAGE_PRESENT \<noteq> 0"
proof -
  have "bit (pte_of phys flags AND PAGE_PRESENT) 0" by (simp add: pte_of_def bit_simps)
  then show ?thesis by force
qed

lemma invalidate_simps [simp]:
  "ptmem (vmm_invalidate_page v st) = ptmem st" "vmm_pmm (vmm_invalidate_page v st) = vmm_pmm st"
  "g_vmm_kernel_pml4 (vmm_invalidate_page v st) = g_vmm_kernel_pml4 st" "cr3 (vmm_invalidate_page v st) = cr3 st"
  "tlb (vmm_invalidate_page v st) = (tlb st)(vpn v := None)"
  by (simp_all add: vmm_invalidate_page_def)

lemma invalidate_tables [simp]:
  "leaf (vmm_invalidate_page v st) = leaf st" "table_paths (vmm_invalidate_page v st) = table_paths st"
  "vmm_wf (vmm_invalidate_page v st) = vmm_wf st" "vmm_abs (vmm_invalidate_page v st) = vmm_abs st"
  by (simp_all add: fun_eq_iff leaf_def table_paths_def vmm_wf_def pt_wf_def vmm_abs_def cong: option.case_cong)

text \<open>
  How many tables a mapping may still need: if the tables of the address and all present
  ones lie in a set no larger than what is present or can be allocated, the call succeeds.
\<close>

definition vprefixes :: "u64 \<Rightarrow> u64 list set" where
  "vprefixes v = {take 1 (vpath v), take 2 (vpath v), vpath v}"

lemma avail_pos:
  assumes "finite S" "table_paths st \<subseteq> S" "q \<in> S" "q \<notin> table_paths st"
    and "card S \<le> pmm_avail (vmm_pmm st) + card (table_paths st)"
  shows "0 < pmm_avail (vmm_pmm st)"
proof -
  have "card (table_paths st) < card S" using assms by (intro psubset_card_mono) auto
  then show ?thesis using assms(5) by linarith
qed

text \<open>What a successful mapping does to the state.\<close>

definition map_effect :: "u64 \<Rightarrow> u64 \<Rightarrow> u64 \<Rightarrow> vmm \<Rightarrow> vmm \<Rightarrow> bool" where
  "map_effect v phys flags st st' \<longleftrightarrow> vmm_wf st' \<and>
    g_vmm_kernel_pml4 st' = g_vmm_kernel_pml4 st \<and> cr3 st' = cr3 st \<and> tlb st' = (tlb st)(vpn v := None) \<and>
    table_paths st' = table_paths st \<union> vprefixes v \<and>
    pmm_avail (vmm_pmm st') + card (table_paths st') = pmm_avail (vmm_pmm st) + card (table_paths st) \<and>
    (\<forall>q \<in> paths. \<forall>j < 512. length q = 3 \<longrightarrow>
       leaf st' q j = (if (q, j) = vkey v then pte_of phys flags else leaf st q j))"

lemma map_page_ok:
  assumes wf: "vmm_wf st"
    and S: "finite S" "table_paths st \<subseteq> S" "vprefixes v \<subseteq> S"
      "card S \<le> pmm_avail (vmm_pmm st) + card (table_paths st)"
  shows "\<exists>st'. vmm_map_page v phys flags st = Inr st' \<and> map_effect v phys flags st st'"
proof -
  let ?i3 = "vmm_virt_to_index v 3" and ?i2 = "vmm_virt_to_index v 2" and ?i1 = "vmm_virt_to_index v 1"
  have i: "?i3 < 512" "?i2 < 512" "?i1 < 512" "pti v < 512" by (simp_all add: vmm_virt_to_index_lt)
  have P: "[] \<in> paths" "[?i3] \<in> paths" "[?i3, ?i2] \<in> paths" "[?i3, ?i2, ?i1] \<in> paths"
    using i by (auto simp: paths_def)
  have V: "vprefixes v = {[?i3], [?i3, ?i2], [?i3, ?i2, ?i1]}" by (auto simp: vprefixes_def vpath_def)
  have wf0: "pt_wf st" and nz: "g_vmm_kernel_pml4 st \<noteq> 0" using wf by (auto simp: vmm_wf_def)
  have need: "0 < pmm_avail (vmm_pmm s)"
    if "root_walk s q = None" "table_paths s \<subseteq> S" "q \<in> S"
      "pmm_avail (vmm_pmm s) + card (table_paths s) = pmm_avail (vmm_pmm st) + card (table_paths st)" for s q
    using avail_pos[OF S(1) that(2,3)] that S(4) by (simp add: table_paths_def)
  have a1: "root_walk st ([] @ [?i3]) = None \<Longrightarrow> 0 < pmm_avail (vmm_pmm st)"
    using need[of st "[?i3]"] S V by auto
  obtain t1 s1 where 1: "vmm_get_or_create_table (g_vmm_kernel_pml4 st) ?i3 (PAGE_PRESENT OR PAGE_WRITABLE) st = Inr (t1, s1)"
    "pt_wf s1" "root_walk s1 ([] @ [?i3]) = Some t1" "g_vmm_kernel_pml4 s1 = g_vmm_kernel_pml4 st" "tlb s1 = tlb st" "cr3 s1 = cr3 st"
    "\<And>q j. q \<in> paths \<Longrightarrow> length q = 3 \<Longrightarrow> j < 512 \<Longrightarrow> leaf s1 q j = leaf st q j"
    "table_paths s1 = insert ([] @ [?i3]) (table_paths st)"
    "pmm_avail (vmm_pmm s1) + card (table_paths s1) = pmm_avail (vmm_pmm st) + card (table_paths st)"
    using get_or_create[OF wf0 P(1) _ _ i(1) a1] by auto
  have a2: "root_walk s1 ([?i3] @ [?i2]) = None \<Longrightarrow> 0 < pmm_avail (vmm_pmm s1)"
    using need[of s1 "[?i3, ?i2]"] S V 1(8,9) by auto
  obtain t2 s2 where 2: "vmm_get_or_create_table t1 ?i2 (PAGE_PRESENT OR PAGE_WRITABLE) s1 = Inr (t2, s2)"
    "pt_wf s2" "root_walk s2 ([?i3] @ [?i2]) = Some t2" "g_vmm_kernel_pml4 s2 = g_vmm_kernel_pml4 s1" "tlb s2 = tlb s1" "cr3 s2 = cr3 s1"
    "\<And>q j. q \<in> paths \<Longrightarrow> length q = 3 \<Longrightarrow> j < 512 \<Longrightarrow> leaf s2 q j = leaf s1 q j"
    "table_paths s2 = insert ([?i3] @ [?i2]) (table_paths s1)"
    "pmm_avail (vmm_pmm s2) + card (table_paths s2) = pmm_avail (vmm_pmm s1) + card (table_paths s1)"
    using get_or_create[OF 1(2) P(2) _ _ i(2) a2] 1(3) by auto
  have a3: "root_walk s2 ([?i3, ?i2] @ [?i1]) = None \<Longrightarrow> 0 < pmm_avail (vmm_pmm s2)"
    using need[of s2 "[?i3, ?i2, ?i1]"] S V 1(8,9) 2(8,9) by auto
  obtain t3 s3 where 3: "vmm_get_or_create_table t2 ?i1 (PAGE_PRESENT OR PAGE_WRITABLE) s2 = Inr (t3, s3)"
    "pt_wf s3" "root_walk s3 ([?i3, ?i2] @ [?i1]) = Some t3" "g_vmm_kernel_pml4 s3 = g_vmm_kernel_pml4 s2" "tlb s3 = tlb s2" "cr3 s3 = cr3 s2"
    "\<And>q j. q \<in> paths \<Longrightarrow> length q = 3 \<Longrightarrow> j < 512 \<Longrightarrow> leaf s3 q j = leaf s2 q j"
    "table_paths s3 = insert ([?i3, ?i2] @ [?i1]) (table_paths s2)"
    "pmm_avail (vmm_pmm s3) + card (table_paths s3) = pmm_avail (vmm_pmm s2) + card (table_paths s2)"
    using get_or_create[OF 2(2) P(3) _ _ i(3) a3] 2(3) by auto
  have wf3: "vmm_wf s3" using 3(2,4) 2(4) 1(4) nz by (simp add: vmm_wf_def)
  have w3: "root_walk s3 (vpath v) = Some t3" using 3(3) by (simp add: vpath_def)
  let ?s4 = "s3\<lparr>ptmem := (ptmem s3)(entry_at t3 (pti v) := pte_of phys flags)\<rparr>"
  note lw = leaf_write[OF wf3 w3 vpath_paths i(4), where e = "pte_of phys flags"]
  have r: "vmm_map_page v phys flags st = Inr (vmm_invalidate_page v ?s4)"
    using nz 1(1) 2(1) 3(1) by (simp add: vmm_map_page_def Let_def pte_of_def)
  have "map_effect v phys flags st (vmm_invalidate_page v ?s4)"
    unfolding map_effect_def
  proof (intro conjI ballI allI impI)
    show "vmm_wf (vmm_invalidate_page v ?s4)" using lw(1) by simp
    show "table_paths (vmm_invalidate_page v ?s4) = table_paths st \<union> vprefixes v"
      using lw(2) 1(8) 2(8) 3(8) V by auto
    show "pmm_avail (vmm_pmm (vmm_invalidate_page v ?s4)) + card (table_paths (vmm_invalidate_page v ?s4))
        = pmm_avail (vmm_pmm st) + card (table_paths st)"
      using lw(2) 1(9) 2(9) 3(9) by simp
    fix q :: "u64 list" and j :: u64 assume q: "q \<in> paths" "j < 512" "length q = 3"
    show "leaf (vmm_invalidate_page v ?s4) q j = (if (q, j) = vkey v then pte_of phys flags else leaf st q j)"
      using lw(3)[OF q(1,3,2)] 1(7)[OF q(1,3,2)] 2(7)[OF q(1,3,2)] 3(7)[OF q(1,3,2)] by (simp add: vkey_def)
  qed (use 1 2 3 in simp_all)
  with r show ?thesis by blast
qed

text \<open>
  On canonical keys the abstract state after a call: \<open>vmm_map_page\<close> is a function update.
\<close>

lemma vkey_path: "fst (vkey v) \<in> paths" "length (fst (vkey v)) = 3" "snd (vkey v) < 512"
  using vpath_paths vmm_virt_to_index_lt by (auto simp: vkey_def)

lemma map_effect_abs:
  assumes "map_effect v phys flags st st'"
  shows "vmm_abs st' (vkey w) = (if vpn w = vpn v then Some (pte_of phys flags) else vmm_abs st (vkey w))"
proof -
  have "leaf st' (fst (vkey w)) (snd (vkey w)) = (if vkey w = vkey v then pte_of phys flags
      else leaf st (fst (vkey w)) (snd (vkey w)))"
    using assms vkey_path[of w] by (simp add: map_effect_def)
  then show ?thesis using pte_of_present[of phys flags] vkey_eq_iff[of w v]
    by (simp add: vmm_abs_def split_beta)
qed

lemma unmap_page_abs:
  assumes wf: "vmm_wf st"
  shows "vmm_wf (vmm_unmap_page v st)"
    "vmm_abs (vmm_unmap_page v st) (vkey w) = (if vpn w = vpn v then None else vmm_abs st (vkey w))"
    "tlb (vmm_unmap_page v st) = (if vmm_abs st (vkey v) = None then tlb st else (tlb st)(vpn v := None))"
    "vmm_pmm (vmm_unmap_page v st) = vmm_pmm st"
    "g_vmm_kernel_pml4 (vmm_unmap_page v st) = g_vmm_kernel_pml4 st"
proof -
  have nz: "g_vmm_kernel_pml4 st \<noteq> 0" using wf by (simp add: vmm_wf_def)
  have m: "vmm_is_mapped v st \<longleftrightarrow> vmm_abs st (vkey v) \<noteq> None" by (rule vmm_lookup(1)[OF wf])
  have "vmm_wf (vmm_unmap_page v st) \<and>
    vmm_abs (vmm_unmap_page v st) (vkey w) = (if vpn w = vpn v then None else vmm_abs st (vkey w)) \<and>
    tlb (vmm_unmap_page v st) = (if vmm_abs st (vkey v) = None then tlb st else (tlb st)(vpn v := None)) \<and>
    vmm_pmm (vmm_unmap_page v st) = vmm_pmm st \<and>
    g_vmm_kernel_pml4 (vmm_unmap_page v st) = g_vmm_kernel_pml4 st"
  proof (cases "vmm_is_mapped v st")
    case False
    then have e: "vmm_unmap_page v st = st" by (auto simp: vmm_unmap_page_def vmm_is_mapped_def Let_def)
    show ?thesis unfolding e using False m wf vkey_eq_iff[of w v] by auto
  next
    case True
    then obtain pt where w3: "root_walk st (vpath v) = Some pt"
      using m by (auto simp: vmm_abs_def vkey_def leaf_def split: option.splits)
    note g = get_pte_entry[OF wf w3]
    have i: "pti v < 512" by (rule vmm_virt_to_index_lt)
    note lw = leaf_write[OF wf w3 vpath_paths i, where e = 0]
    have e: "vmm_unmap_page v st = vmm_invalidate_page v (st\<lparr>ptmem := (ptmem st)(entry_at pt (pti v) := 0)\<rparr>)"
      using True nz g by (simp add: vmm_unmap_page_def vmm_is_mapped_def Let_def)
    have "vmm_abs (vmm_unmap_page v st) (vkey w) = (if vpn w = vpn v then None else vmm_abs st (vkey w))"
      using lw(3)[OF vkey_path[of w]] vkey_eq_iff[of w v] unfolding e by (auto simp: vmm_abs_def vkey_def)
    then show ?thesis using lw(1) True m unfolding e by auto
  qed
  then show "vmm_wf (vmm_unmap_page v st)"
    "vmm_abs (vmm_unmap_page v st) (vkey w) = (if vpn w = vpn v then None else vmm_abs st (vkey w))"
    "tlb (vmm_unmap_page v st) = (if vmm_abs st (vkey v) = None then tlb st else (tlb st)(vpn v := None))"
    "vmm_pmm (vmm_unmap_page v st) = vmm_pmm st"
    "g_vmm_kernel_pml4 (vmm_unmap_page v st) = g_vmm_kernel_pml4 st"
    by blast+
qed

lemma vprefixes_paths: "vprefixes v \<subseteq> paths" "finite (vprefixes v)" "card (vprefixes v) \<le> 3"
proof -
  show "vprefixes v \<subseteq> paths"
    using vpath_paths[of v] by (auto simp: vprefixes_def paths_def dest: in_set_takeD)
  show "finite (vprefixes v)" "card (vprefixes v) \<le> 3" by (simp_all add: vprefixes_def card_insert_if)
qed

lemma map_page_three:
  assumes "vmm_wf st" "3 \<le> pmm_avail (vmm_pmm st)"
  shows "\<exists>st'. vmm_map_page v phys flags st = Inr st' \<and> map_effect v phys flags st st' \<and>
    pmm_avail (vmm_pmm st) \<le> pmm_avail (vmm_pmm st') + 3"
proof -
  let ?S = "table_paths st \<union> vprefixes v"
  have c: "card ?S \<le> card (table_paths st) + 3"
    using card_Un_le[of "table_paths st" "vprefixes v"] vprefixes_paths(3)[of v] by linarith
  have fin: "finite ?S" using finite_table_paths vprefixes_paths(2) by blast
  have "card ?S \<le> pmm_avail (vmm_pmm st) + card (table_paths st)" using c assms(2) by linarith
  from map_page_ok[OF assms(1) fin Un_upper1 Un_upper2 this] obtain st' where
    s: "vmm_map_page v phys flags st = Inr st'" "map_effect v phys flags st st'" by blast
  moreover have "pmm_avail (vmm_pmm st) \<le> pmm_avail (vmm_pmm st') + 3"
  proof -
    have "table_paths st' = ?S"
      "pmm_avail (vmm_pmm st') + card (table_paths st') = pmm_avail (vmm_pmm st) + card (table_paths st)"
      using s(2) unfolding map_effect_def by blast+
    then show ?thesis using c by simp
  qed
  ultimately show ?thesis by blast
qed

section \<open>Ranges and the initial address space\<close>

lemma unat_index: "unat (vmm_virt_to_index v l) = (unat v div 2 ^ (12 + l * 9)) mod 512"
proof -
  have m: "(0x1FF :: u64) = mask 9" by (simp add: mask_eq_exp_minus_1)
  show ?thesis unfolding vmm_virt_to_index_def Let_def m take_bit_eq_mask [symmetric] unsigned_take_bit_eq unat_drop_bit_eq
    by (simp add: drop_bit_eq_div take_bit_eq_mod)
qed

lemma unat_vpn: "unat (vpn v) = (unat v div 4096) mod 2 ^ 36"
proof -
  have m: "(0xFFFFFFFFF :: u64) = mask 36" by (simp add: mask_eq_exp_minus_1)
  show ?thesis unfolding vpn_def m take_bit_eq_mask [symmetric] unsigned_take_bit_eq unat_drop_bit_eq
    by (simp add: drop_bit_eq_div take_bit_eq_mod)
qed

lemma unat_page_addr:
  "unat (virt + of_nat k * PAGE_SIZE) = (unat virt + k * 4096) mod 2 ^ 64"
proof -
  have "virt + of_nat k * PAGE_SIZE = of_nat (unat virt + k * 4096)" by simp
  then show ?thesis by (simp only: unat_of_nat) simp
qed

lemma vpn_page_addr:
  assumes "unat virt mod 4096 = 0"
  shows "unat (vpn (virt + of_nat k * PAGE_SIZE)) = (unat virt div 4096 + k) mod 2 ^ 36"
proof -
  let ?c = "unat virt div 4096"
  have v: "unat virt = ?c * 4096" using assms by auto
  have "(unat virt + k * 4096) mod 2 ^ 64 = ((?c + k) * 4096) mod (2 ^ 52 * 4096)"
    using v by (simp add: distrib_right)
  also have "\<dots> = ((?c + k) mod 2 ^ 52) * 4096" by (simp only: mult_mod_left)
  finally have "unat (virt + of_nat k * PAGE_SIZE) div 4096 = (?c + k) mod 2 ^ 52"
    by (simp add: unat_page_addr)
  moreover have "(2::nat) ^ 36 dvd 2 ^ 52" by (simp add: le_imp_power_dvd)
  ultimately show ?thesis by (simp only: unat_vpn mod_mod_cancel)
qed

lemma mod_add_left_inj:
  fixes c k l m :: nat
  assumes "(c + k) mod m = (c + l) mod m" "k < m" "l < m"
  shows "k = l"
proof -
  have le: "k = l" if "(c + k) mod m = (c + l) mod m" "k < m" "l < m" "k \<le> l" for k l
  proof -
    have "m dvd (c + l) - (c + k)" using that mod_eq_dvd_iff_nat[of "c + k" "c + l" m] by simp
    then show ?thesis using that by (auto dest: dvd_imp_le)
  qed
  show ?thesis using le[of k l] le[of l k] assms by linarith
qed

lemma vpn_page_addr_inj:
  assumes "unat virt mod 4096 = 0" "k < 2 ^ 36" "l < 2 ^ 36"
  shows "vpn (virt + of_nat k * PAGE_SIZE) = vpn (virt + of_nat l * PAGE_SIZE) \<longleftrightarrow> k = l"
  using mod_add_left_inj[of "unat virt div 4096" k "2 ^ 36" l] assms(2,3)
    vpn_page_addr[OF assms(1), of k] vpn_page_addr[OF assms(1), of l] by auto

text \<open>
  Mapping a range: with room for the tables it needs, the call succeeds; page \<open>k\<close> of the
  range is translated to page \<open>k\<close> of the physical range, other translations are kept.
\<close>

lemma map_range_ok:
  assumes wf: "vmm_wf st" and al: "unat virt mod 4096 = 0" "n \<le> 2 ^ 36"
    and S: "finite S" "table_paths st \<subseteq> S" "\<And>k. k < n \<Longrightarrow> vprefixes (virt + of_nat k * PAGE_SIZE) \<subseteq> S"
      "card S \<le> pmm_avail (vmm_pmm st) + card (table_paths st)"
  shows "\<exists>st'. vmm_map_range virt phys n flags st = Inr st' \<and> vmm_wf st' \<and>
    g_vmm_kernel_pml4 st' = g_vmm_kernel_pml4 st \<and> table_paths st' \<subseteq> S \<and>
    pmm_avail (vmm_pmm st') + card (table_paths st') = pmm_avail (vmm_pmm st) + card (table_paths st) \<and>
    (\<forall>k<n. vmm_abs st' (vkey (virt + of_nat k * PAGE_SIZE)) = Some (pte_of (phys + of_nat k * PAGE_SIZE) flags)) \<and>
    (\<forall>w. (\<forall>k<n. vpn w \<noteq> vpn (virt + of_nat k * PAGE_SIZE)) \<longrightarrow> vmm_abs st' (vkey w) = vmm_abs st (vkey w))"
  unfolding vmm_map_range_def
proof (rule res_fold_upt_inv)
  show "vmm_wf st \<and> g_vmm_kernel_pml4 st = g_vmm_kernel_pml4 st \<and> table_paths st \<subseteq> S \<and>
    pmm_avail (vmm_pmm st) + card (table_paths st) = pmm_avail (vmm_pmm st) + card (table_paths st) \<and>
    (\<forall>k<0. vmm_abs st (vkey (virt + of_nat k * PAGE_SIZE)) = Some (pte_of (phys + of_nat k * PAGE_SIZE) flags)) \<and>
    (\<forall>w. (\<forall>k<0. vpn w \<noteq> vpn (virt + of_nat k * PAGE_SIZE)) \<longrightarrow> vmm_abs st (vkey w) = vmm_abs st (vkey w))"
    using wf S(2) by simp
next
  let ?v = "\<lambda>k. virt + of_nat k * PAGE_SIZE"
  fix i s assume i: "i < n" and P: "vmm_wf s \<and> g_vmm_kernel_pml4 s = g_vmm_kernel_pml4 st \<and> table_paths s \<subseteq> S \<and>
    pmm_avail (vmm_pmm s) + card (table_paths s) = pmm_avail (vmm_pmm st) + card (table_paths st) \<and>
    (\<forall>k<i. vmm_abs s (vkey (?v k)) = Some (pte_of (phys + of_nat k * PAGE_SIZE) flags)) \<and>
    (\<forall>w. (\<forall>k<i. vpn w \<noteq> vpn (?v k)) \<longrightarrow> vmm_abs s (vkey w) = vmm_abs st (vkey w))"
  then have "card S \<le> pmm_avail (vmm_pmm s) + card (table_paths s)" using S(4) by simp
  with map_page_ok[of s S "?v i" "phys + of_nat i * PAGE_SIZE" flags] P S(1) S(3)[OF i]
  obtain s' where m: "vmm_map_page (?v i) (phys + of_nat i * PAGE_SIZE) flags s = Inr s'"
    "map_effect (?v i) (phys + of_nat i * PAGE_SIZE) flags s s'" by blast
  note e = map_effect_abs[OF m(2)]
  have t: "table_paths s' = table_paths s \<union> vprefixes (?v i)" "vmm_wf s'"
    "g_vmm_kernel_pml4 s' = g_vmm_kernel_pml4 s"
    "pmm_avail (vmm_pmm s') + card (table_paths s') = pmm_avail (vmm_pmm s) + card (table_paths s)"
    using m(2) unfolding map_effect_def by blast+
  have k: "vmm_abs s' (vkey (?v k)) = Some (pte_of (phys + of_nat k * PAGE_SIZE) flags)" if "k < Suc i" for k
  proof -
    have "vpn (?v k) = vpn (?v i) \<longleftrightarrow> k = i" using vpn_page_addr_inj[OF al(1), of k i] that i al(2) by simp
    then show ?thesis using e[of "?v k"] P that by (auto simp: less_Suc_eq)
  qed
  have o: "vmm_abs s' (vkey w) = vmm_abs st (vkey w)" if "\<forall>k<Suc i. vpn w \<noteq> vpn (?v k)" for w
    using e[of w] P that by simp
  have "vmm_wf s' \<and> g_vmm_kernel_pml4 s' = g_vmm_kernel_pml4 st \<and> table_paths s' \<subseteq> S \<and>
    pmm_avail (vmm_pmm s') + card (table_paths s') = pmm_avail (vmm_pmm st) + card (table_paths st) \<and>
    (\<forall>k<Suc i. vmm_abs s' (vkey (?v k)) = Some (pte_of (phys + of_nat k * PAGE_SIZE) flags)) \<and>
    (\<forall>w. (\<forall>k<Suc i. vpn w \<noteq> vpn (?v k)) \<longrightarrow> vmm_abs s' (vkey w) = vmm_abs st (vkey w))"
    using t P S(3)[OF i] k o by auto
  with m(1) show "\<exists>s'. vmm_map_page (?v i) (phys + of_nat i * PAGE_SIZE) flags s = Inr s' \<and>
    vmm_wf s' \<and> g_vmm_kernel_pml4 s' = g_vmm_kernel_pml4 st \<and> table_paths s' \<subseteq> S \<and>
    pmm_avail (vmm_pmm s') + card (table_paths s') = pmm_avail (vmm_pmm st) + card (table_paths st) \<and>
    (\<forall>k<Suc i. vmm_abs s' (vkey (?v k)) = Some (pte_of (phys + of_nat k * PAGE_SIZE) flags)) \<and>
    (\<forall>w. (\<forall>k<Suc i. vpn w \<noteq> vpn (?v k)) \<longrightarrow> vmm_abs s' (vkey w) = vmm_abs st (vkey w))"
    by blast
qed

lemma page_base: "of_nat (unat a div 4096) * PAGE_SIZE = a AND NOT 0xFFF" for a :: u64
proof -
  have m: "(0xFFF :: u64) = mask 12" by (simp add: mask_eq_exp_minus_1)
  have "(of_nat (unat a div 4096) :: u64) = drop_bit 12 a"
    using word_arith_nat_div[of a 4096] by (simp add: drop_bit_eq_div)
  then have "of_nat (unat a div 4096) * PAGE_SIZE = push_bit 12 (drop_bit 12 a)"
    by (simp add: push_bit_eq_mult)
  also have "\<dots> = a AND NOT 0xFFF" unfolding m
    by (rule bit_word_eqI) (auto simp: bit_simps simp del: mask_numeral)
  finally show ?thesis .
qed

lemma pte_of_base: "pte_of phys flags AND NOT 0xFFF = phys AND NOT 0xFFF"
proof -
  have m: "(0xFFF :: u64) = mask 12" by (simp add: mask_eq_exp_minus_1)
  show ?thesis unfolding pte_of_def m
    by (rule bit_word_eqI) (auto simp: bit_simps simp del: mask_numeral)
qed

lemma base_or_offset: "((a AND NOT 0xFFF) AND NOT 0xFFF) OR (a AND 0xFFF) = (a :: u64)"
  by (rule bit_word_eqI) (auto simp: bit_simps)

lemma offset_kernel: "(KERNEL_VBASE64 + a) AND 0xFFF = a AND 0xFFF"
proof -
  have u: "unat (x AND 0xFFF) = unat x mod 4096" for x :: u64
  proof -
    have m: "(0xFFF :: u64) = mask 12" by (simp add: mask_eq_exp_minus_1)
    show ?thesis unfolding m take_bit_eq_mask [symmetric] unsigned_take_bit_eq by (simp add: take_bit_eq_mod)
  qed
  have "unat (KERNEL_VBASE64 + a) = (0xFFFFFFFF80000000 + unat a) mod 2 ^ 64" by (simp add: unat_word_ariths)
  moreover have "(4096::nat) dvd 2 ^ 64" by simp
  ultimately have "unat (KERNEL_VBASE64 + a) mod 4096 = (0xFFFFFFFF80000000 + unat a) mod 4096"
    by (simp only: mod_mod_cancel)
  also have "\<dots> = unat a mod 4096"
    using mod_mult_self3[of "0xFFFFFFFF80000" 4096 "unat a"] by simp
  finally show ?thesis by (simp only: word_unat_eq_iff u)
qed

lemma unat_less_2p30: "a < 0x40000000 \<Longrightarrow> unat a < 0x40000000" for a :: u64
  by (simp add: word_less_nat_alt)

lemma vpn_low: "a < 0x40000000 \<Longrightarrow> vpn a = vpn (0 + of_nat (unat a div 4096) * PAGE_SIZE)"
  using vpn_page_addr[of 0 "unat a div 4096"] by (simp add: word_unat_eq_iff unat_vpn)

lemma vpn_high:
  assumes "a < 0x40000000"
  shows "vpn (KERNEL_VBASE64 + a) = vpn (KERNEL_VBASE64 + of_nat (unat a div 4096) * PAGE_SIZE)"
proof -
  have "unat (KERNEL_VBASE64 + a) = 0xFFFFFFFF80000000 + unat a"
    using unat_less_2p30[OF assms] by (subst unat_plus_simple[THEN iffD1]) (auto simp: no_olen_add_nat)
  then have "unat (KERNEL_VBASE64 + a) div 4096 = 0xFFFFFFFF80000000 div 4096 + unat a div 4096" by simp
  then show ?thesis using vpn_page_addr[of KERNEL_VBASE64 "unat a div 4096"]
    by (simp add: word_unat_eq_iff unat_vpn)
qed

definition boot_tables :: "u64 list set" where
  "boot_tables = {[], [0], [0, 0], [511], [511, 510]} \<union> (\<lambda>j. [0, 0, j]) ` {..<512} \<union> (\<lambda>j. [511, 510, j]) ` {..<512}"

lemma finite_lt_512: "finite {..<512::u64}" "card {..<512::u64} = 512"
proof -
  have "{..<512::u64} = of_nat ` {..<512}"
  proof (rule set_eqI)
    fix x :: u64
    show "x \<in> {..<512} \<longleftrightarrow> x \<in> of_nat ` {..<512}"
      using unat_lt_512[of x] by (auto simp: word_less_nat_alt unat_of_nat intro!: image_eqI[of _ _ "unat x"])
  qed
  moreover have "inj_on (of_nat :: nat \<Rightarrow> u64) {..<512}"
    by (auto simp: inj_on_def word_of_nat_eq_iff take_bit_nat_eq_self)
  ultimately show "finite {..<512::u64}" "card {..<512::u64} = 512" by (simp_all add: card_image)
qed

lemma boot_tables_card: "finite boot_tables" "card boot_tables \<le> 1029"
proof -
  show "finite boot_tables" using finite_lt_512 by (simp add: boot_tables_def)
  have "card boot_tables \<le> card {[], [0], [0, 0], [511], [511, 510::u64]} + card ((\<lambda>j. [0, 0, j]) ` {..<512::u64})
      + card ((\<lambda>j. [511, 510, j]) ` {..<512::u64})"
    unfolding boot_tables_def by (intro order_trans[OF card_Un_le] add_mono order_refl)
  also have "\<dots> \<le> 5 + 512 + 512"
    using finite_lt_512 card_image_le[OF finite_lt_512(1), of "\<lambda>j. [0, 0, j]"]
      card_image_le[OF finite_lt_512(1), of "\<lambda>j. [511, 510, j]"] by (intro add_mono) (simp_all add: card_insert_if)
  finally show "card boot_tables \<le> 1029" by simp
qed

lemma boot_prefixes_low:
  assumes "k < 0x40000" shows "vprefixes (0 + of_nat k * PAGE_SIZE) \<subseteq> boot_tables"
proof -
  let ?v = "0 + of_nat k * PAGE_SIZE"
  have u: "unat ?v = k * 4096" using assms unat_page_addr[of 0 k] by simp
  have "unat (vmm_virt_to_index ?v 3) = 0" "unat (vmm_virt_to_index ?v 2) = 0"
    unfolding unat_index u using assms by simp_all
  then have "vmm_virt_to_index ?v 3 = 0" "vmm_virt_to_index ?v 2 = 0" by (simp_all only: unat_eq_0)
  then show ?thesis using vmm_virt_to_index_lt[of ?v 1]
    unfolding vprefixes_def vpath_def boot_tables_def by (simp del: add_0)
qed

lemma boot_prefixes_high:
  assumes "k < 0x40000" shows "vprefixes (KERNEL_VBASE64 + of_nat k * PAGE_SIZE) \<subseteq> boot_tables"
proof -
  let ?v = "KERNEL_VBASE64 + of_nat k * PAGE_SIZE"
  have u: "unat ?v = 0xFFFFFFFF80000000 + k * 4096" using assms unat_page_addr[of KERNEL_VBASE64 k] by simp
  have d: "(0xFFFFFFFF80000000 + k * 4096) div 2 ^ (12 + 3 * 9) = 0x1FFFFFF"
    "(0xFFFFFFFF80000000 + k * 4096) div 2 ^ (12 + 2 * 9) = 0x3FFFFFFFE"
    using assms by (auto intro!: div_nat_eqI)
  have "unat (vmm_virt_to_index ?v 3) = unat (511::u64)" "unat (vmm_virt_to_index ?v 2) = unat (510::u64)"
    unfolding unat_index u d by simp_all
  then have "vmm_virt_to_index ?v 3 = 511" "vmm_virt_to_index ?v 2 = 510" by (simp_all only: word_unat_eq_iff)
  then show ?thesis using vmm_virt_to_index_lt[of ?v 1]
    unfolding vprefixes_def vpath_def boot_tables_def by simp
qed

text \<open>A fresh, zeroed root table.\<close>

lemma fresh_root:
  fixes st :: vmm
  assumes "pmm_inv 256 65536 pmm'" "pg \<in> pmm_used pmm'"
  defines "st' \<equiv> st\<lparr>vmm_pmm := pmm', g_vmm_kernel_pml4 := table_of pg,
    ptmem := fold (\<lambda>i m. m(entry_at (table_of pg) (of_nat i) := 0)) [0..<512] (ptmem st)\<rparr>"
  shows "vmm_wf st'" "table_paths st' = {[]}" "vmm_abs st' (vkey w) = None"
proof -
  have W: "root_walk st' p = (if p = [] then Some (table_of pg) else None)" if "p \<in> paths" for p
  proof (cases p)
    case (Cons i q)
    then have "ptmem st' (entry_at (table_of pg) i) = 0"
      using that by (auto simp: st'_def zero_table_512 paths_def)
    then show ?thesis using Cons by (simp add: st'_def)
  qed (simp add: st'_def)
  have "[] \<in> paths" by (simp add: paths_def)
  then show "table_paths st' = {[]}" using W by (auto simp: table_paths_def split: if_splits)
  have "table_of pg \<noteq> 0" using table_of_nonzero(1) pmm_used_bound[OF assms(2)] by blast
  then show "vmm_wf st'" using assms(1,2) W
    by (auto simp: vmm_wf_def pt_wf_def split: if_splits) (auto simp: st'_def)
  have "root_walk st' (fst (vkey w)) = None" using W[OF vkey_path(1)[of w]] vkey_path(2)[of w] by auto
  then show "vmm_abs st' (vkey w) = None" by (simp add: vmm_abs_def leaf_def split_beta)
qed


lemma mapped_phys:
  assumes "vmm_wf st" "vpn w = vpn v" "vmm_abs st (vkey v) = Some (pte_of phys flags)"
  shows "vmm_get_phys w st = (phys AND NOT 0xFFF) OR (w AND 0xFFF)"
proof -
  have "vmm_abs st (vkey w) = Some (pte_of phys flags)" using assms(2,3) vkey_eq_iff[of w v] by simp
  from vmm_lookup(2)[OF assms(1), of w, unfolded this option.case pte_of_base] show ?thesis .
qed

lemma switch_simps [simp]:
  "ptmem (vmm_switch_pml4 t st) = ptmem st" "vmm_pmm (vmm_switch_pml4 t st) = vmm_pmm st"
  "g_vmm_kernel_pml4 (vmm_switch_pml4 t st) = g_vmm_kernel_pml4 st" "cr3 (vmm_switch_pml4 t st) = VIRT_TO_PHYS t"
  by (simp_all add: vmm_switch_pml4_def write_cr3_def)

lemma switch_tables [simp]:
  "vmm_get_phys v (vmm_switch_pml4 t st) = vmm_get_phys v st" "vmm_wf (vmm_switch_pml4 t st) = vmm_wf st"
  "vmm_abs (vmm_switch_pml4 t st) = vmm_abs st"
  unfolding vmm_get_phys_def vmm_get_pte_def vmm_wf_def pt_wf_def vmm_abs_def leaf_def switch_simps by (rule refl)+

lemma map_page_tlb:
  assumes "vmm_map_page v phys flags st = Inr st'" "tlb st = (\<lambda>_. None)"
  shows "tlb st' = (\<lambda>_. None)"
proof -
  have g: "tlb s' = tlb s" if "vmm_get_or_create_table t i f s = Inr (u, s')" for t i f s u s'
    using that by (auto simp: vmm_get_or_create_table_def Let_def split: if_splits prod.splits)
  show ?thesis using assms
    by (auto simp: vmm_map_page_def Let_def fun_eq_iff dest!: g split: if_splits sum.splits prod.splits)
qed

lemma map_range_empty_tlb:
  assumes "vmm_map_range virt phys n flags st = Inr st'" "tlb st = (\<lambda>_. None)"
  shows "tlb st' = (\<lambda>_. None)"
proof -
  have "res_fold (\<lambda>i st. vmm_map_page (virt + of_nat i * PAGE_SIZE) (phys + of_nat i * PAGE_SIZE) flags st) is s = Inr s' \<Longrightarrow>
    tlb s = (\<lambda>_. None) \<Longrightarrow> tlb s' = (\<lambda>_. None)" for "is" s s'
    by (induction "is" arbitrary: s) (auto simp: res_bind_eq_Inr dest: map_page_tlb)
  with assms show ?thesis unfolding vmm_map_range_def by blast
qed

lemma vmm_init_ok:
  assumes inv: "pmm_inv 256 65536 (vmm_pmm st)" and av: "1029 \<le> pmm_avail (vmm_pmm st)"
  shows "\<exists>st'. vmm_init st = Inr st' \<and> vmm_wf st' \<and> cr3 st' = VIRT_TO_PHYS (g_vmm_kernel_pml4 st') \<and>
    (\<forall>a < 0x40000000. vmm_get_phys a st' = a \<and> vmm_get_phys (KERNEL_VBASE64 + a) st' = a) \<and>
    (\<forall>k < 0x40000. vmm_abs st' (vkey (KERNEL_VBASE64 + of_nat k * PAGE_SIZE))
       = Some (pte_of (of_nat k * PAGE_SIZE) (PAGE_PRESENT OR PAGE_WRITABLE))) \<and>
    pmm_avail (vmm_pmm st) \<le> pmm_avail (vmm_pmm st') + 1029 \<and> (tlb st = (\<lambda>_. None) \<longrightarrow> tlb st' = (\<lambda>_. None))"
proof -
  have "0 < pmm_avail (vmm_pmm st)" using av by linarith
  from pp.alloc_succeeds[OF inv this] obtain pg pmm' where al: "pmm_alloc_page (vmm_pmm st) = (pg * PMM_PAGE_SIZE, pmm')"
      "pmm_used pmm' = insert pg (pmm_used (vmm_pmm st))" "pmm_inv 256 65536 pmm'"
      "Suc (pmm_avail pmm') = pmm_avail (vmm_pmm st)" by metis
  let ?s0 = "st\<lparr>vmm_pmm := pmm', g_vmm_kernel_pml4 := table_of pg,
    ptmem := fold (\<lambda>i m. m(entry_at (table_of pg) (of_nat i) := 0)) [0..<512] (ptmem st)\<rparr>"
  let ?f = "PAGE_PRESENT OR PAGE_WRITABLE"
  have used: "pg \<in> pmm_used pmm'" using al(2) by simp
  note r = fresh_root[OF al(3) used, of st]
  have c0: "card boot_tables \<le> pmm_avail (vmm_pmm ?s0) + card (table_paths ?s0)"
    using r(2) al(4) av boot_tables_card(2) by simp
  have t0: "table_paths ?s0 \<subseteq> boot_tables" using r(2) by (simp add: boot_tables_def)
  have n: "(0x40000::nat) \<le> 2 ^ 36" by simp
  from map_range_ok[OF r(1) _ n boot_tables_card(1) t0 boot_prefixes_low c0, of 0 ?f]
  obtain s1 where s1: "vmm_map_range 0 0 0x40000 ?f ?s0 = Inr s1" "vmm_wf s1"
    "g_vmm_kernel_pml4 s1 = g_vmm_kernel_pml4 ?s0" "table_paths s1 \<subseteq> boot_tables"
    "pmm_avail (vmm_pmm s1) + card (table_paths s1) = pmm_avail (vmm_pmm ?s0) + card (table_paths ?s0)"
    "\<forall>k<0x40000. vmm_abs s1 (vkey (0 + of_nat k * PAGE_SIZE)) = Some (pte_of (0 + of_nat k * PAGE_SIZE) ?f)"
    by auto
  have c1: "card boot_tables \<le> pmm_avail (vmm_pmm s1) + card (table_paths s1)" using c0 s1(5) by simp
  have kal: "unat KERNEL_VBASE64 mod 4096 = 0" by simp
  from map_range_ok[OF s1(2) kal n boot_tables_card(1) s1(4) boot_prefixes_high c1, of 0 ?f]
  obtain s2 where s2: "vmm_map_range KERNEL_VBASE64 0 0x40000 ?f s1 = Inr s2" "vmm_wf s2"
    "\<forall>k<0x40000. vmm_abs s2 (vkey (KERNEL_VBASE64 + of_nat k * PAGE_SIZE)) = Some (pte_of (0 + of_nat k * PAGE_SIZE) ?f)"
    "\<forall>w. (\<forall>k<0x40000. vpn w \<noteq> vpn (KERNEL_VBASE64 + of_nat k * PAGE_SIZE)) \<longrightarrow> vmm_abs s2 (vkey w) = vmm_abs s1 (vkey w)"
    "table_paths s2 \<subseteq> boot_tables"
    "pmm_avail (vmm_pmm s2) + card (table_paths s2) = pmm_avail (vmm_pmm s1) + card (table_paths s1)"
    by auto
  have sep: "vpn (0 + of_nat k * PAGE_SIZE) \<noteq> vpn (KERNEL_VBASE64 + of_nat l * PAGE_SIZE)"
    if "k < 0x40000" "l < 0x40000" for k l
  proof -
    have "(0xFFFFFFFF80000 + l) mod 2 ^ 36 = 0xFFFF80000 + l"
      using that mod_mult_self1[of "0xFFFF80000 + l" 65535 "2 ^ 36"] by simp
    then show ?thesis
      using that vpn_page_addr[of 0 k] vpn_page_addr[OF kal, of l] by (simp add: word_unat_eq_iff)
  qed
  have "vmm_get_phys a s2 = a \<and> vmm_get_phys (KERNEL_VBASE64 + a) s2 = a" if a: "a < 0x40000000" for a
  proof -
    let ?k = "unat a div 4096"
    have k: "?k < 0x40000" using unat_less_2p30[OF a] by simp
    have "vmm_abs s2 (vkey (0 + of_nat ?k * PAGE_SIZE)) = Some (pte_of (0 + of_nat ?k * PAGE_SIZE) ?f)"
      using s2(4) sep[OF k] s1(6) k by simp
    from mapped_phys[OF s2(2) vpn_low[OF a] this]
      mapped_phys[OF s2(2) vpn_high[OF a] s2(3)[rule_format, OF k]]
    show ?thesis by (simp only: add_0 page_base offset_kernel base_or_offset)
  qed
  moreover have "card (table_paths s2) \<le> 1029"
    using card_mono[OF boot_tables_card(1) s2(5)] boot_tables_card(2) by simp
  then have "pmm_avail (vmm_pmm st) \<le> pmm_avail (vmm_pmm s2) + 1029" using s2(6) s1(5) r(2) al(4) by simp
  moreover have "tlb st = (\<lambda>_. None) \<longrightarrow> tlb (vmm_switch_pml4 (g_vmm_kernel_pml4 s2) s2) = (\<lambda>_. None)"
    using map_range_empty_tlb[OF s1(1)] map_range_empty_tlb[OF s2(1)] by (simp add: vmm_switch_pml4_def write_cr3_def)
  moreover have "vmm_init st = Inr (vmm_switch_pml4 (g_vmm_kernel_pml4 s2) s2)"
    using al(1) s1(1) s2(1) by (simp add: vmm_init_def table_of_def Let_def)
  ultimately show ?thesis using s2(2,3) by simp
qed

text \<open>
  C4 (vmm_init_identity): with 1029 pages to hand out (one root, two directories of each kind and
  1024 last-level tables) \<^verbatim>\<open>vmm_init\<close> does not stop; afterwards every address of the first
  GiB translates to itself, the same GiB is mapped at the kernel base, the tables are
  well-formed and \<^verbatim>\<open>cr3\<close> holds the physical address of the root.
\<close>

theorem vmm_init_identity:
  assumes "pmm_inv 256 65536 (vmm_pmm st)" "1029 \<le> pmm_avail (vmm_pmm st)"
  shows "\<exists>st'. vmm_init st = Inr st' \<and> vmm_wf st' \<and> cr3 st' = VIRT_TO_PHYS (g_vmm_kernel_pml4 st') \<and>
    (\<forall>a < 0x40000000. vmm_get_phys a st' = a \<and> vmm_get_phys (KERNEL_VBASE64 + a) st' = a)"
  using vmm_init_ok[OF assms] by blast

lemma boot_avail:
  assumes "kernel_end_ok ke"
  shows "pmm_avail (pmm_init ke pmm_init_state) = 65024 - kernel_pages ke"
proof -
  note i = pmm_init_spec[OF assms]
  have "{p \<in> {256..<65280}. \<not> pmm_test_bit (g_pmm_bitmap (pmm_init ke pmm_init_state)) p} = {256 + kernel_pages ke..<65280}"
    using i(5) by auto
  then show ?thesis using i(2,3) by (simp add: pmm_avail_def)
qed

lemma boot_kernel_example: "kernel_end_ok 0xFFFFFFFF80100000" "kernel_pages 0xFFFFFFFF80100000 = 0"
  by (simp_all add: kernel_end_ok_def kernel_pages_def)

definition vmm_image :: "pmm \<Rightarrow> vmm" where
  "vmm_image p = \<lparr>vmm_pmm = p, ptmem = (\<lambda>_. 0), g_vmm_kernel_pml4 = 0, cr3 = 0, tlb = (\<lambda>_. None)\<rparr>"

theorem vmm_init_identity_witness:
  "\<exists>st'. vmm_init (vmm_image (pmm_init 0xFFFFFFFF80100000 pmm_init_state)) = Inr st' \<and>
     vmm_get_phys 0x12345 st' = 0x12345 \<and> vmm_get_phys 0xFFFFFFFF80012345 st' = 0x12345"
proof -
  let ?st = "vmm_image (pmm_init 0xFFFFFFFF80100000 pmm_init_state)"
  have "pmm_inv 256 65536 (vmm_pmm ?st)" "1029 \<le> pmm_avail (vmm_pmm ?st)"
    using pmm_init_spec(1)[OF boot_kernel_example(1)] boot_avail[OF boot_kernel_example(1)] boot_kernel_example(2)
    by (simp_all add: vmm_image_def)
  from vmm_init_identity[OF this] obtain st' where s: "vmm_init ?st = Inr st'"
    "\<forall>a < 0x40000000. vmm_get_phys a st' = a \<and> vmm_get_phys (KERNEL_VBASE64 + a) st' = a" by blast
  from spec[OF s(2), of "0x12345"] s(1) show ?thesis by simp
qed

text \<open>A well-formed address space exists: an empty root table taken from the boot allocator.\<close>

lemma vmm_example:
  obtains st where "vmm_wf st" "60000 \<le> pmm_avail (vmm_pmm st)" "tlb_coherent st"
proof -
  note b = pmm_init_spec(1)[OF boot_kernel_example(1)]
  have "0 < pmm_avail (pmm_init 0xFFFFFFFF80100000 pmm_init_state)"
    using boot_avail[OF boot_kernel_example(1)] boot_kernel_example(2) by simp
  from pp.alloc_succeeds[OF b this] obtain pg pmm' where al: "pg \<in> pmm_used pmm'" "pmm_inv 256 65536 pmm'"
    "Suc (pmm_avail pmm') = pmm_avail (pmm_init 0xFFFFFFFF80100000 pmm_init_state)" by (metis insertI1)
  define st where "st = (vmm_image pmm')\<lparr>vmm_pmm := pmm', g_vmm_kernel_pml4 := table_of pg,
    ptmem := fold (\<lambda>i m. m(entry_at (table_of pg) (of_nat i) := 0)) [0..<512] (ptmem (vmm_image pmm'))\<rparr>"
  show ?thesis
    by (rule that[of st])
      (use fresh_root(1)[OF al(2,1), of "vmm_image pmm'"] al(3) boot_avail[OF boot_kernel_example(1)] boot_kernel_example(2)
       in \<open>simp_all add: st_def vmm_image_def tlb_coherent_def\<close>)
qed

text \<open>
  The entry is built from the low twelve flag bits, so the no-execute flag (bit 63) that
  \<^verbatim>\<open>vmm_map_kernel_text\<close> asks for never reaches a page table.
\<close>

lemma vmm_nx_dropped: "vmm_map_page virt phys (flags OR PAGE_NX) st = vmm_map_page virt phys flags st"
proof -
  have m: "(0xFFF :: u64) = mask 12" "PAGE_NX = push_bit 63 1"
    by (simp_all add: mask_eq_exp_minus_1 push_bit_eq_mult)
  have "(flags OR PAGE_NX) AND 0xFFF = flags AND 0xFFF" unfolding m
    by (rule bit_word_eqI) (auto simp: bit_simps simp del: mask_numeral push_bit_of_1)
  then show ?thesis by (simp only: vmm_map_page_def)
qed

end
