(* ===== verification/Gos_Heap.thy ===== *)
theory Gos_Heap
  imports Gos_Vmm Gos_Memory
begin

text \<open>
  The kernel heap, \<^verbatim>\<open>mm/heap/heap.c\<close>: first fit over a doubly linked free list whose
  32-byte block headers live in the heap's own memory, extended page by page through the
  page allocator and the page tables. Addresses and sizes are natural numbers below
  \<open>2 ^ 64\<close> with the wrap-around of the source written out. The free-list walk and the
  retry after an extension need not end on a corrupted list, so \<open>heap_find_fit\<close> and
  \<open>kmalloc\<close> are partial functions; \<open>None\<close> is not returning.
\<close>

section \<open>State and headers\<close>

abbreviation HEAP_INITIAL_SIZE :: nat where "HEAP_INITIAL_SIZE \<equiv> 0x200000"
abbreviation HEAP_MAX_SIZE :: nat where "HEAP_MAX_SIZE \<equiv> 0x4000000"
abbreviation HEAP_BASE :: nat where "HEAP_BASE \<equiv> 0xFFFFFFFF80400000"
abbreviation HEAP_MAGIC_FREE :: nat where "HEAP_MAGIC_FREE \<equiv> 0xDEADBEEFCAFEBAB0"
abbreviation HEAP_MAGIC_USED :: nat where "HEAP_MAGIC_USED \<equiv> 0xCAFEBABEDEADBEEF"
abbreviation HDR :: nat where "HDR \<equiv> 32"

record heap =
  hvmm :: vmm
  hmem :: mem
  g_heap_start :: nat
  g_heap_end :: nat
  g_heap_max :: nat
  g_heap_free_list :: nat

text \<open>The fields of \<^verbatim>\<open>struct heap_block\<close> at their offsets.\<close>

datatype field = Magic | Size | Next | Prev

fun field_offset :: "field \<Rightarrow> nat" where
  "field_offset Magic = 0"
| "field_offset Size = 8"
| "field_offset Next = 16"
| "field_offset Prev = 24"

definition fld :: "mem \<Rightarrow> nat \<Rightarrow> field \<Rightarrow> nat" where
  "fld m b f = unat (read_unaligned_u64 m (b + field_offset f))"

definition set_fld :: "nat \<Rightarrow> field \<Rightarrow> nat \<Rightarrow> mem \<Rightarrow> mem" where
  "set_fld b f v m = write_unaligned_u64 m (b + field_offset f) (of_nat v)"

section \<open>Operations\<close>

text \<open>The loop of \<^verbatim>\<open>heap_extend\<close>: \<open>False\<close> is the early \<^verbatim>\<open>return NULL\<close>.\<close>

fun heap_extend_loop :: "nat list \<Rightarrow> heap \<Rightarrow> (bool \<times> heap) res" where
  "heap_extend_loop [] st = Inr (True, st)"
| "heap_extend_loop (i # is) st =
     (case pmm_alloc_page (vmm_pmm (hvmm st)) of (phys, pmm') \<Rightarrow>
        let st = st\<lparr>hvmm := (hvmm st)\<lparr>vmm_pmm := pmm'\<rparr>\<rparr> in
        if phys = 0 then Inr (False, st)
        else res_bind (vmm_map_page (of_nat (add64 (g_heap_end st) (i * PMM_PAGE_SIZE))) (of_nat phys)
                         (PAGE_PRESENT OR PAGE_WRITABLE) (hvmm st))
               (\<lambda>v. heap_extend_loop is (st\<lparr>hvmm := v\<rparr>)))"

definition heap_extend :: "nat \<Rightarrow> heap \<Rightarrow> (nat \<times> heap) res" where
  "heap_extend pages st =
     res_bind (heap_extend_loop [0..<pages] st) (\<lambda>(ok, st).
       if \<not> ok then Inr (0, st)
       else Inr (g_heap_end st, st\<lparr>g_heap_end := add64 (g_heap_end st) (pages * PMM_PAGE_SIZE)\<rparr>))"

text \<open>Returns the block that absorbed the others, as the source does.\<close>

definition heap_coalesce :: "nat \<Rightarrow> mem \<Rightarrow> nat \<times> mem" where
  "heap_coalesce block m =
     (let m = (if fld m block Next \<noteq> 0 \<and> add64 (add64 block HDR) (fld m block Size) = fld m block Next
               then let m = set_fld block Size
                              (add64 (fld m block Size) (add64 HDR (fld m (fld m block Next) Size))) m;
                        m = set_fld block Next (fld m (fld m block Next) Next) m
                    in if fld m block Next \<noteq> 0 then set_fld (fld m block Next) Prev block m else m
               else m)
      in if fld m block Prev \<noteq> 0 \<and>
            add64 (add64 (fld m block Prev) HDR) (fld m (fld m block Prev) Size) = block
         then let m = set_fld (fld m block Prev) Size
                        (add64 (fld m (fld m block Prev) Size) (add64 HDR (fld m block Size))) m;
                  m = set_fld (fld m block Prev) Next (fld m block Next) m;
                  m = (if fld m block Next \<noteq> 0 then set_fld (fld m block Next) Prev (fld m block Prev) m else m)
              in (fld m block Prev, m)
         else (block, m))"

definition heap_init :: "heap \<Rightarrow> heap res" where
  "heap_init st =
     (let st = st\<lparr>g_heap_start := HEAP_BASE, g_heap_end := HEAP_BASE, g_heap_max := HEAP_BASE + HEAP_MAX_SIZE\<rparr>
      in res_bind (heap_extend (HEAP_INITIAL_SIZE div PMM_PAGE_SIZE) st) (\<lambda>(p, st).
           if p = 0 then Inl Halted
           else let b = g_heap_start st;
                    m = set_fld b Magic HEAP_MAGIC_FREE (hmem st);
                    m = set_fld b Size (HEAP_INITIAL_SIZE - HDR) m;
                    m = set_fld b Next 0 m;
                    m = set_fld b Prev 0 m
                in Inr (st\<lparr>g_heap_free_list := b, hmem := m\<rparr>)))"

datatype fit = Corrupt | Found nat | NotFound

partial_function (option) heap_find_fit :: "mem \<Rightarrow> nat \<Rightarrow> nat \<Rightarrow> fit option" where
  "heap_find_fit m block sz =
     (if block = 0 then Some NotFound
      else if fld m block Magic \<noteq> HEAP_MAGIC_FREE then Some Corrupt
      else if sz \<le> fld m block Size then Some (Found block)
      else heap_find_fit m (fld m block Next) sz)"

text \<open>Taking the found block: split it, or unlink it whole. Gives the memory and the list head.\<close>

definition heap_take :: "nat \<Rightarrow> nat \<Rightarrow> nat \<Rightarrow> mem \<Rightarrow> mem \<times> nat" where
  "heap_take block sz head m =
     (let (m, head) =
        (if add64 sz (HDR + 16) \<le> fld m block Size
         then let new_block = add64 (add64 block HDR) sz;
                  m = set_fld new_block Magic HEAP_MAGIC_FREE m;
                  m = set_fld new_block Size (sub64 (sub64 (fld m block Size) HDR) sz) m;
                  m = set_fld new_block Next (fld m block Next) m;
                  m = set_fld new_block Prev (fld m block Prev) m;
                  m = (if fld m block Next \<noteq> 0 then set_fld (fld m block Next) Prev new_block m else m);
                  (m, head) = (if fld m block Prev \<noteq> 0 then (set_fld (fld m block Prev) Next new_block m, head)
                               else (m, new_block));
                  m = set_fld block Size sz m
              in (m, head)
         else let (m, head) = (if fld m block Prev \<noteq> 0
                               then (set_fld (fld m block Prev) Next (fld m block Next) m, head)
                               else (m, fld m block Next));
                  m = (if fld m block Next \<noteq> 0 then set_fld (fld m block Next) Prev (fld m block Prev) m else m)
              in (m, head));
        m = set_fld block Magic HEAP_MAGIC_USED m;
        m = set_fld block Next 0 m;
        m = set_fld block Prev 0 m
      in (m, head))"

definition heap_round :: "nat \<Rightarrow> nat" where
  "heap_round sz = (let s = add64 sz 15 in s - s mod 16)"

definition heap_push_extension :: "nat \<Rightarrow> nat \<Rightarrow> heap \<Rightarrow> heap" where
  "heap_push_extension new_block pages st =
     (let head = g_heap_free_list st;
          m = set_fld new_block Magic HEAP_MAGIC_FREE (hmem st);
          m = set_fld new_block Size (sub64 (pages * PMM_PAGE_SIZE mod 2 ^ 64) HDR) m;
          m = set_fld new_block Next head m;
          m = set_fld new_block Prev 0 m;
          m = (if head \<noteq> 0 then set_fld head Prev new_block m else m)
      in st\<lparr>hmem := m, g_heap_free_list := new_block\<rparr>)"

partial_function (option) kmalloc :: "nat \<Rightarrow> heap \<Rightarrow> (nat \<times> heap) res option" where
  "kmalloc sz0 st =
     (if sz0 = 0 then Some (Inr (0, st))
      else let sz = heap_round sz0 in
        Option.bind (heap_find_fit (hmem st) (g_heap_free_list st) sz) (\<lambda>r.
          case r of
            Corrupt \<Rightarrow> Some (Inr (0, st))
          | Found block \<Rightarrow>
              (case heap_take block sz (g_heap_free_list st) (hmem st) of (m, head) \<Rightarrow>
                 Some (Inr (add64 block HDR, st\<lparr>hmem := m, g_heap_free_list := head\<rparr>)))
          | NotFound \<Rightarrow>
              (let needed = add64 sz HDR;
                   pages = add64 needed (PMM_PAGE_SIZE - 1) div PMM_PAGE_SIZE
               in if add64 (g_heap_end st) (pages * PMM_PAGE_SIZE) > g_heap_max st then Some (Inr (0, st))
                  else case heap_extend pages st of
                         Inl f \<Rightarrow> Some (Inl f)
                       | Inr (new_mem, st) \<Rightarrow>
                           if new_mem = 0 then Some (Inr (0, st))
                           else kmalloc sz (heap_push_extension new_mem pages st))))"

definition kzalloc :: "nat \<Rightarrow> heap \<Rightarrow> (nat \<times> heap) res option" where
  "kzalloc sz st =
     Option.bind (kmalloc sz st) (\<lambda>r. case r of
         Inl f \<Rightarrow> Some (Inl f)
       | Inr (ptr, st) \<Rightarrow>
           Some (Inr (ptr, if ptr \<noteq> 0 then st\<lparr>hmem := fold (\<lambda>i m. m(ptr + i := 0)) [0..<sz] (hmem st)\<rparr> else st)))"

definition kfree :: "nat \<Rightarrow> heap \<Rightarrow> heap" where
  "kfree ptr st =
     (if ptr = 0 then st
      else let block = sub64 ptr HDR in
        if fld (hmem st) block Magic \<noteq> HEAP_MAGIC_USED then st
        else let head = g_heap_free_list st;
                 m = set_fld block Magic HEAP_MAGIC_FREE (hmem st);
                 m = set_fld block Next head m;
                 m = set_fld block Prev 0 m;
                 m = (if head \<noteq> 0 then set_fld head Prev block m else m)
             in st\<lparr>g_heap_free_list := block, hmem := snd (heap_coalesce block m)\<rparr>)"

definition krealloc :: "nat \<Rightarrow> nat \<Rightarrow> heap \<Rightarrow> (nat \<times> heap) res option" where
  "krealloc ptr new_size st =
     (if ptr = 0 then kmalloc new_size st
      else if new_size = 0 then Some (Inr (0, kfree ptr st))
      else let block = sub64 ptr HDR in
        if fld (hmem st) block Magic \<noteq> HEAP_MAGIC_USED then Some (Inr (0, st))
        else if new_size \<le> fld (hmem st) block Size then Some (Inr (ptr, st))
        else Option.bind (kmalloc new_size st) (\<lambda>r. case r of
               Inl f \<Rightarrow> Some (Inl f)
             | Inr (new_ptr, st) \<Rightarrow>
                 if new_ptr = 0 then Some (Inr (0, st))
                 else let st = st\<lparr>hmem := fold (\<lambda>i m. m(new_ptr + i := m (ptr + i)))
                                            [0..<fld (hmem st) block Size] (hmem st)\<rparr>
                      in Some (Inr (new_ptr, kfree ptr st))))"

definition ksize :: "nat \<Rightarrow> heap \<Rightarrow> nat" where
  "ksize ptr st =
     (if ptr = 0 then 0
      else let block = sub64 ptr HDR in
        if fld (hmem st) block Magic \<noteq> HEAP_MAGIC_USED then 0 else fld (hmem st) block Size)"

text \<open>The totals \<^verbatim>\<open>heap_dump_stats\<close> prints: bytes and number of free blocks.\<close>

partial_function (option) heap_stats :: "mem \<Rightarrow> nat \<Rightarrow> nat \<Rightarrow> nat \<Rightarrow> (nat \<times> nat) option" where
  "heap_stats m block free_total free_count =
     (if block = 0 then Some (free_total, free_count)
      else heap_stats m (fld m block Next) (add64 free_total (fld m block Size)) (free_count + 1))"

section \<open>Header accesses\<close>

lemma fld_less [simp]: "fld m b f < 2 ^ 64"
proof -
  have "unat w < 2 ^ 64" for w :: u64 using unsigned_less[of w] by simp
  then show ?thesis by (simp add: fld_def)
qed

text \<open>Block headers that do not overlap.\<close>

definition hdr_sep :: "nat set \<Rightarrow> bool" where
  "hdr_sep X \<longleftrightarrow> (\<forall>a\<in>X. \<forall>b\<in>X. a \<noteq> b \<longrightarrow> a + HDR \<le> b \<or> b + HDR \<le> a)"

lemma field_offset_cases: "f \<noteq> g \<Longrightarrow> field_offset f + 8 \<le> field_offset g \<or> field_offset g + 8 \<le> field_offset f"
  by (cases f; cases g) auto

lemma field_offset_le: "field_offset f + 8 \<le> HDR"
  by (cases f) auto

lemma fld_set_same: "v < 2 ^ 64 \<Longrightarrow> fld (set_fld a f v m) a f = v"
  by (simp add: fld_def set_fld_def read_write_u64 unat_of_nat take_bit_nat_eq_self)

lemma fld_set_field: "f \<noteq> g \<Longrightarrow> fld (set_fld a f v m) a g = fld m a g"
  using field_offset_cases[of f g] unfolding fld_def set_fld_def by (subst read_frame_u64) auto

lemma fld_set_block:
  assumes "hdr_sep X" "a \<in> X" "b \<in> X" "a \<noteq> b"
  shows "fld (set_fld a f v m) b g = fld m b g"
proof -
  have "a + HDR \<le> b \<or> b + HDR \<le> a" using assms by (simp add: hdr_sep_def)
  then show ?thesis using field_offset_le[of f] field_offset_le[of g]
    unfolding fld_def set_fld_def by (subst read_frame_u64) auto
qed

lemma fld_set:
  assumes "hdr_sep X" "a \<in> X" "b \<in> X" "v < 2 ^ 64"
  shows "fld (set_fld a f v m) b g = (if a = b \<and> f = g then v else fld m b g)"
  using fld_set_same[OF assms(4), of a f m] fld_set_field[of f g a v m] fld_set_block[OF assms(1-3)] by auto

lemma set_fld_frame: "x < a \<or> a + HDR \<le> x \<Longrightarrow> set_fld a f v m x = m x"
  using field_offset_le[of f] unfolding set_fld_def by (subst write_frame_u64) auto

text \<open>Memory outside the headers of \<open>X\<close> is unchanged.\<close>

definition outside :: "nat set \<Rightarrow> nat set" where
  "outside X = {x. \<forall>a\<in>X. x < a \<or> a + HDR \<le> x}"

lemma set_fld_outside: "a \<in> X \<Longrightarrow> x \<in> outside X \<Longrightarrow> set_fld a f v m x = m x"
  by (rule set_fld_frame) (auto simp: outside_def)

section \<open>Layouts\<close>

text \<open>
  A layout tiles the heap \<open>[HEAP_BASE, e)\<close> with blocks: headers and payloads are aligned,
  inside, pairwise disjoint, and add up to the whole.
\<close>

definition layout :: "(nat \<Rightarrow> nat) \<Rightarrow> nat set \<Rightarrow> nat \<Rightarrow> bool" where
  "layout s B e \<longleftrightarrow> finite B \<and>
     (\<forall>b\<in>B. HEAP_BASE \<le> b \<and> b + HDR + s b \<le> e \<and> b mod 16 = 0 \<and> s b mod 16 = 0) \<and>
     (\<forall>b\<in>B. \<forall>c\<in>B. b \<noteq> c \<longrightarrow> b + HDR + s b \<le> c \<or> c + HDR + s c \<le> b) \<and>
     (\<Sum>b\<in>B. HDR + s b) + HEAP_BASE = e"

lemma layout_sep: "layout s B e \<Longrightarrow> hdr_sep B"
  by (fastforce simp: layout_def hdr_sep_def)

lemma layout_cong: "(\<And>b. b \<in> B \<Longrightarrow> s b = t b) \<Longrightarrow> layout s B e \<longleftrightarrow> layout t B e"
  by (simp add: layout_def)

lemma layout_split:
  assumes L: "layout s B e" and b: "b \<in> B" and k: "k mod 16 = 0" "k + HDR + 16 \<le> s b"
  defines "n \<equiv> b + HDR + k"
  shows "n \<notin> B" "layout (s(b := k, n := s b - HDR - k)) (insert n B) e"
proof -
  let ?t = "s(b := k, n := s b - HDR - k)"
  have B: "HEAP_BASE \<le> b" "b + HDR + s b \<le> e" "b mod 16 = 0" "s b mod 16 = 0" "finite B"
    using L b by (auto simp: layout_def)
  have far: "c + HDR + s c \<le> b \<or> b + HDR + s b \<le> c" if "c \<in> B" "c \<noteq> b" for c
    using L b that unfolding layout_def by blast
  show n: "n \<notin> B" using far[of n] k by (auto simp: n_def)
  have nb: "n \<noteq> b" by (simp add: n_def)
  have al: "n mod 16 = 0" "(s b - HDR - k) mod 16 = 0"
  proof -
    obtain x y z where "b = 16 * x" "k = 16 * y" "s b = 16 * z" using B(3,4) k(1) by (metis mod_0_imp_dvd dvdE)
    then have "n = 16 * (x + 2 + y)" "s b - HDR - k = 16 * (z - 2 - y)" by (simp_all add: n_def)
    then show "n mod 16 = 0" "(s b - HDR - k) mod 16 = 0" by simp_all
  qed
  have "(\<Sum>c\<in>insert n B. HDR + ?t c) = (HDR + ?t n) + (\<Sum>c\<in>B. HDR + ?t c)" using n B(5) by simp
  also have "(\<Sum>c\<in>B. HDR + ?t c) = (HDR + ?t b) + (\<Sum>c\<in>B - {b}. HDR + ?t c)" using b B(5) by (simp add: sum.remove)
  also have "(\<Sum>c\<in>B - {b}. HDR + ?t c) = (\<Sum>c\<in>B - {b}. HDR + s c)" using n by (intro sum.cong) auto
  also have "(HDR + ?t n) + ((HDR + ?t b) + \<dots>) = (HDR + s b) + (\<Sum>c\<in>B - {b}. HDR + s c)"
    using k(2) nb by simp
  also have "\<dots> = (\<Sum>c\<in>B. HDR + s c)" using b B(5) by (simp add: sum.remove)
  finally have sum: "(\<Sum>c\<in>insert n B. HDR + ?t c) = (\<Sum>c\<in>B. HDR + s c)" .
  have in1: "HEAP_BASE \<le> c \<and> c + HDR + ?t c \<le> e \<and> c mod 16 = 0 \<and> ?t c mod 16 = 0" if c: "c \<in> insert n B" for c
  proof -
    consider "c = n" | "c = b" | "c \<in> B" "c \<noteq> b" "c \<noteq> n" using c by blast
    then show ?thesis
    proof cases
      case 1 then show ?thesis using B k al nb by (simp add: n_def)
    next
      case 2 then show ?thesis using B k al nb by simp
    next
      case 3 then show ?thesis using L by (simp add: layout_def)
    qed
  qed
  have dis: "c + HDR + ?t c \<le> d \<or> d + HDR + ?t d \<le> c" if cd: "c \<in> insert n B" "d \<in> insert n B" "c \<noteq> d" for c d
  proof -
    have old: "c + HDR + s c \<le> d \<or> d + HDR + s d \<le> c" if "c \<in> B" "d \<in> B" "c \<noteq> d" for c d
      using L that unfolding layout_def by blast
    show ?thesis
      using old[of c d] far[of c] far[of d] cd k n nb by (auto simp: n_def)
  qed
  show "layout ?t (insert n B) e"
    unfolding layout_def using in1 dis sum L B(5) by (auto simp: layout_def)
qed

lemma layout_merge:
  assumes L: "layout s B e" and b: "b \<in> B" "c \<in> B" and c: "c = b + HDR + s b"
  shows "layout (s(b := s b + (HDR + s c))) (B - {c}) e"
proof -
  let ?t = "s(b := s b + (HDR + s c))"
  have fin: "finite B" and ne: "b \<noteq> c" using L c by (auto simp: layout_def)
  have old: "x + HDR + s x \<le> y \<or> y + HDR + s y \<le> x" if "x \<in> B" "y \<in> B" "x \<noteq> y" for x y
    using L that unfolding layout_def by blast
  have "(\<Sum>x\<in>B. HDR + s x) = (HDR + s b) + ((HDR + s c) + (\<Sum>x\<in>B - {c} - {b}. HDR + s x))"
    using fin b ne sum.remove[of B c "\<lambda>x. HDR + s x"] sum.remove[of "B - {c}" b "\<lambda>x. HDR + s x"] by simp
  moreover have "(\<Sum>x\<in>B - {c}. HDR + ?t x) = (HDR + ?t b) + (\<Sum>x\<in>B - {c} - {b}. HDR + ?t x)"
    using fin b ne by (intro sum.remove) auto
  moreover have "(\<Sum>x\<in>B - {c} - {b}. HDR + ?t x) = (\<Sum>x\<in>B - {c} - {b}. HDR + s x)" by (intro sum.cong) auto
  ultimately have sum: "(\<Sum>x\<in>B - {c}. HDR + ?t x) = (\<Sum>x\<in>B. HDR + s x)" by simp
  have in1: "HEAP_BASE \<le> x \<and> x + HDR + ?t x \<le> e \<and> x mod 16 = 0 \<and> ?t x mod 16 = 0" if x: "x \<in> B - {c}" for x
  proof (cases "x = b")
    case True
    have "s b mod 16 = 0" "s c mod 16 = 0" using L b by (auto simp: layout_def)
    then obtain x y where "s b = 16 * x" "s c = 16 * y" by (metis mod_0_imp_dvd dvdE)
    then have "s b + (HDR + s c) = 16 * (x + 2 + y)" by simp
    then have "(s b + (HDR + s c)) mod 16 = 0" by (simp only: mod_mult_self1_is_0)
    then show ?thesis using L b True c by (auto simp: layout_def)
  next
    case False then show ?thesis using L x by (simp add: layout_def)
  qed
  have dis: "x + HDR + ?t x \<le> y \<or> y + HDR + ?t y \<le> x" if xy: "x \<in> B - {c}" "y \<in> B - {c}" "x \<noteq> y" for x y
    using old[of x y] old[of x c] old[of y c] xy b c by (auto split: if_splits)
  show ?thesis unfolding layout_def using in1 dis sum L fin by (auto simp: layout_def)
qed

lemma layout_extend:
  assumes L: "layout s B e" and n: "n mod 16 = 0" "HDR \<le> n" and e: "e mod 16 = 0"
  shows "e \<notin> B" "layout (s(e := n - HDR)) (insert e B) (e + n)"
proof -
  let ?t = "s(e := n - HDR)"
  have fin: "finite B" using L by (simp add: layout_def)
  have below: "b + HDR + s b \<le> e" if "b \<in> B" for b using L that by (simp add: layout_def)
  show ne: "e \<notin> B" using below[of e] by auto
  have "(\<Sum>x\<in>B. HDR + ?t x) = (\<Sum>x\<in>B. HDR + s x)" using ne by (intro sum.cong) auto
  then have sum: "(\<Sum>x\<in>insert e B. HDR + ?t x) = n + (\<Sum>x\<in>B. HDR + s x)" using fin ne n(2) by simp
  have base: "HEAP_BASE \<le> e" using L unfolding layout_def by linarith
  have al: "(n - HDR) mod 16 = 0"
  proof -
    obtain x where "n = 16 * x" using n(1) by (metis mod_0_imp_dvd dvdE)
    then have "n - HDR = 16 * (x - 2)" by simp
    then show ?thesis by simp
  qed
  have in1: "HEAP_BASE \<le> x \<and> x + HDR + ?t x \<le> e + n \<and> x mod 16 = 0 \<and> ?t x mod 16 = 0" if x: "x \<in> insert e B" for x
  proof (cases "x = e")
    case True then show ?thesis using base n e al by simp
  next
    case False
    then have "x \<in> B" using x by simp
    then have "HEAP_BASE \<le> x" "x + HDR + s x \<le> e" "x mod 16 = 0" "s x mod 16 = 0"
      using L by (auto simp: layout_def)
    then show ?thesis using False by simp
  qed
  have dis: "x + HDR + ?t x \<le> y \<or> y + HDR + ?t y \<le> x" if xy: "x \<in> insert e B" "y \<in> insert e B" "x \<noteq> y" for x y
  proof -
    have "x + HDR + s x \<le> y \<or> y + HDR + s y \<le> x" if "x \<in> B" "y \<in> B"
      using L that xy(3) unfolding layout_def by blast
    then show ?thesis using below[of x] below[of y] xy by auto
  qed
  show "layout ?t (insert e B) (e + n)"
    unfolding layout_def using in1 dis sum L fin by (auto simp: layout_def)
qed

section \<open>Doubly linked lists\<close>

fun links :: "(nat \<Rightarrow> nat) \<Rightarrow> (nat \<Rightarrow> nat) \<Rightarrow> nat \<Rightarrow> nat list \<Rightarrow> nat \<Rightarrow> bool" where
  "links nx pv p [] n = True"
| "links nx pv p (x # xs) n = (pv x = p \<and> nx x = hd (xs @ [n]) \<and> links nx pv x xs n)"

lemma links_append:
  "links nx pv p (xs @ ys) n \<longleftrightarrow> links nx pv p xs (hd (ys @ [n])) \<and> links nx pv (last (p # xs)) ys n"
  by (induction xs arbitrary: p) (auto simp: hd_append)

lemma links_cong:
  "(\<And>x. x \<in> set xs \<Longrightarrow> nx x = nx' x \<and> pv x = pv' x) \<Longrightarrow> links nx pv p xs n \<longleftrightarrow> links nx' pv' p xs n"
  by (induction xs arbitrary: p) auto

lemma links_new_last:
  assumes "links nx pv p xs n" "distinct xs" "xs \<noteq> [] \<Longrightarrow> nx' (last xs) = n'"
    "\<And>x. x \<in> set xs \<Longrightarrow> x \<noteq> last xs \<Longrightarrow> nx' x = nx x" "\<And>x. x \<in> set xs \<Longrightarrow> pv' x = pv x"
  shows "links nx' pv' p xs n'"
proof (cases xs rule: rev_cases)
  case (snoc ys y)
  have "links nx pv p ys y" "pv y = last (p # ys)" using assms(1) by (auto simp: snoc links_append)
  moreover have "links nx' pv' p ys y = links nx pv p ys y"
    using assms(2,4,5) snoc by (intro links_cong) auto
  ultimately show ?thesis using assms(3,5) snoc by (simp add: links_append)
qed simp

lemma links_new_first:
  assumes "links nx pv p xs n" "distinct xs" "xs \<noteq> [] \<Longrightarrow> pv' (hd xs) = p'"
    "\<And>x. x \<in> set xs \<Longrightarrow> x \<noteq> hd xs \<Longrightarrow> pv' x = pv x" "\<And>x. x \<in> set xs \<Longrightarrow> nx' x = nx x"
  shows "links nx' pv' p' xs n"
proof (cases xs)
  case (Cons y ys)
  have "links nx' pv' y ys n = links nx pv y ys n"
    using assms(2,4,5) Cons by (intro links_cong) auto
  then show ?thesis using assms(1,3,5) Cons by simp
qed simp

text \<open>Replacing or removing one element.\<close>

lemma links_replace:
  assumes L: "links nx pv p (xs @ b # ys) n" and d: "distinct (xs @ b # ys)" "c \<notin> set xs \<union> set ys"
    and c: "nx' c = nx b" "pv' c = pv b"
    and xs: "xs \<noteq> [] \<Longrightarrow> nx' (last xs) = c" "\<And>x. x \<in> set xs \<Longrightarrow> x \<noteq> last xs \<Longrightarrow> nx' x = nx x" "\<And>x. x \<in> set xs \<Longrightarrow> pv' x = pv x"
    and ys: "ys \<noteq> [] \<Longrightarrow> pv' (hd ys) = c" "\<And>x. x \<in> set ys \<Longrightarrow> x \<noteq> hd ys \<Longrightarrow> pv' x = pv x" "\<And>x. x \<in> set ys \<Longrightarrow> nx' x = nx x"
  shows "links nx' pv' p (xs @ c # ys) n"
proof -
  from L have 1: "links nx pv p xs b" and 2: "pv b = last (p # xs)" "nx b = hd (ys @ [n])" and 3: "links nx pv b ys n"
    by (auto simp: links_append)
  have "links nx' pv' p xs c" by (rule links_new_last[OF 1 _ xs]) (use d in auto)
  moreover have "links nx' pv' c ys n" by (rule links_new_first[OF 3 _ ys]) (use d in auto)
  ultimately show ?thesis using 2 c by (auto simp: links_append)
qed

lemma links_remove:
  assumes L: "links nx pv p (xs @ b # ys) n" and d: "distinct (xs @ b # ys)"
    and xs: "xs \<noteq> [] \<Longrightarrow> nx' (last xs) = nx b" "\<And>x. x \<in> set xs \<Longrightarrow> x \<noteq> last xs \<Longrightarrow> nx' x = nx x" "\<And>x. x \<in> set xs \<Longrightarrow> pv' x = pv x"
    and ys: "ys \<noteq> [] \<Longrightarrow> pv' (hd ys) = pv b" "\<And>x. x \<in> set ys \<Longrightarrow> x \<noteq> hd ys \<Longrightarrow> pv' x = pv x" "\<And>x. x \<in> set ys \<Longrightarrow> nx' x = nx x"
  shows "links nx' pv' p (xs @ ys) n"
proof -
  from L have 1: "links nx pv p xs b" and 2: "pv b = last (p # xs)" "nx b = hd (ys @ [n])" and 3: "links nx pv b ys n"
    by (auto simp: links_append)
  have "links nx' pv' p xs (nx b)" by (rule links_new_last[OF 1 _ xs]) (use d in auto)
  moreover have "links nx' pv' (pv b) ys n" by (rule links_new_first[OF 3 _ ys]) (use d in auto)
  ultimately show ?thesis using 2 by (auto simp: links_append)
qed

lemma word_nat_less [simp]:
  "fld m b f < 18446744073709551616" "add64 x y < 18446744073709551616" "sub64 x y < 18446744073709551616"
  using fld_less[of m b f] by (simp_all add: add64_def sub64_def)

section \<open>Effect of the list operations on the headers\<close>

lemma take_split_effect:
  assumes sep: "hdr_sep X" and X0: "b \<in> X" "nb \<in> X" "fld m b Next \<in> insert 0 X" "fld m b Prev \<in> insert 0 X"
    and nb: "nb = b + HDR + k" "nb < 2 ^ 64" and k: "k + HDR + 16 \<le> fld m b Size"
    and ne: "fld m b Next \<noteq> b" "fld m b Next \<noteq> nb" "fld m b Prev \<noteq> b" "fld m b Prev \<noteq> nb"
  shows "snd (heap_take b k head m) = (if fld m b Prev \<noteq> 0 then head else nb)"
    "c \<in> X \<Longrightarrow> fld (fst (heap_take b k head m)) c f = (case f of
       Magic \<Rightarrow> if c = b then HEAP_MAGIC_USED else if c = nb then HEAP_MAGIC_FREE else fld m c Magic
     | Size \<Rightarrow> if c = b then k else if c = nb then fld m b Size - HDR - k else fld m c Size
     | Next \<Rightarrow> if c = b then 0 else if c = nb then fld m b Next
               else if c = fld m b Prev \<and> c \<noteq> 0 then nb else fld m c Next
     | Prev \<Rightarrow> if c = b then 0 else if c = nb then fld m b Prev
               else if c = fld m b Next \<and> c \<noteq> 0 then nb else fld m c Prev)"
    "x \<in> outside X \<Longrightarrow> fst (heap_take b k head m) x = m x"
proof -
  have X: "b \<in> X" "nb \<in> X" "fld m b Next \<noteq> 0 \<Longrightarrow> fld m b Next \<in> X" "fld m b Prev \<noteq> 0 \<Longrightarrow> fld m b Prev \<in> X"
    using X0 by auto
  have lt: "fld m b Size < 2 ^ 64" by (rule fld_less)
  have k48: "k + 48 < 18446744073709551616" using order_le_less_trans[OF k lt] by simp
  then have a: "add64 k (HDR + 16) = k + (HDR + 16)" "add64 (add64 b HDR) k = nb"
    using nb by (auto simp: add64_def)
  have sz: "sub64 (sub64 (fld m b Size) HDR) k = fld m b Size - HDR - k"
  proof -
    have "sub64 (fld m b Size) HDR = fld m b Size - HDR" using k lt by (intro sub64_nowrap) simp_all
    moreover have "sub64 (fld m b Size - HDR) k = fld m b Size - HDR - k"
      by (rule sub64_nowrap) (use k lt in linarith)+
    ultimately show ?thesis by simp
  qed
  have bn: "b \<noteq> nb" using nb by simp
  note S = fld_set[OF sep]
  have kl: "k < 18446744073709551616" "nb < 18446744073709551616" using k48 nb(2) by simp_all
  define m1 where "m1 = set_fld nb Magic HEAP_MAGIC_FREE m"
  define m2 where "m2 = set_fld nb Size (fld m b Size - HDR - k) m1"
  define m3 where "m3 = set_fld nb Next (fld m b Next) m2"
  define m4 where "m4 = set_fld nb Prev (fld m b Prev) m3"
  define m5 where "m5 = (if fld m b Next \<noteq> 0 then set_fld (fld m b Next) Prev nb m4 else m4)"
  define m6 where "m6 = (if fld m b Prev \<noteq> 0 then set_fld (fld m b Prev) Next nb m5 else m5)"
  define m7 where "m7 = set_fld b Size k m6"
  define m8 where "m8 = set_fld b Magic HEAP_MAGIC_USED m7"
  define m9 where "m9 = set_fld b Next 0 m8"
  define m10 where "m10 = set_fld b Prev 0 m9"
  note defs = m1_def m2_def m3_def m4_def m5_def m6_def m7_def m8_def m9_def m10_def
  have szl: "fld m b Size - HDR - k < 18446744073709551616" by (rule le_less_trans[OF _ word_nat_less(1)[of m b Size]]) simp
  have v1: "fld m1 c f = (if c = nb \<and> f = Magic then HEAP_MAGIC_FREE else fld m c f)" if "c \<in> X" for c f
    using X that by (auto simp: m1_def S)
  have v2: "fld m2 c f = (if c = nb \<and> f = Size then fld m b Size - HDR - k else fld m1 c f)" if "c \<in> X" for c f
    using X that szl by (auto simp: m2_def S)
  have v3: "fld m3 c f = (if c = nb \<and> f = Next then fld m b Next else fld m2 c f)" if "c \<in> X" for c f
    using X that by (auto simp: m3_def S)
  have v4: "fld m4 c f = (if c = nb \<and> f = Prev then fld m b Prev else fld m3 c f)" if "c \<in> X" for c f
    using X that by (auto simp: m4_def S)
  have v5: "fld m5 c f = (if c = fld m b Next \<and> c \<noteq> 0 \<and> f = Prev then nb else fld m4 c f)" if "c \<in> X" for c f
    using X that kl by (auto simp: m5_def S)
  have v6: "fld m6 c f = (if c = fld m b Prev \<and> c \<noteq> 0 \<and> f = Next then nb else fld m5 c f)" if "c \<in> X" for c f
    using X that kl by (auto simp: m6_def S)
  have v7: "fld m7 c f = (if c = b \<and> f = Size then k else fld m6 c f)" if "c \<in> X" for c f
    using X that kl by (auto simp: m7_def S)
  have v8: "fld m8 c f = (if c = b \<and> f = Magic then HEAP_MAGIC_USED else fld m7 c f)" if "c \<in> X" for c f
    using X that by (auto simp: m8_def S)
  have v9: "fld m9 c f = (if c = b \<and> f = Next then 0 else fld m8 c f)" if "c \<in> X" for c f
    using X that by (auto simp: m9_def S)
  have v10: "fld m10 c f = (if c = b \<and> f = Prev then 0 else fld m9 c f)" if "c \<in> X" for c f
    using X that by (auto simp: m10_def S)
  have r: "fld m1 b Size = fld m b Size" "fld m2 b Next = fld m b Next" "fld m3 b Prev = fld m b Prev"
    "fld m4 b Next = fld m b Next" "fld m5 b Prev = fld m b Prev"
    using X(1) bn ne by (auto simp: v1 v2 v3 v4 v5)
  have eq: "heap_take b k head m = (m10, if fld m b Prev \<noteq> 0 then head else nb)"
    unfolding heap_take_def using k a(1)
    by (simp only: Let_def a r sz defs [symmetric] if_True simp_thms split_conv) (auto simp: defs)
  show "snd (heap_take b k head m) = (if fld m b Prev \<noteq> 0 then head else nb)" by (simp add: eq)
  show "fld (fst (heap_take b k head m)) c f = (case f of
       Magic \<Rightarrow> if c = b then HEAP_MAGIC_USED else if c = nb then HEAP_MAGIC_FREE else fld m c Magic
     | Size \<Rightarrow> if c = b then k else if c = nb then fld m b Size - HDR - k else fld m c Size
     | Next \<Rightarrow> if c = b then 0 else if c = nb then fld m b Next
               else if c = fld m b Prev \<and> c \<noteq> 0 then nb else fld m c Next
     | Prev \<Rightarrow> if c = b then 0 else if c = nb then fld m b Prev
               else if c = fld m b Next \<and> c \<noteq> 0 then nb else fld m c Prev)" if "c \<in> X"
    using that X(1,2) bn ne unfolding eq fst_conv
    by (cases f) (simp_all add: v1 v2 v3 v4 v5 v6 v7 v8 v9 v10)
  show "fst (heap_take b k head m) x = m x" if "x \<in> outside X"
    using X that unfolding eq fst_conv by (simp add: defs set_fld_outside[of _ X])
qed

lemma take_whole_effect:
  assumes sep: "hdr_sep X" and X0: "b \<in> X" "fld m b Next \<in> insert 0 X" "fld m b Prev \<in> insert 0 X"
    and k: "fld m b Size < k + HDR + 16" "k + HDR + 16 < 2 ^ 64"
    and ne: "fld m b Next \<noteq> b" "fld m b Prev \<noteq> b"
  shows "snd (heap_take b k head m) = (if fld m b Prev \<noteq> 0 then head else fld m b Next)"
    "c \<in> X \<Longrightarrow> fld (fst (heap_take b k head m)) c f = (case f of
       Magic \<Rightarrow> if c = b then HEAP_MAGIC_USED else fld m c Magic
     | Size \<Rightarrow> fld m c Size
     | Next \<Rightarrow> if c = b then 0 else if c = fld m b Prev \<and> c \<noteq> 0 then fld m b Next else fld m c Next
     | Prev \<Rightarrow> if c = b then 0 else if c = fld m b Next \<and> c \<noteq> 0 then fld m b Prev else fld m c Prev)"
    "x \<in> outside X \<Longrightarrow> fst (heap_take b k head m) x = m x"
proof -
  have X: "b \<in> X" "fld m b Next \<noteq> 0 \<Longrightarrow> fld m b Next \<in> X" "fld m b Prev \<noteq> 0 \<Longrightarrow> fld m b Prev \<in> X"
    using X0 by auto
  have a: "\<not> add64 k (HDR + 16) \<le> fld m b Size" using k by (simp add: add64_def)
  note S = fld_set[OF sep]
  show "snd (heap_take b k head m) = (if fld m b Prev \<noteq> 0 then head else fld m b Next)"
    using a X ne by (simp add: heap_take_def Let_def S)
  show "fld (fst (heap_take b k head m)) c f = (case f of
       Magic \<Rightarrow> if c = b then HEAP_MAGIC_USED else fld m c Magic
     | Size \<Rightarrow> fld m c Size
     | Next \<Rightarrow> if c = b then 0 else if c = fld m b Prev \<and> c \<noteq> 0 then fld m b Next else fld m c Next
     | Prev \<Rightarrow> if c = b then 0 else if c = fld m b Next \<and> c \<noteq> 0 then fld m b Prev else fld m c Prev)" if "c \<in> X"
    using a X ne that
    by (cases "fld m b Next = 0"; cases "fld m b Prev = 0"; cases f) (simp_all add: heap_take_def Let_def S)
  show "fst (heap_take b k head m) x = m x" if "x \<in> outside X"
    using a X ne that by (simp add: heap_take_def Let_def S set_fld_outside[of _ X])
qed

text \<open>Pushing a block on the free list, as \<^verbatim>\<open>kfree\<close> and the extension of \<^verbatim>\<open>kmalloc\<close> do.\<close>

definition push_hdr :: "nat \<Rightarrow> nat \<Rightarrow> mem \<Rightarrow> mem" where
  "push_hdr b head m =
     (let m = set_fld b Next head m;
          m = set_fld b Prev 0 m
      in if head \<noteq> 0 then set_fld head Prev b m else m)"

lemma push_effect:
  assumes sep: "hdr_sep X" and X0: "b \<in> X" "head \<in> insert 0 X" "head \<noteq> b" "head < 2 ^ 64" "b < 2 ^ 64"
  shows "c \<in> X \<Longrightarrow> fld (push_hdr b head m) c f = (case f of
       Next \<Rightarrow> if c = b then head else fld m c Next
     | Prev \<Rightarrow> if c = b then 0 else if c = head \<and> c \<noteq> 0 then b else fld m c Prev
     | _ \<Rightarrow> fld m c f)"
    "x \<in> outside X \<Longrightarrow> push_hdr b head m x = m x"
proof -
  have X: "b \<in> X" "head \<noteq> 0 \<Longrightarrow> head \<in> X" "head \<noteq> b" "head < 2 ^ 64" "b < 2 ^ 64" using X0 by auto
  note S = fld_set[OF sep]
  have "head < 18446744073709551616" "b < 18446744073709551616" using X by simp_all
  then show "c \<in> X \<Longrightarrow> fld (push_hdr b head m) c f = (case f of
       Next \<Rightarrow> if c = b then head else fld m c Next
     | Prev \<Rightarrow> if c = b then 0 else if c = head \<and> c \<noteq> 0 then b else fld m c Prev
     | _ \<Rightarrow> fld m c f)"
    using X by (cases f) (simp_all add: push_hdr_def Let_def S)
  show "x \<in> outside X \<Longrightarrow> push_hdr b head m x = m x"
    using X by (simp add: push_hdr_def Let_def set_fld_outside[of _ X])
qed

text \<open>With no predecessor, \<^verbatim>\<open>heap_coalesce\<close> can only absorb the next block of the list.\<close>

lemma coalesce_effect:
  assumes sep: "hdr_sep X" and X: "b \<in> X" "fld m b Prev = 0"
    and n: "fld m b Next = n" "n = b + HDR + fld m b Size" "n \<noteq> 0" "n \<in> X" "fld m b Size + (HDR + fld m n Size) < 2 ^ 64"
      "n < 2 ^ 64" "b < 2 ^ 64"
    and nn0: "fld m n Next \<in> insert 0 X" "fld m n Next \<noteq> b" "fld m n Next \<noteq> n"
  shows "c \<in> X \<Longrightarrow> fld (snd (heap_coalesce b m)) c f = (case f of
       Size \<Rightarrow> if c = b then fld m b Size + (HDR + fld m n Size) else fld m c Size
     | Next \<Rightarrow> if c = b then fld m n Next else fld m c Next
     | Prev \<Rightarrow> if c = fld m n Next \<and> c \<noteq> 0 then b else fld m c Prev
     | _ \<Rightarrow> fld m c f)"
    "x \<in> outside X \<Longrightarrow> snd (heap_coalesce b m) x = m x"
proof -
  have nn: "fld m n Next \<noteq> 0 \<Longrightarrow> fld m n Next \<in> X" "fld m n Next \<noteq> b" "fld m n Next \<noteq> n" using nn0 by auto
  note S = fld_set[OF sep]
  have a: "add64 (add64 b HDR) (fld m b Size) = n" "add64 (fld m b Size) (add64 HDR (fld m n Size)) = fld m b Size + (HDR + fld m n Size)"
    using n by (auto simp: add64_def)
  have bn: "b \<noteq> n" using n(2) by simp
  have l: "fld m b Size + (HDR + fld m n Size) < 18446744073709551616" "b < 18446744073709551616" using n by simp_all
  show "fld (snd (heap_coalesce b m)) c f = (case f of
       Size \<Rightarrow> if c = b then fld m b Size + (HDR + fld m n Size) else fld m c Size
     | Next \<Rightarrow> if c = b then fld m n Next else fld m c Next
     | Prev \<Rightarrow> if c = fld m n Next \<and> c \<noteq> 0 then b else fld m c Prev
     | _ \<Rightarrow> fld m c f)" if "c \<in> X"
    using a X n(1,3,4) nn bn l that
    by (cases "fld m n Next = 0"; cases f) (simp_all add: heap_coalesce_def Let_def S)
  show "snd (heap_coalesce b m) x = m x" if "x \<in> outside X"
    using a X n(1,3,4) nn bn l that by (simp add: heap_coalesce_def Let_def S set_fld_outside[of _ X])
qed

lemma coalesce_none:
  assumes "fld m b Prev = 0" "fld m b Next = 0 \<or> add64 (add64 b HDR) (fld m b Size) \<noteq> fld m b Next"
  shows "snd (heap_coalesce b m) = m"
  using assms by (auto simp: heap_coalesce_def Let_def)

section \<open>The heap invariant\<close>

definition free_list :: "mem \<Rightarrow> nat \<Rightarrow> nat list \<Rightarrow> bool" where
  "free_list m head fl \<longleftrightarrow> distinct fl \<and> head = hd (fl @ [0]) \<and>
     links (\<lambda>b. fld m b Next) (\<lambda>b. fld m b Prev) 0 fl 0 \<and> (\<forall>b\<in>set fl. fld m b Magic = HEAP_MAGIC_FREE)"

text \<open>\<open>fl\<close> is the free list and \<open>us\<close> the set of allocated blocks (header addresses).\<close>

definition heap_blocks :: "mem \<Rightarrow> nat \<Rightarrow> nat \<Rightarrow> nat list \<Rightarrow> nat set \<Rightarrow> bool" where
  "heap_blocks m e head fl us \<longleftrightarrow> layout (\<lambda>b. fld m b Size) (set fl \<union> us) e \<and> set fl \<inter> us = {} \<and>
     free_list m head fl \<and> (\<forall>b\<in>us. fld m b Magic = HEAP_MAGIC_USED)"

definition heap_inv :: "heap \<Rightarrow> nat list \<Rightarrow> nat set \<Rightarrow> bool" where
  "heap_inv st fl us \<longleftrightarrow> g_heap_start st = HEAP_BASE \<and> g_heap_max st = HEAP_BASE + HEAP_MAX_SIZE \<and>
     g_heap_end st \<le> g_heap_max st \<and> g_heap_end st mod 4096 = 0 \<and>
     heap_blocks (hmem st) (g_heap_end st) (g_heap_free_list st) fl us"

text \<open>The blocks of \<open>us\<close> keep their size and their contents.\<close>

definition keeps :: "nat set \<Rightarrow> mem \<Rightarrow> mem \<Rightarrow> bool" where
  "keeps us m m' \<longleftrightarrow> (\<forall>u\<in>us. fld m' u Size = fld m u Size \<and>
     (\<forall>x. u + HDR \<le> x \<and> x < u + HDR + fld m u Size \<longrightarrow> m' x = m x))"

lemma keeps_refl [simp]: "keeps us m m"
  by (simp add: keeps_def)

lemma keeps_trans: "keeps us m m' \<Longrightarrow> keeps us m' m'' \<Longrightarrow> keeps us m m''"
  by (simp add: keeps_def)

lemma keeps_subset: "keeps us m m' \<Longrightarrow> vs \<subseteq> us \<Longrightarrow> keeps vs m m'"
  by (auto simp: keeps_def)

lemma layout_outside:
  assumes "layout s X e" "u \<in> X" "u + HDR \<le> x" "x < u + HDR + s u"
  shows "x \<in> outside X"
proof -
  have "x < a \<or> a + HDR \<le> x" if "a \<in> X" for a
  proof (cases "a = u")
    case False
    then have "u + HDR + s u \<le> a \<or> a + HDR + s a \<le> u" using assms(1,2) that unfolding layout_def by blast
    then show ?thesis using assms(3,4) by linarith
  qed (use assms in simp)
  then show ?thesis by (simp add: outside_def)
qed

lemma outside_mono: "X \<subseteq> Y \<Longrightarrow> outside Y \<subseteq> outside X"
  by (auto simp: outside_def)

lemma heap_blocks_bounds:
  assumes "heap_blocks m e head fl us" "b \<in> set fl \<union> us"
  shows "HEAP_BASE \<le> b" "b + HDR + fld m b Size \<le> e" "b mod 16 = 0" "b \<noteq> 0" "fld m b Size mod 16 = 0"
proof -
  show b: "HEAP_BASE \<le> b" "b + HDR + fld m b Size \<le> e" "b mod 16 = 0" "fld m b Size mod 16 = 0"
    using assms unfolding heap_blocks_def layout_def by blast+
  then show "b \<noteq> 0" by simp
qed

lemma keepsI:
  assumes L: "layout s X e" "us \<subseteq> X" "\<And>u. u \<in> us \<Longrightarrow> s u = fld m u Size"
    and f: "\<And>u. u \<in> us \<Longrightarrow> fld m' u Size = fld m u Size" "\<And>x. x \<in> outside X \<Longrightarrow> m' x = m x"
  shows "keeps us m m'"
  unfolding keeps_def using layout_outside[OF L(1)] assms by (metis subsetD)

lemma find_fit_eq:
  assumes "links (\<lambda>b. fld m b Next) pv p xs 0" "\<And>b. b \<in> set xs \<Longrightarrow> b \<noteq> 0 \<and> fld m b Magic = HEAP_MAGIC_FREE"
  shows "heap_find_fit m (hd (xs @ [0])) k =
    Some (case find (\<lambda>b. k \<le> fld m b Size) xs of Some b \<Rightarrow> Found b | None \<Rightarrow> NotFound)"
  using assms
proof (induction xs arbitrary: p)
  case Nil then show ?case by (simp add: heap_find_fit.simps)
next
  case (Cons b xs)
  then show ?case by (auto simp: heap_find_fit.simps[of m b] split: option.splits)
qed

lemma heap_find_fit_ok:
  assumes "heap_blocks m e head fl us"
  shows "heap_find_fit m head k =
    Some (case find (\<lambda>b. k \<le> fld m b Size) fl of Some b \<Rightarrow> Found b | None \<Rightarrow> NotFound)"
proof -
  have "b \<noteq> 0" if "b \<in> set fl" for b using heap_blocks_bounds(4)[OF assms] that by blast
  then show ?thesis
    using find_fit_eq[of m "\<lambda>b. fld m b Prev" 0 fl k] assms by (auto simp: heap_blocks_def free_list_def)
qed

lemma links_neighbours:
  assumes "links nx pv p (xs @ b # ys) n"
  shows "pv b = last (p # xs)" "nx b = hd (ys @ [n])"
  using assms by (auto simp: links_append)

text \<open>Taking a fitting block.\<close>

lemma take_split_blocks:
  assumes H: "heap_blocks m e head fl us" and fl: "fl = xs @ b # ys" and k: "k mod 16 = 0" "k + HDR + 16 \<le> fld m b Size"
    and e: "e < 2 ^ 64"
  defines "r \<equiv> heap_take b k head m"
  shows "heap_blocks (fst r) e (snd r) (xs @ (b + HDR + k) # ys) (insert b us)"
    "fld (fst r) b Size = k" "keeps us m (fst r)"
proof -
  let ?nb = "b + HDR + k" and ?B = "set fl \<union> us" and ?nx = "\<lambda>b. fld m b Next" and ?pv = "\<lambda>b. fld m b Prev"
  let ?X = "insert ?nb ?B"
  have L: "layout (\<lambda>b. fld m b Size) ?B e" and dj: "set fl \<inter> us = {}" and F: "free_list m head fl"
    and U: "\<forall>b\<in>us. fld m b Magic = HEAP_MAGIC_USED" using H by (auto simp: heap_blocks_def)
  have bB: "b \<in> ?B" and d: "distinct (xs @ b # ys)" and lk: "links ?nx ?pv 0 (xs @ b # ys) 0"
    and hd: "head = hd (fl @ [0])" and M: "\<forall>b\<in>set fl. fld m b Magic = HEAP_MAGIC_FREE"
    using F fl by (auto simp: free_list_def)
  note sp = layout_split[OF L bB k]
  note nbr = links_neighbours[OF lk]
  have nz: "x \<noteq> 0" if "x \<in> ?B" for x using heap_blocks_bounds(4)[OF H that] .
  have nx: "?nx b = (if ys = [] then 0 else hd ys)" and pv: "?pv b = (if xs = [] then 0 else last xs)"
    using nbr by auto
  have nxm: "ys \<noteq> [] \<Longrightarrow> hd ys \<in> ?B" and pvm: "xs \<noteq> [] \<Longrightarrow> last xs \<in> ?B" using fl by auto
  have "b + HDR + fld m b Size \<le> e" using heap_blocks_bounds[OF H bB] by simp
  then have nb64: "?nb < 2 ^ 64" using k e by linarith
  have ne: "?nx b \<noteq> b" "?pv b \<noteq> b" "?nx b \<noteq> ?nb" "?pv b \<noteq> ?nb"
    using nx pv nz[OF bB] d sp(1) nxm pvm by (auto split: if_splits)
  have sep: "hdr_sep ?X" using layout_sep[OF sp(2)] .
  have Xm: "b \<in> ?X" "?nb \<in> ?X" "?nx b \<in> insert 0 ?X" "?pv b \<in> insert 0 ?X"
    using bB nx pv nxm pvm by auto
  note E = take_split_effect[OF sep Xm refl nb64 k(2) ne(1,3,2,4), where head = head]
  have nbB: "?nb \<notin> ?B" "?nb \<noteq> b" using sp(1) by auto
  show "fld (fst r) b Size = k" using E(2)[of b Size] Xm by (simp add: r_def)
  have sizes: "fld (fst r) c Size = ((\<lambda>b. fld m b Size)(b := k, ?nb := fld m b Size - HDR - k)) c" if "c \<in> ?X" for c
    using E(2)[OF that, of Size] nbB by (simp add: r_def)
  show "keeps us m (fst r)"
  proof (rule keepsI[OF sp(2)])
    show "us \<subseteq> ?X" by auto
    fix u assume "u \<in> us"
    then have "u \<noteq> b" "u \<noteq> ?nb" "u \<in> ?X" using dj nbB fl by auto
    then show "((\<lambda>b. fld m b Size)(b := k, ?nb := fld m b Size - HDR - k)) u = fld m u Size"
      "fld (fst r) u Size = fld m u Size" using sizes[of u] by simp_all
  qed (simp add: E(3) r_def)
  have lay: "layout (\<lambda>b. fld (fst r) b Size) ?X e" by (rule layout_cong[THEN iffD2, OF _ sp(2)]) (rule sizes)
  have "links (\<lambda>b. fld (fst r) b Next) (\<lambda>b. fld (fst r) b Prev) 0 (xs @ ?nb # ys) 0"
  proof (rule links_replace[OF lk d])
    have m: "x \<in> ?X \<and> x \<noteq> b \<and> x \<noteq> ?nb \<and> x \<noteq> 0" if "x \<in> set xs \<union> set ys" for x
      using that fl d nbB nz by auto
    have l: "x \<in> set ys \<Longrightarrow> xs \<noteq> [] \<Longrightarrow> x \<noteq> last xs" "x \<in> set xs \<Longrightarrow> ys \<noteq> [] \<Longrightarrow> x \<noteq> hd ys" for x
      using d by (auto dest: last_in_set hd_in_set)
    show "?nb \<notin> set xs \<union> set ys" using nbB fl by auto
    show "fld (fst r) ?nb Next = ?nx b" "fld (fst r) ?nb Prev = ?pv b" using E(2)[of ?nb] nbB by (simp_all add: r_def)
    show "xs \<noteq> [] \<Longrightarrow> fld (fst r) (last xs) Next = ?nb"
      using E(2)[of "last xs" Next] m[of "last xs"] pv by (auto simp: r_def)
    show "fld (fst r) x Next = ?nx x" if "x \<in> set xs" "x \<noteq> last xs" for x
      using E(2)[of x Next] m[of x] that pv by (auto simp: r_def)
    show "fld (fst r) x Prev = ?pv x" if "x \<in> set xs" for x
      using E(2)[of x Prev] m[of x] that nx l[of x] by (auto simp: r_def split: if_splits)
    show "ys \<noteq> [] \<Longrightarrow> fld (fst r) (hd ys) Prev = ?nb"
      using E(2)[of "hd ys" Prev] m[of "hd ys"] nx by (auto simp: r_def)
    show "fld (fst r) x Prev = ?pv x" if "x \<in> set ys" "x \<noteq> hd ys" for x
      using E(2)[of x Prev] m[of x] that nx by (auto simp: r_def)
    show "fld (fst r) x Next = ?nx x" if "x \<in> set ys" for x
      using E(2)[of x Next] m[of x] that pv l[of x] by (auto simp: r_def split: if_splits)
  qed
  moreover have "snd r = hd ((xs @ ?nb # ys) @ [0])"
    using E(1) pv hd fl nz pvm by (cases xs) (auto simp: r_def split: if_splits)
  moreover have "\<forall>c\<in>set (xs @ ?nb # ys). fld (fst r) c Magic = HEAP_MAGIC_FREE"
    using E(2)[of _ Magic] M fl d by (auto simp: r_def)
  ultimately have "free_list (fst r) (snd r) (xs @ ?nb # ys)" using d nbB fl by (auto simp: free_list_def)
  moreover have "\<forall>c\<in>insert b us. fld (fst r) c Magic = HEAP_MAGIC_USED"
    using E(2)[of _ Magic] U bB nbB by (auto simp: r_def)
  moreover have "set (xs @ ?nb # ys) \<union> insert b us = ?X" using fl by auto
  ultimately show "heap_blocks (fst r) e (snd r) (xs @ ?nb # ys) (insert b us)"
    using lay d dj nbB fl by (auto simp: heap_blocks_def)
qed

lemma take_whole_blocks:
  assumes H: "heap_blocks m e head fl us" and fl: "fl = xs @ b # ys"
    and k: "fld m b Size < k + HDR + 16" "k + HDR + 16 < 2 ^ 64"
  defines "r \<equiv> heap_take b k head m"
  shows "heap_blocks (fst r) e (snd r) (xs @ ys) (insert b us)" "fld (fst r) b Size = fld m b Size" "keeps us m (fst r)"
proof -
  let ?X = "set fl \<union> us" and ?nx = "\<lambda>b. fld m b Next" and ?pv = "\<lambda>b. fld m b Prev"
  have L: "layout (\<lambda>b. fld m b Size) ?X e" and dj: "set fl \<inter> us = {}" and F: "free_list m head fl"
    and U: "\<forall>b\<in>us. fld m b Magic = HEAP_MAGIC_USED" using H by (auto simp: heap_blocks_def)
  have bB: "b \<in> ?X" and d: "distinct (xs @ b # ys)" and lk: "links ?nx ?pv 0 (xs @ b # ys) 0"
    and hd: "head = hd (fl @ [0])" and M: "\<forall>b\<in>set fl. fld m b Magic = HEAP_MAGIC_FREE"
    using F fl by (auto simp: free_list_def)
  note nbr = links_neighbours[OF lk]
  have nz: "x \<noteq> 0" if "x \<in> ?X" for x using heap_blocks_bounds(4)[OF H that] .
  have nx: "?nx b = (if ys = [] then 0 else hd ys)" and pv: "?pv b = (if xs = [] then 0 else last xs)"
    using nbr by auto
  have Xm: "?nx b \<in> insert 0 ?X" "?pv b \<in> insert 0 ?X" using nx pv fl by auto
  have ne: "?nx b \<noteq> b" "?pv b \<noteq> b" using nx pv nz[OF bB] d by (auto dest: last_in_set hd_in_set split: if_splits)
  note E = take_whole_effect[OF layout_sep[OF L] bB Xm k ne, where head = head]
  have sizes: "fld (fst r) c Size = fld m c Size" if "c \<in> ?X" for c using E(2)[OF that, of Size] by (simp add: r_def)
  then show "fld (fst r) b Size = fld m b Size" using bB by blast
  have out: "fst r x = m x" if "x \<in> outside ?X" for x using E(3)[OF that] by (simp add: r_def)
  show "keeps us m (fst r)" by (rule keepsI[OF L]) (auto simp: sizes out)
  have lay: "layout (\<lambda>b. fld (fst r) b Size) ?X e" by (rule layout_cong[THEN iffD2, OF _ L]) (rule sizes)
  have "links (\<lambda>b. fld (fst r) b Next) (\<lambda>b. fld (fst r) b Prev) 0 (xs @ ys) 0"
  proof (rule links_remove[OF lk d])
    have m: "x \<in> ?X \<and> x \<noteq> b \<and> x \<noteq> 0" if "x \<in> set xs \<union> set ys" for x using that fl d nz by auto
    have l: "x \<in> set ys \<Longrightarrow> xs \<noteq> [] \<Longrightarrow> x \<noteq> last xs" "x \<in> set xs \<Longrightarrow> ys \<noteq> [] \<Longrightarrow> x \<noteq> hd ys" for x
      using d by (auto dest: last_in_set hd_in_set)
    show "xs \<noteq> [] \<Longrightarrow> fld (fst r) (last xs) Next = ?nx b"
      using E(2)[of "last xs" Next] m[of "last xs"] pv by (auto simp: r_def)
    show "fld (fst r) x Next = ?nx x" if "x \<in> set xs" "x \<noteq> last xs" for x
      using E(2)[of x Next] m[of x] that pv by (auto simp: r_def)
    show "fld (fst r) x Prev = ?pv x" if "x \<in> set xs" for x
      using E(2)[of x Prev] m[of x] that nx l[of x] by (auto simp: r_def split: if_splits)
    show "ys \<noteq> [] \<Longrightarrow> fld (fst r) (hd ys) Prev = ?pv b"
      using E(2)[of "hd ys" Prev] m[of "hd ys"] nx by (auto simp: r_def)
    show "fld (fst r) x Prev = ?pv x" if "x \<in> set ys" "x \<noteq> hd ys" for x
      using E(2)[of x Prev] m[of x] that nx by (auto simp: r_def)
    show "fld (fst r) x Next = ?nx x" if "x \<in> set ys" for x
      using E(2)[of x Next] m[of x] that pv l[of x] by (auto simp: r_def split: if_splits)
  qed
  moreover have "snd r = hd ((xs @ ys) @ [0])"
    using E(1) pv nx hd fl nz by (cases xs) (auto simp: r_def split: if_splits)
  moreover have "\<forall>c\<in>set (xs @ ys). fld (fst r) c Magic = HEAP_MAGIC_FREE"
    using E(2)[of _ Magic] M fl d by (auto simp: r_def)
  ultimately have "free_list (fst r) (snd r) (xs @ ys)" using d by (auto simp: free_list_def)
  moreover have "\<forall>c\<in>insert b us. fld (fst r) c Magic = HEAP_MAGIC_USED"
    using E(2)[of _ Magic] U bB by (auto simp: r_def)
  moreover have "set (xs @ ys) \<union> insert b us = ?X" using fl by auto
  ultimately show "heap_blocks (fst r) e (snd r) (xs @ ys) (insert b us)"
    using lay d dj fl by (auto simp: heap_blocks_def)
qed

text \<open>Either way the block leaves the free list with room for the request.\<close>

lemma take_blocks:
  assumes H: "heap_blocks m e head fl us" and b: "b \<in> set fl" "k \<le> fld m b Size" and k: "k mod 16 = 0"
    and e: "e + HDR + 16 < 2 ^ 64"
  defines "r \<equiv> heap_take b k head m"
  shows "\<exists>fl'. heap_blocks (fst r) e (snd r) fl' (insert b us)" "k \<le> fld (fst r) b Size" "keeps us m (fst r)" "b \<notin> us"
proof -
  obtain xs ys where fl: "fl = xs @ b # ys" using b(1) by (meson split_list)
  have "b + HDR + fld m b Size \<le> e" using heap_blocks_bounds(2)[OF H, of b] b(1) by simp
  then have k2: "k + HDR + 16 < 2 ^ 64" and e2: "e < 2 ^ 64" using b(2) e by linarith+
  show "b \<notin> us" using H b(1) by (auto simp: heap_blocks_def)
  have "(\<exists>fl'. heap_blocks (fst r) e (snd r) fl' (insert b us)) \<and> k \<le> fld (fst r) b Size \<and> keeps us m (fst r)"
  proof (cases "k + HDR + 16 \<le> fld m b Size")
    case True
    from take_split_blocks[OF H fl k True e2] show ?thesis unfolding r_def by auto
  next
    case False
    then have "fld m b Size < k + HDR + 16" by simp
    from take_whole_blocks[OF H fl this k2] b(2) show ?thesis unfolding r_def by auto
  qed
  then show "\<exists>fl'. heap_blocks (fst r) e (snd r) fl' (insert b us)" "k \<le> fld (fst r) b Size" "keeps us m (fst r)" by auto
qed

text \<open>Pushing a block that is already part of the layout.\<close>

lemma push_blocks:
  assumes L: "layout (\<lambda>b. fld m b Size) (insert b (set fl \<union> us)) e" and e: "e < 2 ^ 64"
    and F: "free_list m head fl" and b: "b \<notin> set fl" "b \<notin> us" "set fl \<inter> us = {}" and M: "fld m b Magic = HEAP_MAGIC_FREE"
    and U: "\<forall>b\<in>us. fld m b Magic = HEAP_MAGIC_USED"
  shows "heap_blocks (push_hdr b head m) e b (b # fl) us" "keeps us m (push_hdr b head m)"
    "fld (push_hdr b head m) b Size = fld m b Size"
proof -
  let ?X = "insert b (set fl \<union> us)" and ?m = "push_hdr b head m"
  let ?nx = "\<lambda>b. fld m b Next" and ?pv = "\<lambda>b. fld m b Prev"
  have lk: "links ?nx ?pv 0 fl 0" and d: "distinct fl" and hd: "head = hd (fl @ [0])"
    and MF: "\<forall>b\<in>set fl. fld m b Magic = HEAP_MAGIC_FREE" using F by (auto simp: free_list_def)
  have lt: "x < 2 ^ 64" "x \<noteq> 0" if "x \<in> ?X" for x
  proof -
    have "HEAP_BASE \<le> x" "x + HDR + fld m x Size \<le> e" using L that unfolding layout_def by blast+
    then show "x < 2 ^ 64" "x \<noteq> 0" using e by linarith+
  qed
  have hX: "head \<in> insert 0 ?X" using hd by (cases fl) auto
  have hb: "head \<noteq> b" using hd b(1) lt(2)[of b] by (cases fl) auto
  have h64: "head < 2 ^ 64" using hX lt(1) by auto
  note E = push_effect[OF layout_sep[OF L] insertI1 hX hb h64 lt(1)[OF insertI1]]
  have sizes: "fld ?m c Size = fld m c Size" if "c \<in> ?X" for c using E(1)[OF that, of m Size] by simp
  then show "fld ?m b Size = fld m b Size" by simp
  show "keeps us m ?m" by (rule keepsI[OF L]) (auto simp: sizes E(2))
  have lay: "layout (\<lambda>b. fld ?m b Size) ?X e" by (rule layout_cong[THEN iffD2, OF _ L]) (rule sizes)
  have "links (\<lambda>b. fld ?m b Next) (\<lambda>b. fld ?m b Prev) b fl 0"
  proof (rule links_new_first[OF lk d])
    show "fl \<noteq> [] \<Longrightarrow> fld ?m (hd fl) Prev = b"
      using E(1)[of "hd fl" m Prev] hd lt(2)[of "hd fl"] b(1) by auto
    show "fld ?m x Prev = ?pv x" if "x \<in> set fl" "x \<noteq> hd fl" for x
      using E(1)[of x m Prev] that hd b(1) lt(2)[of x] by (cases fl) auto
    show "fld ?m x Next = ?nx x" if "x \<in> set fl" for x using E(1)[of x m Next] that b(1) by auto
  qed
  then have "links (\<lambda>b. fld ?m b Next) (\<lambda>b. fld ?m b Prev) 0 (b # fl) 0"
    using E(1)[of b m Next] E(1)[of b m Prev] hd by simp
  then have "free_list ?m b (b # fl)"
    using d b(1) MF M E(1)[of _ m Magic] by (auto simp: free_list_def)
  moreover have "\<forall>c\<in>us. fld ?m c Magic = HEAP_MAGIC_USED" using E(1)[of _ m Magic] U by auto
  ultimately show "heap_blocks ?m e b (b # fl) us"
    using lay b by (auto simp: heap_blocks_def)
qed

text \<open>Coalescing the freed head of the list with its list successor.\<close>

lemma coalesce_blocks:
  assumes H: "heap_blocks m e b (b # fl) us" and e: "e < 2 ^ 64"
  shows "\<exists>fl'. heap_blocks (snd (heap_coalesce b m)) e b fl' us" "keeps us m (snd (heap_coalesce b m))"
proof -
  let ?X = "insert b (set fl) \<union> us" and ?nx = "\<lambda>b. fld m b Next" and ?pv = "\<lambda>b. fld m b Prev"
  let ?m = "snd (heap_coalesce b m)"
  have L: "layout (\<lambda>b. fld m b Size) ?X e" and F: "free_list m b (b # fl)" and dj: "set (b # fl) \<inter> us = {}"
    and U: "\<forall>b\<in>us. fld m b Magic = HEAP_MAGIC_USED" using H by (auto simp: heap_blocks_def)
  have lk: "links ?nx ?pv 0 (b # fl) 0" and d: "distinct (b # fl)"
    and MF: "\<forall>b\<in>set (b # fl). fld m b Magic = HEAP_MAGIC_FREE" using F by (auto simp: free_list_def)
  have bd: "x + HDR + fld m x Size \<le> e" "x \<noteq> 0" "x < 2 ^ 64" if "x \<in> ?X" for x
  proof -
    show 1: "x + HDR + fld m x Size \<le> e" "x \<noteq> 0" using heap_blocks_bounds[OF H, of x] that by auto
    show "x < 2 ^ 64" using 1(1) e by linarith
  qed
  have pv: "?pv b = 0" and nxb: "?nx b = hd (fl @ [0])" using lk by auto
  have "(\<exists>fl'. heap_blocks ?m e b fl' us) \<and> keeps us m ?m"
  proof (cases "?nx b \<noteq> 0 \<and> add64 (add64 b HDR) (fld m b Size) = ?nx b")
    case False
    then have "?m = m" using coalesce_none[OF pv] by auto
    then show ?thesis using H by auto
  next
    case True
    then obtain n ys where fl: "fl = n # ys" using nxb by (cases fl) auto
    have nX: "n \<in> ?X" "b \<in> ?X" and nn: "?nx b = n" using fl nxb by auto
    have "b + HDR + fld m b Size < 2 ^ 64" using bd(1)[OF nX(2)] e by linarith
    then have n: "n = b + HDR + fld m b Size" using True nn by (simp add: add64_def)
    have nnx: "?nx n = hd (ys @ [0])" using lk fl by simp
    have ys: "?nx n \<in> insert 0 ?X" "?nx n \<noteq> b" "?nx n \<noteq> n"
      using nnx fl d bd(2)[OF nX(1)] bd(2)[OF nX(2)] by (cases ys; auto)+
    have sm: "fld m b Size + (HDR + fld m n Size) < 2 ^ 64"
      using bd(1)[OF nX(1)] e n heap_blocks_bounds(1)[OF H, of b] by simp
    note E = coalesce_effect[OF layout_sep[OF L] nX(2) pv nn n bd(2)[OF nX(1)] nX(1) sm bd(3)[OF nX(1)] bd(3)[OF nX(2)] ys]
    let ?Y = "insert b (set ys) \<union> us"
    have Y: "?X - {n} = ?Y" using fl d dj n by auto
    have L2: "layout ((\<lambda>b. fld m b Size)(b := fld m b Size + (HDR + fld m n Size))) ?Y e"
      using layout_merge[OF L nX(2,1) n] unfolding Y .
    have sub: "?Y \<subseteq> ?X" using fl by auto
    have sizes: "fld ?m c Size = ((\<lambda>b. fld m b Size)(b := fld m b Size + (HDR + fld m n Size))) c" if "c \<in> ?Y" for c
      using E(1)[of c Size] that sub by auto
    have lay: "layout (\<lambda>b. fld ?m b Size) ?Y e" by (rule layout_cong[THEN iffD2, OF _ L2]) (rule sizes)
    have keep: "keeps us m ?m"
    proof (rule keepsI[OF L])
      fix u assume u: "u \<in> us"
      then have "u \<noteq> b" "u \<in> ?Y" using dj by auto
      then show "fld ?m u Size = fld m u Size" using sizes[of u] by simp
    qed (auto simp: E(2))
    have ysn: "x \<in> ?X \<and> x \<noteq> b \<and> x \<noteq> n \<and> x \<noteq> 0" if "x \<in> set ys" for x using that fl d bd(2)[of x] by auto
    have "links (\<lambda>b. fld ?m b Next) (\<lambda>b. fld ?m b Prev) b ys 0"
    proof (rule links_new_first[where p = n and nx = ?nx and pv = ?pv])
      show "links ?nx ?pv n ys 0" "distinct ys" using lk d fl by auto
      show "ys \<noteq> [] \<Longrightarrow> fld ?m (hd ys) Prev = b"
        using E(1)[of "hd ys" Prev] nnx ysn[of "hd ys"] by auto
      show "fld ?m x Prev = ?pv x" if "x \<in> set ys" "x \<noteq> hd ys" for x
        using E(1)[of x Prev] nnx ysn[of x] that by (cases ys) auto
      show "fld ?m x Next = ?nx x" if "x \<in> set ys" for x using E(1)[of x Next] ysn[of x] that by auto
    qed
    then have "links (\<lambda>b. fld ?m b Next) (\<lambda>b. fld ?m b Prev) 0 (b # ys) 0"
      using E(1)[OF nX(2), of Next] E(1)[OF nX(2), of Prev] nnx pv ys by auto
    then have "free_list ?m b (b # ys)"
      using d MF fl E(1)[of _ Magic] by (auto simp: free_list_def)
    moreover have "\<forall>c\<in>us. fld ?m c Magic = HEAP_MAGIC_USED" using E(1)[of _ Magic] U by auto
    ultimately have "heap_blocks ?m e b (b # ys) us" using lay dj fl by (auto simp: heap_blocks_def)
    then show ?thesis using keep by blast
  qed
  then show "\<exists>fl'. heap_blocks ?m e b fl' us" "keeps us m ?m" by auto
qed

lemma kfree_inv:
  assumes inv: "heap_inv st fl us" and b: "b \<in> us"
  shows "\<exists>fl'. heap_inv (kfree (b + HDR) st) fl' (us - {b})" "keeps (us - {b}) (hmem st) (hmem (kfree (b + HDR) st))"
    "hvmm (kfree (b + HDR) st) = hvmm st"
proof -
  let ?m = "hmem st" and ?e = "g_heap_end st" and ?h = "g_heap_free_list st"
  have H: "heap_blocks ?m ?e ?h fl us" using inv by (simp add: heap_inv_def)
  have e: "?e < 2 ^ 64" using inv by (simp add: heap_inv_def)
  have L: "layout (\<lambda>b. fld ?m b Size) (set fl \<union> us) ?e" and dj: "set fl \<inter> us = {}" and F: "free_list ?m ?h fl"
    and U: "\<forall>b\<in>us. fld ?m b Magic = HEAP_MAGIC_USED" using H by (auto simp: heap_blocks_def)
  have lt: "b + HDR < 2 ^ 64" and bX: "b \<in> set fl \<union> us" and nz: "b \<noteq> 0"
    using heap_blocks_bounds[OF H, of b] b inv by (auto simp: heap_inv_def)
  let ?m1 = "set_fld b Magic HEAP_MAGIC_FREE ?m"
  note S = fld_set[OF layout_sep[OF L] bX]
  have s1: "fld ?m1 c Size = fld ?m c Size" if "c \<in> set fl \<union> us" for c using S[OF that] by simp
  have set_eq: "insert b (set fl \<union> (us - {b})) = set fl \<union> us" using b by auto
  have L1: "layout (\<lambda>b. fld ?m1 b Size) (insert b (set fl \<union> (us - {b}))) ?e"
    unfolding set_eq by (rule layout_cong[THEN iffD2, OF _ L]) (rule s1)
  have F1: "free_list ?m1 ?h fl"
  proof -
    have "links (\<lambda>b. fld ?m1 b Next) (\<lambda>b. fld ?m1 b Prev) 0 fl 0 \<longleftrightarrow> links (\<lambda>b. fld ?m b Next) (\<lambda>b. fld ?m b Prev) 0 fl 0"
      by (rule links_cong) (simp add: S)
    then show ?thesis using F S by (auto simp: free_list_def)
  qed
  have k1: "keeps (us - {b}) ?m ?m1"
    by (rule keepsI[OF L]) (auto simp: s1 set_fld_outside[OF bX])
  have bfl: "b \<notin> set fl" "b \<notin> us - {b}" "set fl \<inter> (us - {b}) = {}" using b dj by auto
  have M1: "fld ?m1 b Magic = HEAP_MAGIC_FREE" "\<forall>c\<in>us - {b}. fld ?m1 c Magic = HEAP_MAGIC_USED"
    using S[of _ "HEAP_MAGIC_FREE" Magic] U bX by auto
  note P = push_blocks[OF L1 e F1 bfl M1]
  note C = coalesce_blocks[OF P(1) e]
  have sb: "sub64 (b + HDR) HDR = b" using sub64_nowrap[of HDR "b + HDR"] lt by simp
  have eq: "kfree (b + HDR) st = st\<lparr>g_heap_free_list := b, hmem := snd (heap_coalesce b (push_hdr b ?h ?m1))\<rparr>"
    using U b by (simp add: kfree_def sb push_hdr_def Let_def)
  show "\<exists>fl'. heap_inv (kfree (b + HDR) st) fl' (us - {b})"
    using C(1) inv unfolding eq by (auto simp: heap_inv_def)
  show "keeps (us - {b}) ?m (hmem (kfree (b + HDR) st))"
    unfolding eq using keeps_trans[OF keeps_trans[OF k1 P(2)] C(2)] by simp
  show "hvmm (kfree (b + HDR) st) = hvmm st" unfolding eq by simp
qed

section \<open>Extending the heap\<close>

lemma heap_extend_loop_frame:
  "heap_extend_loop is st = Inr (ok, st') \<Longrightarrow> hmem st' = hmem st \<and> g_heap_start st' = g_heap_start st \<and>
     g_heap_end st' = g_heap_end st \<and> g_heap_max st' = g_heap_max st \<and> g_heap_free_list st' = g_heap_free_list st"
proof (induction "is" arbitrary: st)
  case (Cons i "is")
  then show ?case
    by (auto simp: Let_def res_bind_eq_Inr split: prod.splits if_splits dest!: Cons.IH)
qed simp

lemma vmm_wf_alloc:
  assumes wf: "vmm_wf v" and al: "pmm_alloc_page (vmm_pmm v) = (a, p')"
  shows "vmm_wf (v\<lparr>vmm_pmm := p'\<rparr>)"
proof -
  have inv: "pmm_inv 256 65536 (vmm_pmm v)" using wf by (simp add: vmm_wf_def pt_wf_def)
  have "pmm_used (vmm_pmm v) \<subseteq> pmm_used p'"
  proof (cases "a = 0")
    case True
    then have "p' = vmm_pmm v" using pmm_alloc_null[OF inv pmm_alloc_page_pages[OF al[unfolded True]]] by simp
    then show ?thesis by simp
  next
    case False then show ?thesis using pp.alloc_fresh[OF inv al] by blast
  qed
  moreover have "pmm_inv 256 65536 p'" by (rule pp.alloc_inv[OF inv al])
  ultimately have "pt_wf (v\<lparr>vmm_pmm := p'\<rparr>)"
    using wf unfolding vmm_wf_def pt_wf_def by simp (meson subsetD)
  then show ?thesis using wf by (simp add: vmm_wf_def)
qed

lemma heap_extend_loop_ok:
  assumes "vmm_wf (hvmm st)" "4 * length is \<le> pmm_avail (vmm_pmm (hvmm st))"
  shows "\<exists>st'. heap_extend_loop is st = Inr (True, st') \<and> vmm_wf (hvmm st') \<and>
    pmm_avail (vmm_pmm (hvmm st)) \<le> pmm_avail (vmm_pmm (hvmm st')) + 4 * length is"
  using assms
proof (induction "is" arbitrary: st)
  case (Cons i "is")
  have inv: "pmm_inv 256 65536 (vmm_pmm (hvmm st))" using Cons.prems by (simp add: vmm_wf_def pt_wf_def)
  have "0 < pmm_avail (vmm_pmm (hvmm st))" using Cons.prems(2) by simp
  from pp.alloc_succeeds[OF inv this] obtain pg p' where al: "pmm_alloc_page (vmm_pmm (hvmm st)) = (pg * PMM_PAGE_SIZE, p')"
    "pg * PMM_PAGE_SIZE \<noteq> 0" "Suc (pmm_avail p') = pmm_avail (vmm_pmm (hvmm st))" by metis
  let ?v = "(hvmm st)\<lparr>vmm_pmm := p'\<rparr>"
  have wf: "vmm_wf ?v" by (rule vmm_wf_alloc[OF Cons.prems(1) al(1)])
  have "3 \<le> pmm_avail (vmm_pmm ?v)" using al(3) Cons.prems(2) by simp
  from map_page_three[OF wf this] obtain v' where v': "vmm_map_page (of_nat (add64 (g_heap_end st) (i * PMM_PAGE_SIZE)))
      (of_nat (pg * PMM_PAGE_SIZE)) (PAGE_PRESENT OR PAGE_WRITABLE) ?v = Inr v'" "vmm_wf v'"
    "pmm_avail p' \<le> pmm_avail (vmm_pmm v') + 3"
    unfolding map_effect_def by fastforce
  have "vmm_wf (hvmm (st\<lparr>hvmm := v'\<rparr>))" "4 * length is \<le> pmm_avail (vmm_pmm (hvmm (st\<lparr>hvmm := v'\<rparr>)))"
    using v' al(3) Cons.prems(2) by simp_all
  from Cons.IH[OF this] v' al show ?case by (auto simp: Let_def)
qed simp

lemma heap_extend_ok:
  assumes "vmm_wf (hvmm st)" "4 * pages \<le> pmm_avail (vmm_pmm (hvmm st))"
  shows "\<exists>v. heap_extend pages st = Inr (g_heap_end st,
      st\<lparr>hvmm := v, g_heap_end := add64 (g_heap_end st) (pages * PMM_PAGE_SIZE)\<rparr>) \<and> vmm_wf v \<and>
    pmm_avail (vmm_pmm (hvmm st)) \<le> pmm_avail (vmm_pmm v) + 4 * pages"
proof -
  obtain st' where s: "heap_extend_loop [0..<pages] st = Inr (True, st')" "vmm_wf (hvmm st')"
    "pmm_avail (vmm_pmm (hvmm st)) \<le> pmm_avail (vmm_pmm (hvmm st')) + 4 * pages"
    using heap_extend_loop_ok[OF assms(1), of "[0..<pages]"] assms(2) by auto
  note f = heap_extend_loop_frame[OF s(1)]
  have "st'\<lparr>g_heap_end := x\<rparr> = st\<lparr>hvmm := hvmm st', g_heap_end := x\<rparr>" for x
    using f by (cases st; cases st') simp
  then have "heap_extend pages st = Inr (g_heap_end st,
      st\<lparr>hvmm := hvmm st', g_heap_end := add64 (g_heap_end st) (pages * PMM_PAGE_SIZE)\<rparr>)"
    using s(1) f by (simp add: heap_extend_def)
  then show ?thesis using s(2,3) by blast
qed

text \<open>Whatever pages are left, the extension touches nothing but the page tables until it has succeeded.\<close>

lemma map_page_fault: "vmm_map_page virt phys flags st = Inl f \<Longrightarrow> f = Halted"
  by (auto simp: vmm_map_page_def vmm_get_or_create_table_def Let_def split: if_splits sum.splits prod.splits)

lemma extend_loop_fault: "heap_extend_loop is st = Inl f \<Longrightarrow> f = Halted"
proof (induction "is" arbitrary: st)
  case (Cons i "is")
  then show ?case by (auto simp: Let_def res_bind_def split: prod.splits if_splits sum.splits dest: map_page_fault)
qed simp

lemma heap_extend_cases:
  "heap_extend pages st = Inl Halted \<or> (\<exists>v. heap_extend pages st = Inr (0, st\<lparr>hvmm := v\<rparr>)) \<or>
   (\<exists>v. heap_extend pages st = Inr (g_heap_end st, st\<lparr>hvmm := v, g_heap_end := add64 (g_heap_end st) (pages * PMM_PAGE_SIZE)\<rparr>))"
proof (cases "heap_extend_loop [0..<pages] st")
  case (Inl f)
  then show ?thesis using extend_loop_fault[OF Inl] by (simp add: heap_extend_def)
next
  case (Inr r)
  obtain ok st' where r: "r = (ok, st')" by (cases r)
  note f = heap_extend_loop_frame[OF Inr[unfolded r]]
  have e: "st' = st\<lparr>hvmm := hvmm st'\<rparr>" using f by (cases st; cases st') simp
  show ?thesis
  proof (cases ok)
    case True
    then have "heap_extend pages st = Inr (g_heap_end st, st'\<lparr>g_heap_end := add64 (g_heap_end st) (pages * PMM_PAGE_SIZE)\<rparr>)"
      using Inr r f by (simp add: heap_extend_def)
    then show ?thesis by (subst (asm) e) (blast intro: disjI2)
  next
    case False
    then have "heap_extend pages st = Inr (0, st')" using Inr r by (simp add: heap_extend_def)
    then show ?thesis by (subst (asm) e) blast
  qed
qed

section \<open>Allocation\<close>

lemma heap_round_props:
  assumes "0 < sz" "sz \<le> HEAP_MAX_SIZE"
  shows "heap_round sz mod 16 = 0" "sz \<le> heap_round sz" "heap_round sz \<le> sz + 15" "0 < heap_round sz"
    "heap_round (heap_round sz) = heap_round sz" "heap_round sz \<le> HEAP_MAX_SIZE"
proof -
  have r: "heap_round x = (x + 15) div 16 * 16" if "x \<le> HEAP_MAX_SIZE + 15" for x
    using that by (simp add: heap_round_def add64_nowrap Let_def minus_mod_eq_div_mult)
  have rs: "heap_round sz = (sz + 15) div 16 * 16" using r[of sz] assms by simp
  show 0: "heap_round sz mod 16 = 0" using rs assms by simp
  show 1: "sz \<le> heap_round sz" "heap_round sz \<le> sz + 15"
    using rs div_mult_mod_eq[of "sz + 15" 16] mod_less_divisor[of 16 "sz + 15"] by linarith+
  then show "0 < heap_round sz" using assms(1) by linarith
  have "(sz + 15) div 16 \<le> (HEAP_MAX_SIZE + 15) div 16" by (rule div_le_mono) (use assms in simp)
  then show le: "heap_round sz \<le> HEAP_MAX_SIZE" using rs assms by simp
  obtain q where q: "heap_round sz = 16 * q" using 0 by (metis mod_0_imp_dvd dvdE)
  then have "(16 * q + 15) div 16 = q" by simp
  then show "heap_round (heap_round sz) = heap_round sz" using r[of "heap_round sz"] le q by simp
qed


text \<open>What a successful allocation of block \<open>b\<close> gives the client.\<close>

definition alloc_effect :: "nat \<Rightarrow> nat set \<Rightarrow> heap \<Rightarrow> nat \<Rightarrow> heap \<Rightarrow> bool" where
  "alloc_effect sz us st b st' \<longleftrightarrow> (\<exists>fl'. heap_inv st' fl' (insert b us)) \<and> b \<notin> us \<and>
     sz \<le> fld (hmem st') b Size \<and> keeps us (hmem st) (hmem st')"

lemma kmalloc_found:
  assumes inv: "heap_inv st fl us" and sz: "0 < sz" "sz \<le> HEAP_MAX_SIZE"
    and f: "find (\<lambda>b. heap_round sz \<le> fld (hmem st) b Size) fl = Some b"
  shows "\<exists>st'. kmalloc sz st = Some (Inr (b + HDR, st')) \<and> hvmm st' = hvmm st \<and> g_heap_end st' = g_heap_end st \<and> alloc_effect sz us st b st'"
proof -
  let ?k = "heap_round sz" and ?m = "hmem st" and ?e = "g_heap_end st" and ?h = "g_heap_free_list st"
  note rp = heap_round_props[OF sz]
  have H: "heap_blocks ?m ?e ?h fl us" and e: "?e + HDR + 16 < 2 ^ 64" using inv by (auto simp: heap_inv_def)
  have b: "b \<in> set fl" "?k \<le> fld ?m b Size" using f by (auto simp: find_Some_iff)
  note T = take_blocks[OF H b rp(1) e]
  obtain m' h' where r: "heap_take b ?k ?h ?m = (m', h')" by fastforce
  have "b + HDR + fld ?m b Size \<le> ?e" using heap_blocks_bounds(2)[OF H, of b] b(1) by simp
  then have ab: "add64 b HDR = b + HDR" using e by (intro add64_nowrap) linarith
  have "kmalloc sz st = Some (Inr (b + HDR, st\<lparr>hmem := m', g_heap_free_list := h'\<rparr>))"
    using sz f r ab heap_find_fit_ok[OF H, of ?k] by (simp add: kmalloc.simps Let_def)
  moreover have "alloc_effect sz us st b (st\<lparr>hmem := m', g_heap_free_list := h'\<rparr>)"
    using T inv rp(2) unfolding r by (auto simp: alloc_effect_def heap_inv_def)
  ultimately show ?thesis by simp
qed

lemma push_extension_inv:
  fixes v :: vmm
  assumes inv: "heap_inv st fl us" and p: "0 < pages" "g_heap_end st + pages * PMM_PAGE_SIZE \<le> g_heap_max st"
  defines "st' \<equiv> heap_push_extension (g_heap_end st) pages
    (st\<lparr>hvmm := v, g_heap_end := g_heap_end st + pages * PMM_PAGE_SIZE\<rparr>)"
  shows "heap_inv st' (g_heap_end st # fl) us" "keeps us (hmem st) (hmem st')"
    "fld (hmem st') (g_heap_end st) Size = pages * PMM_PAGE_SIZE - HDR" "hvmm st' = v"
proof -
  let ?e = "g_heap_end st" and ?n = "pages * PMM_PAGE_SIZE" and ?m = "hmem st" and ?h = "g_heap_free_list st"
  have H: "heap_blocks ?m ?e ?h fl us" and ea: "?e mod 16 = 0" and mx: "g_heap_max st = HEAP_BASE + HEAP_MAX_SIZE"
    using inv mod_mod_cancel[of 16 4096 ?e] by (auto simp: heap_inv_def)
  have L: "layout (\<lambda>b. fld ?m b Size) (set fl \<union> us) ?e" and dj: "set fl \<inter> us = {}" and F: "free_list ?m ?h fl"
    and U: "\<forall>b\<in>us. fld ?m b Magic = HEAP_MAGIC_USED" using H by (auto simp: heap_blocks_def)
  have n: "?n mod 16 = 0" "HDR \<le> ?n" using p(1) mod_mult_right_eq[of pages PMM_PAGE_SIZE 16] by auto
  have e64: "?e + ?n < 2 ^ 64" using p(2) mx by simp
  note X = layout_extend[OF L n ea]
  let ?m1 = "set_fld ?e Size (?n - HDR) (set_fld ?e Magic HEAP_MAGIC_FREE ?m)"
  note S = fld_set[OF layout_sep[OF X(2)] insertI1]
  have lt: "?n - HDR < 18446744073709551616" using e64 by simp
  have s1: "fld ?m1 c f = (if c = ?e \<and> f = Size then ?n - HDR else if c = ?e \<and> f = Magic then HEAP_MAGIC_FREE else fld ?m c f)"
    if "c \<in> insert ?e (set fl \<union> us)" for c f using S[OF that] lt by auto
  have L1: "layout (\<lambda>b. fld ?m1 b Size) (insert ?e (set fl \<union> us)) (?e + ?n)"
    by (rule layout_cong[THEN iffD2, OF _ X(2)]) (simp add: s1)
  have ne: "c \<noteq> ?e" if "c \<in> set fl \<union> us" for c using X(1) that by auto
  have F1: "free_list ?m1 ?h fl"
  proof -
    have "links (\<lambda>b. fld ?m1 b Next) (\<lambda>b. fld ?m1 b Prev) 0 fl 0 \<longleftrightarrow> links (\<lambda>b. fld ?m b Next) (\<lambda>b. fld ?m b Prev) 0 fl 0"
      by (rule links_cong) (simp add: s1)
    then show ?thesis using F ne by (auto simp: free_list_def s1)
  qed
  have fresh: "?e \<notin> set fl" "?e \<notin> us" using X(1) by auto
  have M1: "fld ?m1 ?e Magic = HEAP_MAGIC_FREE" "\<forall>c\<in>us. fld ?m1 c Magic = HEAP_MAGIC_USED"
    using U fresh by (auto simp: s1)
  note P = push_blocks[OF L1 e64 F1 fresh dj M1]
  have k1: "keeps us ?m ?m1"
  proof (rule keepsI[OF X(2)])
    fix u assume "u \<in> us"
    then have "u \<noteq> ?e" "u \<in> insert ?e (set fl \<union> us)" using fresh by auto
    then show "((\<lambda>b. fld ?m b Size)(?e := ?n - HDR)) u = fld ?m u Size" "fld ?m1 u Size = fld ?m u Size"
      by (simp_all add: s1)
  qed (auto simp: set_fld_outside[OF insertI1])
  have sz: "sub64 (?n mod 2 ^ 64) HDR = ?n - HDR" using n(2) e64 sub64_nowrap[of HDR ?n] by simp
  have eq: "st' = st\<lparr>hvmm := v, g_heap_end := ?e + ?n, hmem := push_hdr ?e ?h ?m1, g_heap_free_list := ?e\<rparr>"
    unfolding st'_def heap_push_extension_def push_hdr_def Let_def sz by simp
  show "heap_inv st' (?e # fl) us"
    using P(1) inv p(2) mx unfolding eq heap_inv_def
    by (simp add: mod_add_eq[symmetric, of ?e])
  show "keeps us ?m (hmem st')" unfolding eq using keeps_trans[OF k1 P(2)] by simp
  show "fld (hmem st') ?e Size = ?n - HDR" "hvmm st' = v" unfolding eq using P(3) by (simp_all add: s1)
qed

definition heap_pages :: "nat \<Rightarrow> nat" where
  "heap_pages sz = (heap_round sz + HDR + (PMM_PAGE_SIZE - 1)) div PMM_PAGE_SIZE"

lemma heap_pages_fit:
  "heap_round sz \<le> heap_pages sz * PMM_PAGE_SIZE - HDR" "0 < heap_pages sz"
  "heap_pages sz * PMM_PAGE_SIZE \<le> heap_round sz + HDR + PMM_PAGE_SIZE"
  using div_mult_mod_eq[of "heap_round sz + HDR + (PMM_PAGE_SIZE - 1)" PMM_PAGE_SIZE]
    mod_less_divisor[of PMM_PAGE_SIZE "heap_round sz + HDR + (PMM_PAGE_SIZE - 1)"]
  unfolding heap_pages_def by (linarith, simp, linarith)

text \<open>The search of the free list, and what follows when it finds nothing.\<close>

lemma kmalloc_not_found:
  assumes inv: "heap_inv st fl us" and sz: "0 < sz" "sz \<le> HEAP_MAX_SIZE"
    and none: "\<forall>b\<in>set fl. fld (hmem st) b Size < heap_round sz"
  shows "kmalloc sz st =
      (if g_heap_max st < g_heap_end st + heap_pages sz * PMM_PAGE_SIZE then Some (Inr (0, st))
       else case heap_extend (heap_pages sz) st of Inl f \<Rightarrow> Some (Inl f)
         | Inr (e, st') \<Rightarrow> if e = 0 then Some (Inr (0, st'))
             else kmalloc (heap_round sz) (heap_push_extension e (heap_pages sz) st'))"
    "add64 (g_heap_end st) (heap_pages sz * PMM_PAGE_SIZE) = g_heap_end st + heap_pages sz * PMM_PAGE_SIZE"
proof -
  let ?k = "heap_round sz" and ?e = "g_heap_end st" and ?n = "heap_pages sz * PMM_PAGE_SIZE"
  note rp = heap_round_props[OF sz]
  have H: "heap_blocks (hmem st) ?e (g_heap_free_list st) fl us" and e: "?e \<le> HEAP_BASE + HEAP_MAX_SIZE"
    using inv by (auto simp: heap_inv_def)
  have "find (\<lambda>b. ?k \<le> fld (hmem st) b Size) fl = None" using none by (auto simp: find_None_iff)
  then have fit: "heap_find_fit (hmem st) (g_heap_free_list st) ?k = Some NotFound" using heap_find_fit_ok[OF H, of ?k] by simp
  have pg: "add64 (add64 ?k HDR) (PMM_PAGE_SIZE - 1) div PMM_PAGE_SIZE = heap_pages sz"
    using rp(6) by (simp add: heap_pages_def add64_nowrap)
  show en: "add64 ?e ?n = ?e + ?n" using e heap_pages_fit(3)[of sz] rp(6) by (intro add64_nowrap) simp
  show "kmalloc sz st = (if g_heap_max st < ?e + ?n then Some (Inr (0, st))
       else case heap_extend (heap_pages sz) st of Inl f \<Rightarrow> Some (Inl f)
         | Inr (e, st') \<Rightarrow> if e = 0 then Some (Inr (0, st')) else kmalloc ?k (heap_push_extension e (heap_pages sz) st'))"
    using sz fit pg en by (subst kmalloc.simps) (simp add: Let_def split: sum.split prod.split)
qed

text \<open>After a successful extension the request is served from the new block.\<close>

lemma kmalloc_extended:
  assumes inv: "heap_inv st fl us" and sz: "0 < sz" "sz \<le> HEAP_MAX_SIZE"
    and none: "\<forall>b\<in>set fl. fld (hmem st) b Size < heap_round sz"
    and room: "g_heap_end st + heap_pages sz * PMM_PAGE_SIZE \<le> g_heap_max st"
    and v: "heap_extend (heap_pages sz) st = Inr (g_heap_end st,
      st\<lparr>hvmm := v, g_heap_end := add64 (g_heap_end st) (heap_pages sz * PMM_PAGE_SIZE)\<rparr>)"
  shows "\<exists>st'. kmalloc sz st = Some (Inr (g_heap_end st + HDR, st')) \<and> alloc_effect sz us st (g_heap_end st) st' \<and> hvmm st' = v"
proof -
  let ?k = "heap_round sz" and ?e = "g_heap_end st" and ?n = "heap_pages sz * PMM_PAGE_SIZE"
  note rp = heap_round_props[OF sz] and N = kmalloc_not_found[OF inv sz none]
  let ?st = "heap_push_extension ?e (heap_pages sz) (st\<lparr>hvmm := v, g_heap_end := ?e + ?n\<rparr>)"
  note P = push_extension_inv[OF inv heap_pages_fit(2) room, of v]
  have enz: "?e \<noteq> 0" using inv unfolding heap_inv_def heap_blocks_def layout_def by auto
  have step: "kmalloc sz st = kmalloc ?k ?st" using N room v enz by simp
  have "find (\<lambda>b. heap_round ?k \<le> fld (hmem ?st) b Size) (?e # fl) = Some ?e"
    using P(3) heap_pages_fit(1)[of sz] rp(5) by simp
  from kmalloc_found[OF P(1) rp(4,6) this] obtain st' where
    s: "kmalloc ?k ?st = Some (Inr (?e + HDR, st'))" "hvmm st' = hvmm ?st" "alloc_effect ?k us ?st ?e st'" by blast
  have "alloc_effect sz us st ?e st'"
    using s(3) rp(2) keeps_trans[OF P(2)] unfolding alloc_effect_def by auto
  then show ?thesis using step s(1,2) P(4) by auto
qed

lemma kmalloc_cases:
  assumes inv: "heap_inv st fl us" and wf: "vmm_wf (hvmm st)" and sz: "0 < sz" "sz \<le> HEAP_MAX_SIZE"
    and av: "4 * heap_pages sz \<le> pmm_avail (vmm_pmm (hvmm st))"
  shows "(kmalloc sz st = Some (Inr (0, st)) \<and> (\<forall>b\<in>set fl. fld (hmem st) b Size < heap_round sz) \<and>
      g_heap_max st < g_heap_end st + heap_pages sz * PMM_PAGE_SIZE) \<or>
    (\<exists>b st'. kmalloc sz st = Some (Inr (b + HDR, st')) \<and> alloc_effect sz us st b st' \<and> vmm_wf (hvmm st'))"
proof (cases "find (\<lambda>b. heap_round sz \<le> fld (hmem st) b Size) fl")
  case (Some b)
  from kmalloc_found[OF inv sz this] wf show ?thesis by auto
next
  case None
  then have small: "\<forall>b\<in>set fl. fld (hmem st) b Size < heap_round sz" by (auto simp: find_None_iff)
  show ?thesis
  proof (cases "g_heap_max st < g_heap_end st + heap_pages sz * PMM_PAGE_SIZE")
    case True
    then show ?thesis using small kmalloc_not_found(1)[OF inv sz small] by simp
  next
    case False
    then have room: "g_heap_end st + heap_pages sz * PMM_PAGE_SIZE \<le> g_heap_max st" by simp
    obtain v where v: "heap_extend (heap_pages sz) st = Inr (g_heap_end st,
        st\<lparr>hvmm := v, g_heap_end := add64 (g_heap_end st) (heap_pages sz * PMM_PAGE_SIZE)\<rparr>)" "vmm_wf v"
      using heap_extend_ok[OF wf av] by blast
    from kmalloc_extended[OF inv sz small room v(1)] v(2) show ?thesis by blast
  qed
qed

text \<open>
  A request that cannot be served: no free block is large enough, and either the heap limit forbids the
  extension or fewer than four pages per page of the extension are left (one for the data, up to three for tables).
\<close>

definition heap_full :: "nat \<Rightarrow> nat list \<Rightarrow> heap \<Rightarrow> bool" where
  "heap_full sz fl st \<longleftrightarrow> (\<forall>b\<in>set fl. fld (hmem st) b Size < heap_round sz) \<and>
     (g_heap_max st < g_heap_end st + heap_pages sz * PMM_PAGE_SIZE \<or> pmm_avail (vmm_pmm (hvmm st)) < 4 * heap_pages sz)"

lemma kmalloc_any:
  assumes inv: "heap_inv st fl us" and wf: "vmm_wf (hvmm st)" and sz: "0 < sz" "sz \<le> HEAP_MAX_SIZE"
  shows "(\<exists>b st'. kmalloc sz st = Some (Inr (b + HDR, st')) \<and> alloc_effect sz us st b st') \<or>
    heap_full sz fl st \<and> (kmalloc sz st = Some (Inl Halted) \<or> (\<exists>v. kmalloc sz st = Some (Inr (0, st\<lparr>hvmm := v\<rparr>))))"
proof (cases "4 * heap_pages sz \<le> pmm_avail (vmm_pmm (hvmm st))")
  case True
  have "st = st\<lparr>hvmm := hvmm st\<rparr>" by simp
  then show ?thesis using kmalloc_cases[OF inv wf sz True] unfolding heap_full_def by metis
next
  case few: False
  show ?thesis
  proof (cases "find (\<lambda>b. heap_round sz \<le> fld (hmem st) b Size) fl")
    case (Some b)
    from kmalloc_found[OF inv sz this] show ?thesis by blast
  next
    case None
    then have small: "\<forall>b\<in>set fl. fld (hmem st) b Size < heap_round sz" by (auto simp: find_None_iff)
    then have full: "heap_full sz fl st" using few by (simp add: heap_full_def)
    have st: "st = st\<lparr>hvmm := hvmm st\<rparr>" by simp
    note N = kmalloc_not_found(1)[OF inv sz small]
    show ?thesis
    proof (cases "g_heap_max st < g_heap_end st + heap_pages sz * PMM_PAGE_SIZE")
      case True
      then have "kmalloc sz st = Some (Inr (0, st\<lparr>hvmm := hvmm st\<rparr>))" using N by simp
      then show ?thesis using full by blast
    next
      case False
      then have room: "g_heap_end st + heap_pages sz * PMM_PAGE_SIZE \<le> g_heap_max st" by simp
      from heap_extend_cases[of "heap_pages sz" st] show ?thesis
      proof (elim disjE exE)
        assume "heap_extend (heap_pages sz) st = Inl Halted"
        then show ?thesis using N False full by simp
      next
        fix v assume "heap_extend (heap_pages sz) st = Inr (0, st\<lparr>hvmm := v\<rparr>)"
        then show ?thesis using N False full by auto
      next
        fix v assume "heap_extend (heap_pages sz) st = Inr (g_heap_end st,
          st\<lparr>hvmm := v, g_heap_end := add64 (g_heap_end st) (heap_pages sz * PMM_PAGE_SIZE)\<rparr>)"
        from kmalloc_extended[OF inv sz small room this] show ?thesis by blast
      qed
    qed
  qed
qed

text \<open>A client that writes inside a block it owns disturbs nothing else.\<close>

lemma fld_cong_outside:
  assumes "hdr_sep X" "b \<in> X" "\<And>x. m' x \<noteq> m x \<Longrightarrow> x \<in> outside X"
  shows "fld m' b f = fld m b f"
  unfolding fld_def
proof (rule arg_cong[of _ _ unat], rule read_cong_u64)
  fix k :: nat assume "k < 8"
  then have "b + field_offset f + k \<notin> outside X" using assms(2) field_offset_le[of f] by (auto simp: outside_def intro!: bexI[of _ b])
  then show "m' (b + field_offset f + k) = m (b + field_offset f + k)" using assms(3) by blast
qed

lemma heap_inv_payload:
  assumes inv: "heap_inv st fl us" and b: "b \<in> us"
    and w0: "\<forall>x. m' x \<noteq> hmem st x \<longrightarrow> b + HDR \<le> x \<and> x < b + HDR + fld (hmem st) b Size"
  shows "heap_inv (st\<lparr>hmem := m'\<rparr>) fl us" "keeps (us - {b}) (hmem st) m'" "fld m' b Size = fld (hmem st) b Size"
proof -
  let ?m = "hmem st" and ?X = "set fl \<union> us"
  note w = w0[rule_format]
  have L: "layout (\<lambda>b. fld ?m b Size) ?X (g_heap_end st)" using inv by (auto simp: heap_inv_def heap_blocks_def)
  have bX: "b \<in> ?X" using b by simp
  have out: "x \<in> outside ?X" if "m' x \<noteq> ?m x" for x using layout_outside[OF L bX] w[OF that] by blast
  have f: "fld m' c f = fld ?m c f" if "c \<in> ?X" for c f using fld_cong_outside[OF layout_sep[OF L] that out] .
  then show "fld m' b Size = fld ?m b Size" using bX by blast
  have "layout (\<lambda>b. fld m' b Size) ?X (g_heap_end st)" by (rule layout_cong[THEN iffD2, OF _ L]) (rule f)
  moreover have "links (\<lambda>b. fld m' b Next) (\<lambda>b. fld m' b Prev) 0 fl 0 \<longleftrightarrow> links (\<lambda>b. fld ?m b Next) (\<lambda>b. fld ?m b Prev) 0 fl 0"
    by (rule links_cong) (simp add: f)
  ultimately show "heap_inv (st\<lparr>hmem := m'\<rparr>) fl us"
    using inv f by (auto simp: heap_inv_def heap_blocks_def free_list_def)
  show "keeps (us - {b}) ?m m'"
    unfolding keeps_def
  proof (intro ballI conjI allI impI)
    fix u assume u: "u \<in> us - {b}"
    then show "fld m' u Size = fld ?m u Size" using f by simp
    fix x assume x: "u + HDR \<le> x \<and> x < u + HDR + fld ?m u Size"
    have "u + HDR + fld ?m u Size \<le> b \<or> b + HDR + fld ?m b Size \<le> u"
      using L u bX unfolding layout_def by blast
    then show "m' x = ?m x" using w[of x] x by fastforce
  qed
qed

lemma layout_disjoint:
  "layout s B e \<Longrightarrow> b \<in> B \<Longrightarrow> c \<in> B \<Longrightarrow> b \<noteq> c \<Longrightarrow> b + HDR + s b \<le> c \<or> c + HDR + s c \<le> b"
  by (simp add: layout_def)

section \<open>Initialisation and client steps\<close>

lemma heap_init_ok:
  assumes "vmm_wf (hvmm st)" "2048 \<le> pmm_avail (vmm_pmm (hvmm st))"
  shows "\<exists>st'. heap_init st = Inr st' \<and> heap_inv st' [HEAP_BASE] {} \<and> vmm_wf (hvmm st') \<and>
    pmm_avail (vmm_pmm (hvmm st)) \<le> pmm_avail (vmm_pmm (hvmm st')) + 2048 \<and>
    g_heap_end st' = HEAP_BASE + HEAP_INITIAL_SIZE"
proof -
  let ?s = "st\<lparr>g_heap_start := HEAP_BASE, g_heap_end := HEAP_BASE, g_heap_max := HEAP_BASE + HEAP_MAX_SIZE\<rparr>"
  let ?e = "HEAP_BASE + HEAP_INITIAL_SIZE"
  have "vmm_wf (hvmm ?s)" "4 * (512::nat) \<le> pmm_avail (vmm_pmm (hvmm ?s))" using assms by simp_all
  from heap_extend_ok[OF this] obtain v where v: "heap_extend 512 ?s = Inr (g_heap_end ?s,
      ?s\<lparr>hvmm := v, g_heap_end := add64 (g_heap_end ?s) (512 * PMM_PAGE_SIZE)\<rparr>)" "vmm_wf v"
    "pmm_avail (vmm_pmm (hvmm st)) \<le> pmm_avail (vmm_pmm v) + 2048" by auto
  have ae: "add64 HEAP_BASE (512 * PMM_PAGE_SIZE) = ?e" by (simp add: add64_def)
  have sep: "hdr_sep {HEAP_BASE}" by (simp add: hdr_sep_def)
  define m where "m = set_fld HEAP_BASE Prev 0 (set_fld HEAP_BASE Next 0
    (set_fld HEAP_BASE Size (HEAP_INITIAL_SIZE - HDR) (set_fld HEAP_BASE Magic HEAP_MAGIC_FREE (hmem st))))"
  have f: "fld m HEAP_BASE Magic = HEAP_MAGIC_FREE" "fld m HEAP_BASE Size = HEAP_INITIAL_SIZE - HDR"
    "fld m HEAP_BASE Next = 0" "fld m HEAP_BASE Prev = 0"
    using fld_set[OF sep] by (simp_all add: m_def)
  have "heap_init st = Inr (st\<lparr>g_heap_start := HEAP_BASE, g_heap_end := ?e, g_heap_max := HEAP_BASE + HEAP_MAX_SIZE,
      hvmm := v, g_heap_free_list := HEAP_BASE, hmem := m\<rparr>)" (is "_ = Inr ?st'")
    using v(1) ae by (simp add: heap_init_def Let_def m_def)
  moreover have "heap_inv ?st' [HEAP_BASE] {}"
    using f by (simp add: heap_inv_def heap_blocks_def layout_def free_list_def)
  ultimately show ?thesis using v(2,3) by auto
qed

text \<open>
  A client state: the heap and the set of blocks handed out. Clients free and reallocate
  only what they own and write only inside it.
\<close>

inductive heap_step :: "heap \<times> nat set \<Rightarrow> heap \<times> nat set \<Rightarrow> bool" where
  malloc: "kmalloc sz st = Some (Inr (p, st')) \<Longrightarrow> 0 < sz \<Longrightarrow> sz \<le> HEAP_MAX_SIZE \<Longrightarrow>
     4 * heap_pages sz \<le> pmm_avail (vmm_pmm (hvmm st)) \<Longrightarrow>
     heap_step (st, us) (st', if p = 0 then us else insert (p - HDR) us)"
| free: "b \<in> us \<Longrightarrow> heap_step (st, us) (kfree (b + HDR) st, us - {b})"
| store: "b \<in> us \<Longrightarrow> b + HDR \<le> x \<Longrightarrow> x < b + HDR + fld (hmem st) b Size \<Longrightarrow>
     heap_step (st, us) (st\<lparr>hmem := (hmem st)(x := v)\<rparr>, us)"

inductive heap_reachable :: "heap \<Rightarrow> heap \<times> nat set \<Rightarrow> bool" for img where
  init: "heap_init img = Inr st \<Longrightarrow> heap_reachable img (st, {})"
| step: "heap_reachable img s \<Longrightarrow> heap_step s t \<Longrightarrow> heap_reachable img t"

inductive_cases heap_stepE: "heap_step (st, us) t"

lemma heap_step_inv:
  assumes "heap_step s t" "\<exists>fl. heap_inv (fst s) fl (snd s)" "vmm_wf (hvmm (fst s))"
  shows "(\<exists>fl. heap_inv (fst t) fl (snd t)) \<and> vmm_wf (hvmm (fst t))"
  using assms
proof (induction rule: heap_step.induct)
  case (malloc sz st p st' us)
  then obtain fl where inv: "heap_inv st fl us" by auto
  have wf: "vmm_wf (hvmm st)" using malloc by simp
  from kmalloc_cases[OF inv wf malloc(2,3,4)] malloc(1) inv wf show ?case
    by (auto simp: alloc_effect_def)
next
  case (free b us st)
  then show ?case using kfree_inv[of st _ us b] by auto
next
  case (store b us x st v)
  then obtain fl where inv: "heap_inv st fl us" by auto
  have "heap_inv (st\<lparr>hmem := (hmem st)(x := v)\<rparr>) fl us"
    by (rule heap_inv_payload(1)[OF inv store(1)]) (use store in \<open>auto split: if_splits\<close>)
  then show ?case using store by auto
qed

lemma heap_reachable_inv:
  assumes "heap_reachable img s" "vmm_wf (hvmm img)" "2048 \<le> pmm_avail (vmm_pmm (hvmm img))"
  shows "(\<exists>fl. heap_inv (fst s) fl (snd s)) \<and> vmm_wf (hvmm (fst s))"
  using assms(1)
proof (induction rule: heap_reachable.induct)
  case (init st)
  moreover obtain st' where "heap_init img = Inr st'" "heap_inv st' [HEAP_BASE] {}" "vmm_wf (hvmm st')"
    using heap_init_ok[OF assms(2,3)] by blast
  ultimately show ?case by auto
next
  case (step s t) then show ?case using heap_step_inv by blast
qed

lemma ksize_block:
  assumes inv: "heap_inv st fl us" and u: "u \<in> us"
  shows "ksize (u + HDR) st = fld (hmem st) u Size" "sub64 (u + HDR) HDR = u"
proof -
  have H: "heap_blocks (hmem st) (g_heap_end st) (g_heap_free_list st) fl us" and e: "g_heap_end st < 2 ^ 64"
    using inv by (auto simp: heap_inv_def)
  have "u + HDR + fld (hmem st) u Size \<le> g_heap_end st" using heap_blocks_bounds(2)[OF H, of u] u by simp
  then show s: "sub64 (u + HDR) HDR = u" using e sub64_nowrap[of HDR "u + HDR"] by linarith
  show "ksize (u + HDR) st = fld (hmem st) u Size" using H u s by (auto simp: ksize_def heap_blocks_def)
qed




text \<open>
  C5 (kfree_restores): freeing an owned block takes it out of the allocated set, keeps every other block's
  size and bytes, keeps the heap consistent, and a second free of the same pointer changes
  nothing.
\<close>

theorem kfree_restores:
  assumes reach: "heap_reachable img (st, us)" "vmm_wf (hvmm img)" "2048 \<le> pmm_avail (vmm_pmm (hvmm img))"
    and b: "b \<in> us"
  shows "(\<exists>fl. heap_inv (kfree (b + HDR) st) fl (us - {b})) \<and>
    keeps (us - {b}) (hmem st) (hmem (kfree (b + HDR) st)) \<and>
    kfree (b + HDR) (kfree (b + HDR) st) = kfree (b + HDR) st"
proof -
  obtain fl where inv: "heap_inv st fl us" using heap_reachable_inv[OF reach] by auto
  note k = kfree_inv[OF inv b] and sb = ksize_block(2)[OF inv b]
  obtain fl' where inv': "heap_inv (kfree (b + HDR) st) fl' (us - {b})" using k(1) by blast
  have H: "heap_blocks (hmem st) (g_heap_end st) (g_heap_free_list st) fl us" using inv by (simp add: heap_inv_def)
  have head: "g_heap_free_list (kfree (b + HDR) st) = b"
    using H b sb by (simp add: kfree_def Let_def heap_blocks_def)
  have "b \<noteq> 0" using heap_blocks_bounds(4)[OF H, of b] b by simp
  then have "b \<in> set fl'" using inv' head by (cases fl') (auto simp: heap_inv_def heap_blocks_def free_list_def)
  then have "fld (hmem (kfree (b + HDR) st)) b Magic = HEAP_MAGIC_FREE"
    using inv' by (auto simp: heap_inv_def heap_blocks_def free_list_def)
  then have "kfree (b + HDR) (kfree (b + HDR) st) = kfree (b + HDR) st"
    using sb by (simp add: kfree_def[of _ "kfree (b + HDR) st"])
  then show ?thesis using k by blast
qed

section \<open>\<^verbatim>\<open>krealloc\<close> and \<^verbatim>\<open>kzalloc\<close>\<close>

lemma copy_fold:
  assumes "d + n \<le> s \<or> s + n \<le> d"
  shows "fold (\<lambda>i m. m(d + i := m (s + i))) [0..<n] m x = (if d \<le> x \<and> x < d + n then m (s + (x - d)) else m x)"
  using assms
proof (induction n arbitrary: x)
  case (Suc n)
  let ?f = "\<lambda>i m. m(d + i := m (s + i))"
  have IH: "fold ?f [0..<n] m x = (if d \<le> x \<and> x < d + n then m (s + (x - d)) else m x)" for x
    by (rule Suc.IH) (use Suc.prems in linarith)
  have "fold ?f [0..<n] m (s + n) = m (s + n)" unfolding IH using Suc.prems by auto
  then have "fold ?f [0..<Suc n] m = (fold ?f [0..<n] m)(d + n := m (s + n))" by (simp del: fun_upd_apply)
  then have "fold ?f [0..<Suc n] m x = (if x = d + n then m (s + n) else fold ?f [0..<n] m x)"
    by (simp only: fun_upd_apply)
  also have "\<dots> = (if d \<le> x \<and> x < d + Suc n then m (s + (x - d)) else m x)" unfolding IH by auto
  finally show ?case .
qed auto

lemma keepsD:
  assumes "keeps us m m'" "u \<in> us"
  shows "fld m' u Size = fld m u Size" "u + HDR \<le> x \<Longrightarrow> x < u + HDR + fld m u Size \<Longrightarrow> m' x = m x"
  using assms by (simp_all add: keeps_def)

lemma krealloc_grow:
  assumes inv: "heap_inv st fl us" and wf: "vmm_wf (hvmm st)" and b: "b \<in> us"
    and n: "fld (hmem st) b Size < n" and k: "kmalloc n st = Some (Inr (c + HDR, st1))" "alloc_effect n us st c st1"
  shows "\<exists>st'. krealloc (b + HDR) n st = Some (Inr (c + HDR, st')) \<and> (\<exists>fl'. heap_inv st' fl' (insert c (us - {b}))) \<and>
    n \<le> ksize (c + HDR) st' \<and> keeps (us - {b}) (hmem st) (hmem st') \<and>
    (\<forall>i < fld (hmem st) b Size. hmem st' (c + HDR + i) = hmem st (b + HDR + i)) \<and> hvmm st' = hvmm st1"
proof -
  let ?m = "hmem st" and ?sz = "fld (hmem st) b Size"
  obtain fl1 where i1: "heap_inv st1 fl1 (insert c us)" and new: "c \<notin> us" and le: "n \<le> fld (hmem st1) c Size"
    and kp: "keeps us ?m (hmem st1)" using k(2) by (auto simp: alloc_effect_def)
  have cb: "c \<noteq> b" using new b by auto
  have s1: "fld (hmem st1) b Size = ?sz" using kp b by (simp add: keeps_def)
  have L1: "layout (\<lambda>b. fld (hmem st1) b Size) (set fl1 \<union> insert c us) (g_heap_end st1)"
    using i1 by (simp add: heap_inv_def heap_blocks_def)
  have dis: "c + HDR + fld (hmem st1) c Size \<le> b \<or> b + HDR + ?sz \<le> c"
    using layout_disjoint[OF L1, of c b] b cb s1 by auto
  define m2 where "m2 = fold (\<lambda>i m. m(c + HDR + i := m (b + HDR + i))) [0..<?sz] (hmem st1)"
  have m2: "m2 x = (if c + HDR \<le> x \<and> x < c + HDR + ?sz then hmem st1 (b + HDR + (x - (c + HDR))) else hmem st1 x)" for x
    unfolding m2_def using dis n le by (intro copy_fold) linarith
  have w: "\<forall>x. m2 x \<noteq> hmem st1 x \<longrightarrow> c + HDR \<le> x \<and> x < c + HDR + fld (hmem st1) c Size"
    using m2 n le by auto
  note P = heap_inv_payload[OF i1 insertI1 w]
  let ?st2 = "st1\<lparr>hmem := m2\<rparr>"
  have bi: "b \<in> insert c us" using b by simp
  note K = kfree_inv[OF P(1) bi]
  have us: "insert c us - {b} = insert c (us - {b})" using cb by auto
  let ?st' = "kfree (b + HDR) ?st2"
  have sb: "sub64 (b + HDR) HDR = b" by (rule ksize_block(2)[OF inv b])
  have nz: "b + HDR \<noteq> 0" "n \<noteq> 0" using n by auto
  have mg: "fld ?m b Magic = HEAP_MAGIC_USED" using inv b by (auto simp: heap_inv_def heap_blocks_def)
  have r: "krealloc (b + HDR) n st = Some (Inr (c + HDR, ?st'))"
    using k(1) n nz mg by (simp add: krealloc_def sb s1 m2_def Let_def)
  have kc: "keeps (insert c us - {b}) m2 (hmem ?st')" using K(2) by simp
  have kall: "keeps (us - {b}) ?m (hmem ?st')"
  proof -
    have 1: "keeps (us - {b}) ?m (hmem st1)" by (rule keeps_subset[OF kp]) auto
    have 2: "keeps (us - {b}) (hmem st1) m2" by (rule keeps_subset[OF P(2)]) (use new in auto)
    have 3: "keeps (us - {b}) m2 (hmem ?st')" by (rule keeps_subset[OF kc]) auto
    show ?thesis by (rule keeps_trans[OF keeps_trans[OF 1 2] 3])
  qed
  have cs: "fld (hmem ?st') c Size = fld (hmem st1) c Size" using keepsD(1)[OF kc, of c] cb P(3) by simp
  obtain fl' where i': "heap_inv ?st' fl' (insert c (us - {b}))" using K(1) us by auto
  have ks: "n \<le> ksize (c + HDR) ?st'" using ksize_block(1)[OF i' insertI1] cs le by simp
  have bytes: "hmem ?st' (c + HDR + i) = ?m (b + HDR + i)" if i: "i < ?sz" for i
  proof -
    have "hmem ?st' (c + HDR + i) = m2 (c + HDR + i)"
      by (rule keepsD(2)[OF kc, where u = c]) (use cb P(3) le n i in simp_all)
    also have "\<dots> = hmem st1 (b + HDR + i)" using i by (simp add: m2)
    also have "\<dots> = ?m (b + HDR + i)" by (rule keepsD(2)[OF kp b]) (use i in simp_all)
    finally show ?thesis .
  qed
  have "hvmm ?st' = hvmm st1" using K(3) by simp
  then show ?thesis using r i' ks kall bytes by blast
qed

lemma krealloc_effect:
  assumes inv: "heap_inv st fl us" and wf: "vmm_wf (hvmm st)" and b: "b \<in> us"
    and n: "0 < n" "n \<le> HEAP_MAX_SIZE" "4 * heap_pages n \<le> pmm_avail (vmm_pmm (hvmm st))"
  shows "krealloc (b + HDR) n st = Some (Inr (0, st)) \<or>
    (\<exists>c st' fl'. krealloc (b + HDR) n st = Some (Inr (c + HDR, st')) \<and> (c \<in> us \<longrightarrow> c = b) \<and> heap_inv st' fl' (insert c (us - {b})) \<and>
       n \<le> fld (hmem st') c Size \<and> vmm_wf (hvmm st') \<and> keeps (us - {b}) (hmem st) (hmem st') \<and>
       (\<forall>i < fld (hmem st) b Size. hmem st' (c + HDR + i) = hmem st (b + HDR + i)))"
proof (cases "n \<le> fld (hmem st) b Size")
  case True
  note kb = ksize_block[OF inv b]
  have mg: "fld (hmem st) b Magic = HEAP_MAGIC_USED" using inv b by (auto simp: heap_inv_def heap_blocks_def)
  have "krealloc (b + HDR) n st = Some (Inr (b + HDR, st))" using n(1) mg True by (simp add: krealloc_def kb(2))
  moreover have "insert b (us - {b}) = us" using b by auto
  ultimately show ?thesis using True inv wf by (intro disjI2 exI[of _ b] exI[of _ st] exI[of _ fl]) auto
next
  case False
  note kb = ksize_block[OF inv b]
  have mg: "fld (hmem st) b Magic = HEAP_MAGIC_USED" using inv b by (auto simp: heap_inv_def heap_blocks_def)
  have lt: "fld (hmem st) b Size < n" using False by simp
  from kmalloc_cases[OF inv wf n] show ?thesis
  proof (elim disjE exE conjE)
    assume "kmalloc n st = Some (Inr (0, st))"
    then have "krealloc (b + HDR) n st = Some (Inr (0, st))" using n(1) mg lt by (simp add: krealloc_def kb(2))
    then show ?thesis by blast
  next
    fix c st1 assume k: "kmalloc n st = Some (Inr (c + HDR, st1))" "alloc_effect n us st c st1" and w1: "vmm_wf (hvmm st1)"
    from krealloc_grow[OF inv wf b lt k] obtain st' fl' where s: "krealloc (b + HDR) n st = Some (Inr (c + HDR, st'))"
      "heap_inv st' fl' (insert c (us - {b}))" "n \<le> ksize (c + HDR) st'" "keeps (us - {b}) (hmem st) (hmem st')"
      "\<forall>i < fld (hmem st) b Size. hmem st' (c + HDR + i) = hmem st (b + HDR + i)" "hvmm st' = hvmm st1" by blast
    have "c \<notin> us" using k(2) by (auto simp: alloc_effect_def)
    moreover have "n \<le> fld (hmem st') c Size" using s(3) ksize_block(1)[OF s(2)] by simp
    ultimately show ?thesis using s w1 by (intro disjI2 exI[of _ c] exI[of _ st'] exI[of _ fl']) auto
  qed
qed



lemma zero_fold: "fold (\<lambda>i m. m(p + i := 0)) [0..<n] m x = (if p \<le> x \<and> x < p + n then 0 else m x)"
  by (induction n) (auto simp: less_Suc_eq)

text \<open>\<^verbatim>\<open>kzalloc\<close> hands out zeroed memory and is otherwise \<^verbatim>\<open>kmalloc\<close>.\<close>

lemma kzalloc_zeroed:
  assumes inv: "heap_inv st fl us" and k: "kmalloc sz st = Some (Inr (b + HDR, st1))" "alloc_effect sz us st b st1"
  shows "\<exists>st'. kzalloc sz st = Some (Inr (b + HDR, st')) \<and> alloc_effect sz us st b st' \<and>
    (\<forall>i < sz. hmem st' (b + HDR + i) = 0)"
proof -
  obtain fl1 where i1: "heap_inv st1 fl1 (insert b us)" and new: "b \<notin> us" and le: "sz \<le> fld (hmem st1) b Size"
    and kp: "keeps us (hmem st) (hmem st1)" using k(2) by (auto simp: alloc_effect_def)
  define m' where "m' = fold (\<lambda>i m. m(b + HDR + i := 0)) [0..<sz] (hmem st1)"
  have w: "\<forall>x. m' x \<noteq> hmem st1 x \<longrightarrow> b + HDR \<le> x \<and> x < b + HDR + fld (hmem st1) b Size"
    using le unfolding m'_def zero_fold by auto
  note P = heap_inv_payload[OF i1 insertI1 w]
  have "keeps us (hmem st1) m'" by (rule keeps_subset[OF P(2)]) (use new in auto)
  from keeps_trans[OF kp this] have "alloc_effect sz us st b (st1\<lparr>hmem := m'\<rparr>)"
    using P(1,3) new le by (auto simp: alloc_effect_def)
  moreover have "kzalloc sz st = Some (Inr (b + HDR, st1\<lparr>hmem := m'\<rparr>))"
    using k(1) by (simp add: kzalloc_def m'_def)
  moreover have "m' (b + HDR + i) = 0" if "i < sz" for i using that unfolding m'_def zero_fold by simp
  ultimately show ?thesis by (intro exI[of _ "st1\<lparr>hmem := m'\<rparr>"]) simp
qed

text \<open>
  The size is rounded up before it is checked: the largest request wraps to zero bytes and
  any free block serves it.
\<close>

lemma kmalloc_wraps:
  assumes "heap_inv st (b # fl) us"
  shows "\<exists>st'. kmalloc (2 ^ 64 - 1) st = Some (Inr (b + HDR, st'))"
proof -
  have r: "heap_round (2 ^ 64 - 1) = 0" by (simp add: heap_round_def add64_def)
  have H: "heap_blocks (hmem st) (g_heap_end st) (g_heap_free_list st) (b # fl) us" and e: "g_heap_end st < 2 ^ 64"
    using assms by (auto simp: heap_inv_def)
  have "b + HDR + fld (hmem st) b Size \<le> g_heap_end st" using heap_blocks_bounds(2)[OF H, of b] by simp
  then have ab: "add64 b HDR = b + HDR" using e by (intro add64_nowrap) linarith
  obtain m' h' where t: "heap_take b 0 (g_heap_free_list st) (hmem st) = (m', h')" by fastforce
  then show ?thesis
    using heap_find_fit_ok[OF H, of 0] r ab by (subst kmalloc.simps) (simp add: Let_def)
qed

text \<open>The limit check adds before it compares: a request of 2 GiB passes it.\<close>

lemma heap_limit_wraps: "add64 (HEAP_BASE + HEAP_INITIAL_SIZE) (heap_pages 0x80000000 * PMM_PAGE_SIZE) \<le> HEAP_BASE + HEAP_MAX_SIZE"
  by (simp add: heap_pages_def heap_round_def add64_def)

lemma heap_example:
  obtains img st where "vmm_wf (hvmm img)" "2048 \<le> pmm_avail (vmm_pmm (hvmm img))" "heap_init img = Inr st"
    "heap_inv st [HEAP_BASE] {}" "g_heap_end st = HEAP_BASE + HEAP_INITIAL_SIZE" "50000 \<le> pmm_avail (vmm_pmm (hvmm st))"
    "g_heap_max st = HEAP_BASE + HEAP_MAX_SIZE"
proof -
  obtain v where v: "vmm_wf v" "60000 \<le> pmm_avail (vmm_pmm v)" by (rule vmm_example)
  define img where "img = \<lparr>hvmm = v, hmem = (\<lambda>_. 0), g_heap_start = 0, g_heap_end = 0, g_heap_max = 0, g_heap_free_list = 0\<rparr>"
  have w: "vmm_wf (hvmm img)" "2048 \<le> pmm_avail (vmm_pmm (hvmm img))" "60000 \<le> pmm_avail (vmm_pmm (hvmm img))"
    using v by (simp_all add: img_def)
  obtain st where s: "heap_init img = Inr st" "heap_inv st [HEAP_BASE] {}"
    "pmm_avail (vmm_pmm (hvmm img)) \<le> pmm_avail (vmm_pmm (hvmm st)) + 2048" "g_heap_end st = HEAP_BASE + HEAP_INITIAL_SIZE"
    using heap_init_ok[OF w(1,2)] by blast
  have "50000 \<le> pmm_avail (vmm_pmm (hvmm st))" using s(3) w(3) by linarith
  moreover have "g_heap_max st = HEAP_BASE + HEAP_MAX_SIZE" using s(2) by (simp add: heap_inv_def)
  ultimately show ?thesis using that[OF w(1,2) s(1,2,4)] by blast
qed

lemma heap_pages_100: "heap_pages 100 = 1"
  by (simp add: heap_pages_def heap_round_def add64_def)


text \<open>With the heap at its initial size and pages to spare, no small request finds it full.\<close>

lemma heap_not_full:
  assumes "g_heap_end st = HEAP_BASE + HEAP_INITIAL_SIZE" "g_heap_max st = HEAP_BASE + HEAP_MAX_SIZE"
    "50000 \<le> pmm_avail (vmm_pmm (hvmm st))" "0 < n" "n \<le> 262144"
  shows "\<not> heap_full n fl st"
proof -
  have "heap_round n \<le> n + 15" using assms(5) by (simp add: heap_round_def add64_def Let_def)
  then have "heap_pages n \<le> (262144 + 15 + HDR + (PMM_PAGE_SIZE - 1)) div PMM_PAGE_SIZE"
    unfolding heap_pages_def by (intro div_le_mono add_mono) (use assms(5) in auto)
  then show ?thesis using assms(1-3) by (simp add: heap_full_def)
qed


lemma heap_alloc_example:
  obtains img st us b where "vmm_wf (hvmm img)" "2048 \<le> pmm_avail (vmm_pmm (hvmm img))" "heap_reachable img (st, us)" "b \<in> us"
    "4 * heap_pages 200 \<le> pmm_avail (vmm_pmm (hvmm st))" "us = {b}" "100 \<le> fld (hmem st) b Size" "50000 \<le> pmm_avail (vmm_pmm (hvmm st))"
    "g_heap_end st = HEAP_BASE + HEAP_INITIAL_SIZE"
proof -
  obtain img st where s: "vmm_wf (hvmm img)" "2048 \<le> pmm_avail (vmm_pmm (hvmm img))" "heap_init img = Inr st"
    "heap_inv st [HEAP_BASE] {}" "50000 \<le> pmm_avail (vmm_pmm (hvmm st))" and e: "g_heap_end st = HEAP_BASE + HEAP_INITIAL_SIZE"
    by (rule heap_example)
  have "fld (hmem st) HEAP_BASE Size + HDR + HEAP_BASE = g_heap_end st" "g_heap_end st mod 4096 = 0"
    using s(4) by (auto simp: heap_inv_def heap_blocks_def layout_def)
  then have "(fld (hmem st) HEAP_BASE Size + HDR) mod 4096 = 0" 
    using mod_mult_self1[of "fld (hmem st) HEAP_BASE Size + HDR" "HEAP_BASE div 4096" 4096] by simp
  then have "112 \<le> fld (hmem st) HEAP_BASE Size" by (rule contrapos_pp) (simp add: not_le)
  then have f: "find (\<lambda>b. heap_round 100 \<le> fld (hmem st) b Size) [HEAP_BASE] = Some HEAP_BASE"
    by (simp add: heap_round_def add64_def)
  obtain st' where k: "kmalloc 100 st = Some (Inr (HEAP_BASE + HDR, st'))" "hvmm st' = hvmm st"
    "100 \<le> fld (hmem st') HEAP_BASE Size" "g_heap_end st' = g_heap_end st"
    using kmalloc_found[OF s(4) _ _ f] by (auto simp: alloc_effect_def)
  have "heap_step (st, {}) (st', if HEAP_BASE + HDR = 0 then {} else insert (HEAP_BASE + HDR - HDR) {})"
    by (rule heap_step.malloc[OF k(1)]) (use s(5) heap_pages_100 in simp_all)
  then have "heap_reachable img (st', {HEAP_BASE})"
    using heap_reachable.step[OF heap_reachable.init[OF s(3)]] by simp
  moreover have "heap_pages 200 = 1" by (simp add: heap_pages_def heap_round_def add64_def)
  ultimately show ?thesis using that[of img st' "{HEAP_BASE}" HEAP_BASE] s(1,2,5) k(2-4) e by simp
qed

theorem kfree_restores_witness:
  "\<exists>img st us b. heap_reachable img (st, us) \<and> b \<in> us \<and> kfree (b + HDR) (kfree (b + HDR) st) = kfree (b + HDR) st"
proof -
  obtain img st us b where s: "vmm_wf (hvmm img)" "2048 \<le> pmm_avail (vmm_pmm (hvmm img))" "heap_reachable img (st, us)" "b \<in> us"
    by (rule heap_alloc_example)
  from kfree_restores[OF s(3,1,2,4)] s(3,4) show ?thesis by blast
qed


section \<open>The allocator as its clients see it\<close>

text \<open>
  Clients hold a set of blocks by their payload addresses. \<open>same\<close> is the promise that
  matters to them: whatever other blocks are allocated, freed or written, the blocks they keep
  stay as they are.
\<close>

definition write64 :: "nat \<Rightarrow> nat \<Rightarrow> mem \<Rightarrow> mem" where
  "write64 a v m = write_unaligned_u64 m a (word_of_nat v)"

definition read64 :: "mem \<Rightarrow> nat \<Rightarrow> nat" where
  "read64 m a = unat (read_unaligned_u64 m a)"

lemma read64_write_same: "v < 2 ^ 64 \<Longrightarrow> read64 (write64 a v m) a = v"
  by (simp add: read64_def write64_def read_write_u64 unat_of_nat)

lemma read64_cong: "(\<And>x. a \<le> x \<Longrightarrow> x < a + 8 \<Longrightarrow> m x = m' x) \<Longrightarrow> read64 m a = read64 m' a"
  unfolding read64_def by (rule arg_cong[of _ _ unat], rule read_cong_u64) simp

lemma write64_other: "x < a \<or> a + 8 \<le> x \<Longrightarrow> write64 a v m x = m x"
  by (simp add: write64_def write_frame_u64)

lemma read64_write_other: "b + 8 \<le> a \<or> a + 8 \<le> b \<Longrightarrow> read64 (write64 a v m) b = read64 m b"
  by (rule read64_cong) (auto simp: write64_other)

locale allocator =
  fixes ok :: "'s \<Rightarrow> nat set \<Rightarrow> bool" and cells :: "'s \<Rightarrow> mem" and upd :: "(mem \<Rightarrow> mem) \<Rightarrow> 's \<Rightarrow> 's"
    and bsize :: "'s \<Rightarrow> nat \<Rightarrow> nat" and can :: "nat \<Rightarrow> 's \<Rightarrow> bool"
    and alloc :: "nat \<Rightarrow> 's \<Rightarrow> (nat \<times> 's) res option" and free :: "nat \<Rightarrow> 's \<Rightarrow> 's"
  assumes alloc_law: "ok s us \<Longrightarrow> 0 < n \<Longrightarrow> n \<le> 0x2000000 \<Longrightarrow> can n s \<Longrightarrow>
      alloc n s = Some (Inr (0, s)) \<or>
      (\<exists>p s'. alloc n s = Some (Inr (p, s')) \<and> p \<noteq> 0 \<and> p \<notin> us \<and> ok s' (insert p us) \<and> n \<le> bsize s' p \<and>
         (\<forall>u\<in>us. bsize s' u = bsize s u \<and> (\<forall>x. u \<le> x \<and> x < u + bsize s u \<longrightarrow> cells s' x = cells s x)))"
    and free_law: "ok s us \<Longrightarrow> p \<in> us \<Longrightarrow> ok (free p s) (us - {p}) \<and>
         (\<forall>u\<in>us - {p}. bsize (free p s) u = bsize s u \<and>
            (\<forall>x. u \<le> x \<and> x < u + bsize s u \<longrightarrow> cells (free p s) x = cells s x))"
    and store_law: "ok s us \<Longrightarrow> p \<in> us \<Longrightarrow> (\<forall>x. f (cells s) x \<noteq> cells s x \<longrightarrow> p \<le> x \<and> x < p + bsize s p) \<Longrightarrow>
         ok (upd f s) us \<and> cells (upd f s) = f (cells s) \<and> (\<forall>u\<in>us. bsize (upd f s) u = bsize s u)"
    and disjoint_law: "ok s us \<Longrightarrow> p \<in> us \<Longrightarrow> q \<in> us \<Longrightarrow> p \<noteq> q \<Longrightarrow> p + bsize s p \<le> q \<or> q + bsize s q \<le> p"
    and bound_law: "ok s us \<Longrightarrow> p \<in> us \<Longrightarrow> 0 < p \<and> p + bsize s p < 2 ^ 64"
begin

definition same :: "nat set \<Rightarrow> 's \<Rightarrow> 's \<Rightarrow> bool" where
  "same us s s' \<longleftrightarrow> (\<forall>u\<in>us. bsize s' u = bsize s u \<and> (\<forall>x. u \<le> x \<and> x < u + bsize s u \<longrightarrow> cells s' x = cells s x))"

lemma same_refl [simp]: "same us s s"
  by (simp add: same_def)

lemma same_trans: "same us s t \<Longrightarrow> same us t w \<Longrightarrow> same us s w"
  by (simp add: same_def)

lemma same_mono: "same us s t \<Longrightarrow> vs \<subseteq> us \<Longrightarrow> same vs s t"
  by (auto simp: same_def)

lemma same_bsize: "same us s t \<Longrightarrow> u \<in> us \<Longrightarrow> bsize t u = bsize s u"
  by (simp add: same_def)

lemma same_read: "same us s t \<Longrightarrow> u \<in> us \<Longrightarrow> k + 8 \<le> bsize s u \<Longrightarrow> read64 (cells t) (u + k) = read64 (cells s) (u + k)"
  by (rule read64_cong) (auto simp: same_def)

lemma alloc_cases:
  assumes "ok s us" "0 < n" "n \<le> 0x2000000" "can n s"
  obtains (none) "alloc n s = Some (Inr (0, s))"
  | (block) p s' where "alloc n s = Some (Inr (p, s'))" "p \<noteq> 0" "p \<notin> us" "ok s' (insert p us)" "n \<le> bsize s' p" "same us s s'"
  using alloc_law[OF assms] unfolding same_def by blast

lemma free_ok: "ok s us \<Longrightarrow> p \<in> us \<Longrightarrow> ok (free p s) (us - {p}) \<and> same (us - {p}) s (free p s)"
  using free_law[of s us p] unfolding same_def by blast

text \<open>A 64-bit field of an owned block can be written; it reads back, and nothing else changes.\<close>

lemma write_field:
  assumes "ok s us" "p \<in> us" "k + 8 \<le> bsize s p" "v < 2 ^ 64"
  shows "ok (upd (write64 (p + k) v) s) us" "same (us - {p}) s (upd (write64 (p + k) v) s)"
    "bsize (upd (write64 (p + k) v) s) p = bsize s p"
    "read64 (cells (upd (write64 (p + k) v) s)) (p + k) = v"
    "j + 8 \<le> k \<or> k + 8 \<le> j \<Longrightarrow> read64 (cells (upd (write64 (p + k) v) s)) (p + j) = read64 (cells s) (p + j)"
proof -
  let ?s = "upd (write64 (p + k) v) s"
  have "\<forall>x. write64 (p + k) v (cells s) x \<noteq> cells s x \<longrightarrow> p \<le> x \<and> x < p + bsize s p"
  proof (intro allI impI)
    fix x assume "write64 (p + k) v (cells s) x \<noteq> cells s x"
    then have "\<not> (x < p + k \<or> p + k + 8 \<le> x)" using write64_other by blast
    then show "p \<le> x \<and> x < p + bsize s p" using assms(3) by auto
  qed
  note S = store_law[where f = "write64 (p + k) v", OF assms(1,2) this]
  show "ok ?s us" "bsize ?s p = bsize s p" using S assms(2) by auto
  show "read64 (cells ?s) (p + k) = v" using S assms(4) by (simp add: read64_write_same)
  show "j + 8 \<le> k \<or> k + 8 \<le> j \<Longrightarrow> read64 (cells ?s) (p + j) = read64 (cells s) (p + j)"
    using S by (auto simp: read64_write_other)
  have "cells ?s x = cells s x" if "u \<in> us - {p}" "u \<le> x" "x < u + bsize s u" for u x
  proof -
    have "p + bsize s p \<le> u \<or> u + bsize s u \<le> p" using disjoint_law[OF assms(1,2), of u] that(1) by auto
    then have "x < p + k \<or> p + k + 8 \<le> x" using that(2,3) assms(3) by auto
    then show ?thesis using S by (simp add: write64_other)
  qed
  then show "same (us - {p}) s ?s" using S by (auto simp: same_def)
qed

end

text \<open>The heap's blocks, by payload address.\<close>

definition heap_ok :: "heap \<Rightarrow> nat set \<Rightarrow> bool" where
  "heap_ok st ps \<longleftrightarrow> (\<exists>fl us. heap_inv st fl us \<and> ps = (\<lambda>b. b + HDR) ` us) \<and> vmm_wf (hvmm st)"

definition heap_bsize :: "heap \<Rightarrow> nat \<Rightarrow> nat" where
  "heap_bsize st p = fld (hmem st) (p - HDR) Size"

definition heap_upd :: "(mem \<Rightarrow> mem) \<Rightarrow> heap \<Rightarrow> heap" where
  "heap_upd f st = st\<lparr>hmem := f (hmem st)\<rparr>"

definition heap_can :: "nat \<Rightarrow> heap \<Rightarrow> bool" where
  "heap_can n st \<longleftrightarrow> 4 * heap_pages n \<le> pmm_avail (vmm_pmm (hvmm st))"

lemma keeps_payload: "keeps us m m' \<longleftrightarrow> (\<forall>p \<in> (\<lambda>b. b + HDR) ` us. fld m' (p - HDR) Size = fld m (p - HDR) Size \<and>
    (\<forall>x. p \<le> x \<and> x < p + fld m (p - HDR) Size \<longrightarrow> m' x = m x))"
  by (auto simp: keeps_def)

interpretation hp: allocator heap_ok hmem heap_upd heap_bsize heap_can kmalloc kfree
proof
  fix s :: heap and ps n
  assume a: "heap_ok s ps" "0 < n" "n \<le> 0x2000000" "heap_can n s"
  then obtain fl us where inv: "heap_inv s fl us" "ps = (\<lambda>b. b + HDR) ` us" and wf: "vmm_wf (hvmm s)"
    by (auto simp: heap_ok_def)
  have av: "4 * heap_pages n \<le> pmm_avail (vmm_pmm (hvmm s))" using a(4) by (simp add: heap_can_def)
  have n: "n \<le> HEAP_MAX_SIZE" using a(3) by simp
  from kmalloc_cases[OF inv(1) wf a(2) n av]
  show "kmalloc n s = Some (Inr (0, s)) \<or>
    (\<exists>p s'. kmalloc n s = Some (Inr (p, s')) \<and> p \<noteq> 0 \<and> p \<notin> ps \<and> heap_ok s' (insert p ps) \<and> n \<le> heap_bsize s' p \<and>
      (\<forall>u\<in>ps. heap_bsize s' u = heap_bsize s u \<and> (\<forall>x. u \<le> x \<and> x < u + heap_bsize s u \<longrightarrow> hmem s' x = hmem s x)))"
  proof (elim disjE exE conjE)
    fix b s' assume k: "kmalloc n s = Some (Inr (b + HDR, s'))" "alloc_effect n us s b s'" "vmm_wf (hvmm s')"
    then have "heap_ok s' (insert (b + HDR) ps)" "b + HDR \<notin> ps" "n \<le> heap_bsize s' (b + HDR)"
      using inv(2) by (auto simp: alloc_effect_def heap_ok_def heap_bsize_def)
    moreover have "\<forall>u\<in>ps. heap_bsize s' u = heap_bsize s u \<and> (\<forall>x. u \<le> x \<and> x < u + heap_bsize s u \<longrightarrow> hmem s' x = hmem s x)"
      using k(2) unfolding alloc_effect_def keeps_payload heap_bsize_def inv(2) by blast
    ultimately show ?thesis using k(1) by auto
  qed blast
next
  fix s :: heap and ps p
  assume a: "heap_ok s ps" "p \<in> ps"
  then obtain fl us b where inv: "heap_inv s fl us" "ps = (\<lambda>b. b + HDR) ` us" and wf: "vmm_wf (hvmm s)" and b: "b \<in> us" "p = b + HDR"
    by (auto simp: heap_ok_def)
  note k = kfree_inv[OF inv(1) b(1)]
  have eq: "ps - {p} = (\<lambda>b. b + HDR) ` (us - {b})" using inv(2) b(2) by auto
  have "heap_ok (kfree p s) (ps - {p})" unfolding heap_ok_def eq using k(1,3) wf b(2) by auto
  moreover have "\<forall>u\<in>ps - {p}. heap_bsize (kfree p s) u = heap_bsize s u \<and>
      (\<forall>x. u \<le> x \<and> x < u + heap_bsize s u \<longrightarrow> hmem (kfree p s) x = hmem s x)"
    using k(2) unfolding keeps_payload eq[symmetric] b(2)[symmetric] heap_bsize_def .
  ultimately show "heap_ok (kfree p s) (ps - {p}) \<and> (\<forall>u\<in>ps - {p}. heap_bsize (kfree p s) u = heap_bsize s u \<and>
      (\<forall>x. u \<le> x \<and> x < u + heap_bsize s u \<longrightarrow> hmem (kfree p s) x = hmem s x))" ..
next
  fix s :: heap and ps p f
  assume a: "heap_ok s ps" "p \<in> ps" "\<forall>x. f (hmem s) x \<noteq> hmem s x \<longrightarrow> p \<le> x \<and> x < p + heap_bsize s p"
  then obtain fl us b where inv: "heap_inv s fl us" "ps = (\<lambda>b. b + HDR) ` us" and wf: "vmm_wf (hvmm s)" and b: "b \<in> us" "p = b + HDR"
    by (auto simp: heap_ok_def)
  have "\<forall>x. f (hmem s) x \<noteq> hmem s x \<longrightarrow> b + HDR \<le> x \<and> x < b + HDR + fld (hmem s) b Size"
    using a(3) b(2) by (simp add: heap_bsize_def)
  note P = heap_inv_payload[OF inv(1) b(1) this]
  have sz: "fld (f (hmem s)) c Size = fld (hmem s) c Size" if "c \<in> us" for c
    using P(2,3) that by (cases "c = b") (auto simp: keeps_def)
  show "heap_ok (heap_upd f s) ps \<and> hmem (heap_upd f s) = f (hmem s) \<and> (\<forall>u\<in>ps. heap_bsize (heap_upd f s) u = heap_bsize s u)"
    using P(1) sz inv(2) wf by (auto simp: heap_ok_def heap_upd_def heap_bsize_def)
next
  fix s :: heap and ps p q
  assume a: "heap_ok s ps" "p \<in> ps" "q \<in> ps" "p \<noteq> q"
  then obtain fl us b c where inv: "heap_inv s fl us" and b: "b \<in> us" "p = b + HDR" "c \<in> us" "q = c + HDR"
    by (auto simp: heap_ok_def)
  have L: "layout (\<lambda>b. fld (hmem s) b Size) (set fl \<union> us) (g_heap_end s)" using inv by (simp add: heap_inv_def heap_blocks_def)
  from layout_disjoint[OF L, of b c] show "p + heap_bsize s p \<le> q \<or> q + heap_bsize s q \<le> p"
    using b a(4) by (auto simp: heap_bsize_def)
next
  fix s :: heap and ps p
  assume a: "heap_ok s ps" "p \<in> ps"
  then obtain fl us b where inv: "heap_inv s fl us" and b: "b \<in> us" "p = b + HDR" by (auto simp: heap_ok_def)
  have H: "heap_blocks (hmem s) (g_heap_end s) (g_heap_free_list s) fl us" "g_heap_end s \<le> HEAP_BASE + HEAP_MAX_SIZE"
    using inv by (auto simp: heap_inv_def)
  then have L: "layout (\<lambda>b. fld (hmem s) b Size) (set fl \<union> us) (g_heap_end s)" by (simp add: heap_blocks_def)
  show "0 < p \<and> p + heap_bsize s p < 2 ^ 64"
    using heap_blocks_bounds[OF H(1), of b] H(2) b by (auto simp: heap_bsize_def)
qed

text \<open>An allocator that can also grow a block: the block may move, and keeps its bytes.\<close>

locale reallocator = allocator +
  fixes realloc :: "nat \<Rightarrow> nat \<Rightarrow> 'a \<Rightarrow> (nat \<times> 'a) res option"
  assumes realloc_law: "ok s us \<Longrightarrow> 0 < n \<Longrightarrow> n \<le> 0x2000000 \<Longrightarrow> can n s \<Longrightarrow> p = 0 \<or> p \<in> us \<Longrightarrow>
      realloc p n s = Some (Inr (0, s)) \<or>
      (\<exists>q s'. realloc p n s = Some (Inr (q, s')) \<and> q \<noteq> 0 \<and> (q = p \<or> q \<notin> us) \<and> ok s' (insert q (us - {p})) \<and> n \<le> bsize s' q \<and>
         (\<forall>u\<in>us - {p}. bsize s' u = bsize s u \<and> (\<forall>x. u \<le> x \<and> x < u + bsize s u \<longrightarrow> cells s' x = cells s x)) \<and>
         (p \<noteq> 0 \<longrightarrow> (\<forall>i < bsize s p. cells s' (q + i) = cells s (p + i))))"
begin

lemma realloc_cases:
  assumes "ok s us" "0 < n" "n \<le> 0x2000000" "can n s" "p = 0 \<or> p \<in> us"
  obtains (none) "realloc p n s = Some (Inr (0, s))"
  | (block) q s' where "realloc p n s = Some (Inr (q, s'))" "q \<noteq> 0" "q = p \<or> q \<notin> us" "ok s' (insert q (us - {p}))" "n \<le> bsize s' q"
      "same (us - {p}) s s'" "p \<noteq> 0 \<Longrightarrow> \<forall>i < bsize s p. cells s' (q + i) = cells s (p + i)"
  using realloc_law[OF assms] unfolding same_def by blast

text \<open>Bytes stored inside an owned block.\<close>

lemma store_block:
  assumes "ok s us" "p \<in> us" "k + length bs \<le> bsize s p"
  shows "ok (upd (\<lambda>m. store m (p + k) bs) s) us" "same (us - {p}) s (upd (\<lambda>m. store m (p + k) bs) s)"
    "u \<in> us \<Longrightarrow> bsize (upd (\<lambda>m. store m (p + k) bs) s) u = bsize s u" "cells (upd (\<lambda>m. store m (p + k) bs) s) = store (cells s) (p + k) bs"
proof -
  let ?s = "upd (\<lambda>m. store m (p + k) bs) s"
  have "\<forall>x. store (cells s) (p + k) bs x \<noteq> cells s x \<longrightarrow> p \<le> x \<and> x < p + bsize s p"
  proof (intro allI impI)
    fix x assume "store (cells s) (p + k) bs x \<noteq> cells s x"
    then have "\<not> (x < p + k \<or> p + k + length bs \<le> x)" using store_other by blast
    then show "p \<le> x \<and> x < p + bsize s p" using assms(3) by auto
  qed
  note S = store_law[where f = "\<lambda>m. store m (p + k) bs", OF assms(1,2) this]
  show "ok ?s us" "cells ?s = store (cells s) (p + k) bs" "u \<in> us \<Longrightarrow> bsize ?s u = bsize s u" using S by auto
  have "cells ?s x = cells s x" if "u \<in> us - {p}" "u \<le> x" "x < u + bsize s u" for u x
  proof -
    have "p + bsize s p \<le> u \<or> u + bsize s u \<le> p" using disjoint_law[OF assms(1,2), of u] that(1) by auto
    then have "x < p + k \<or> p + k + length bs \<le> x" using that(2,3) assms(3) by auto
    then show ?thesis using S store_other by auto
  qed
  then show "same (us - {p}) s ?s" using S by (auto simp: same_def)
qed

end

interpretation hr: reallocator heap_ok hmem heap_upd heap_bsize heap_can kmalloc kfree krealloc
proof
  fix s :: heap and ps n p
  assume a: "heap_ok s ps" "0 < n" "n \<le> 0x2000000" "heap_can n s" "p = 0 \<or> p \<in> ps"
  show "krealloc p n s = Some (Inr (0, s)) \<or>
    (\<exists>q s'. krealloc p n s = Some (Inr (q, s')) \<and> q \<noteq> 0 \<and> (q = p \<or> q \<notin> ps) \<and> heap_ok s' (insert q (ps - {p})) \<and> n \<le> heap_bsize s' q \<and>
      (\<forall>u\<in>ps - {p}. heap_bsize s' u = heap_bsize s u \<and> (\<forall>x. u \<le> x \<and> x < u + heap_bsize s u \<longrightarrow> hmem s' x = hmem s x)) \<and>
      (p \<noteq> 0 \<longrightarrow> (\<forall>i < heap_bsize s p. hmem s' (q + i) = hmem s (p + i))))"
  proof (cases "p = 0")
    case True
    have "0 \<notin> ps" using hp.bound_law[OF a(1)] by blast
    then have "ps - {p} = ps" using True by auto
    then show ?thesis using hp.alloc_law[OF a(1-4)] True by (auto simp: krealloc_def)
  next
    case False
    then obtain fl us b where inv: "heap_inv s fl us" "ps = (\<lambda>b. b + HDR) ` us" and wf: "vmm_wf (hvmm s)" and b: "b \<in> us" "p = b + HDR"
      using a(1,5) by (auto simp: heap_ok_def)
    have av: "4 * heap_pages n \<le> pmm_avail (vmm_pmm (hvmm s))" "n \<le> HEAP_MAX_SIZE" using a(3,4) by (simp_all add: heap_can_def)
    have eq: "ps - {p} = (\<lambda>b. b + HDR) ` (us - {b})" using inv(2) b(2) by auto
    from krealloc_effect[OF inv(1) wf b(1) a(2) av(2,1)] show ?thesis
    proof (elim disjE exE conjE)
      fix c s' fl' assume k: "krealloc (b + HDR) n s = Some (Inr (c + HDR, s'))" "c \<in> us \<longrightarrow> c = b" "heap_inv s' fl' (insert c (us - {b}))"
        "n \<le> fld (hmem s') c Size" "vmm_wf (hvmm s')" "keeps (us - {b}) (hmem s) (hmem s')"
        "\<forall>i < fld (hmem s) b Size. hmem s' (c + HDR + i) = hmem s (b + HDR + i)"
      have "heap_ok s' (insert (c + HDR) (ps - {p}))" unfolding heap_ok_def eq using k(3,5) by (auto intro!: exI)
      moreover have "c + HDR = p \<or> c + HDR \<notin> ps" using k(2) b(2) inv(2) by auto
      moreover have "\<forall>u\<in>ps - {p}. heap_bsize s' u = heap_bsize s u \<and> (\<forall>x. u \<le> x \<and> x < u + heap_bsize s u \<longrightarrow> hmem s' x = hmem s x)"
        using k(6) unfolding eq keeps_payload heap_bsize_def .
      ultimately show ?thesis using k(1,4,7) b(2)
        by (intro disjI2 exI[of _ "c + HDR"] exI[of _ s']) (simp add: heap_bsize_def)
    qed (use b(2) in blast)
  qed
qed

text \<open>A heap after start-up, and one with a block handed out.\<close>

lemma heap_ok_init:
  assumes "vmm_wf (hvmm img)" "2048 \<le> pmm_avail (vmm_pmm (hvmm img))" "heap_init img = Inr st"
  shows "heap_ok st {}"
proof -
  obtain fl where "heap_inv st fl {}" "vmm_wf (hvmm st)"
    using heap_reachable_inv[OF heap_reachable.init[OF assms(3)] assms(1,2)] by auto
  then show ?thesis by (auto simp: heap_ok_def)
qed

lemma heap_block_example:
  obtains st p where "heap_ok st {p}" "100 \<le> heap_bsize st p" "50000 \<le> pmm_avail (vmm_pmm (hvmm st))"
    "\<And>n. 0 < n \<Longrightarrow> n \<le> 262144 \<Longrightarrow> kmalloc n st \<noteq> Some (Inr (0, st))"
proof -
  obtain img st us b where s: "vmm_wf (hvmm img)" "2048 \<le> pmm_avail (vmm_pmm (hvmm img))" "heap_reachable img (st, us)"
    "us = {b}" "100 \<le> fld (hmem st) b Size" "50000 \<le> pmm_avail (vmm_pmm (hvmm st))" "g_heap_end st = HEAP_BASE + HEAP_INITIAL_SIZE"
    by (rule heap_alloc_example)
  obtain fl where inv: "heap_inv st fl {b}" "vmm_wf (hvmm st)" using heap_reachable_inv[OF s(3,1,2)] s(4) by auto
  have "heap_ok st {b + HDR}" using inv by (auto simp: heap_ok_def)
  moreover have "kmalloc n st \<noteq> Some (Inr (0, st))" if "0 < n" "n \<le> 262144" for n
  proof -
    have "\<not> heap_full n fl st" by (rule heap_not_full) (use s(6,7) inv(1) that in \<open>simp_all add: heap_inv_def\<close>)
    then show ?thesis using kmalloc_any[OF inv that(1)] that(2) by auto
  qed
  ultimately show ?thesis using that s(5,6) by (simp add: heap_bsize_def)
qed

lemma heap_can_small: "n \<le> 262144 \<Longrightarrow> 50000 \<le> pmm_avail (vmm_pmm (hvmm st)) \<Longrightarrow> heap_can n st"
proof -
  assume n: "n \<le> 262144" and a: "50000 \<le> pmm_avail (vmm_pmm (hvmm st))"
  have "heap_round n \<le> n + 15" using n by (simp add: heap_round_def add64_def Let_def)
  then have "heap_pages n \<le> (262144 + 15 + HDR + (PMM_PAGE_SIZE - 1)) div PMM_PAGE_SIZE"
    unfolding heap_pages_def by (intro div_le_mono add_mono) (use n in auto)
  then show ?thesis using a by (simp add: heap_can_def)
qed

lemma heap_two_blocks:
  obtains st p q where "heap_ok st {p, q}" "p \<noteq> q" "100 \<le> heap_bsize st p" "256 \<le> heap_bsize st q"
proof -
  obtain img st us b where s: "vmm_wf (hvmm img)" "2048 \<le> pmm_avail (vmm_pmm (hvmm img))" "heap_reachable img (st, us)"
    "us = {b}" "100 \<le> fld (hmem st) b Size" "50000 \<le> pmm_avail (vmm_pmm (hvmm st))" "g_heap_end st = HEAP_BASE + HEAP_INITIAL_SIZE"
    by (rule heap_alloc_example)
  obtain fl where inv: "heap_inv st fl {b}" "vmm_wf (hvmm st)" using heap_reachable_inv[OF s(3,1,2)] s(4) by auto
  have pg: "heap_pages 256 = 1" "g_heap_max st = HEAP_BASE + HEAP_MAX_SIZE"
    using inv(1) by (simp_all add: heap_pages_def heap_round_def add64_def heap_inv_def)
  from kmalloc_cases[OF inv, of 256] s(6,7) pg obtain c st' where
    k: "alloc_effect 256 {b} st c st'" "vmm_wf (hvmm st')" by auto
  then obtain fl' where c: "heap_inv st' fl' {c, b}" "c \<noteq> b" "256 \<le> fld (hmem st') c Size" "fld (hmem st') b Size = fld (hmem st) b Size"
    by (auto simp: alloc_effect_def keeps_def)
  have "{b + HDR, c + HDR} = (\<lambda>b. b + HDR) ` {c, b}" by auto
  then have "heap_ok st' {b + HDR, c + HDR}" unfolding heap_ok_def using c(1) k(2) by blast
  then show ?thesis using that[of st' "b + HDR" "c + HDR"] c(2-4) s(5) by (simp add: heap_bsize_def)
qed

end
