(* ===== verification/Gos_Mmu.thy ===== *)
theory Gos_Mmu
  imports Gos_Heap
begin

text \<open>
  The virtual memory manager with its table accesses translated by the processor. The code of
  \<^verbatim>\<open>mm/vmm/vmm.c\<close> reaches its tables through pointers into the direct map at \<^verbatim>\<open>KERNEL_VBASE\<close>, and
  those pointers are virtual addresses like any other: a mapping over the direct-map page of a
  table hides the table from the code, while the processor goes on walking it. \<^theory_text>\<open>Gos_Vmm\<close> models the
  operations with every table visible; here each access goes where the processor translates it. The operations are
  shown to be the same as long as the tables they touch are visible, and what they do then is proved of them.
\<close>

section \<open>Accesses through the processor's translation\<close>

text \<open>
  The word of physical memory at address \<open>p\<close> is \<^const>\<open>ptmem\<close> at \<open>p + KERNEL_VBASE64\<close>. The processor uses a
  cached translation if it has one and walks the tables from \<^const>\<open>cr3\<close> otherwise; the walk reads physical memory.
  Bits 12 to 51 of the entry are the frame.
\<close>

definition mmu_entry :: "vmm \<Rightarrow> u64 \<Rightarrow> u64 option" where
  "mmu_entry st va =
     (case tlb st (vpn va) of Some e \<Rightarrow> Some e
      | None \<Rightarrow>
          case walk (ptmem st) (cr3 st + KERNEL_VBASE64) (vpath va) of None \<Rightarrow> None
          | Some t \<Rightarrow> let e = ptmem st (entry_at t (pti va)) in if e AND PAGE_PRESENT \<noteq> 0 then Some e else None)"

definition mmu :: "vmm \<Rightarrow> u64 \<Rightarrow> u64 option" where
  "mmu st va = map_option (\<lambda>e. (e AND 0xFFFFFFFFFF000) OR (va AND 0xFFF)) (mmu_entry st va)"

definition pt_read :: "vmm \<Rightarrow> u64 \<Rightarrow> u64 res" where
  "pt_read st va = (case mmu st va of None \<Rightarrow> Inl PageFault | Some p \<Rightarrow> Inr (ptmem st (p + KERNEL_VBASE64)))"

definition pt_write :: "u64 \<Rightarrow> u64 \<Rightarrow> vmm \<Rightarrow> vmm res" where
  "pt_write va e st =
     (case mmu st va of None \<Rightarrow> Inl PageFault
      | Some p \<Rightarrow> Inr (st\<lparr>ptmem := (ptmem st)(p + KERNEL_VBASE64 := e)\<rparr>))"

section \<open>Operations of \<^verbatim>\<open>vmm.c\<close>\<close>

definition vmm_get_or_create_table_mmu :: "u64 \<Rightarrow> u64 \<Rightarrow> u64 \<Rightarrow> vmm \<Rightarrow> (u64 \<times> vmm) res" where
  "vmm_get_or_create_table_mmu parent index flags st =
     res_bind (pt_read st (entry_at parent index)) (\<lambda>e.
       if e AND PAGE_PRESENT \<noteq> 0 then Inr ((e AND NOT 0xFFF) + KERNEL_VBASE64, st)
       else case pmm_alloc_page (vmm_pmm st) of (page, pmm') \<Rightarrow>
         if page = 0 then Inl Halted
         else res_bind (pt_write (entry_at parent index) (of_nat page OR flags) (st\<lparr>vmm_pmm := pmm'\<rparr>)) (\<lambda>st.
              let table = of_nat page + KERNEL_VBASE64
              in res_bind (res_fold (\<lambda>i. pt_write (entry_at table (of_nat i)) 0) [0..<512] st) (\<lambda>st. Inr (table, st))))"

definition vmm_map_page_mmu :: "u64 \<Rightarrow> u64 \<Rightarrow> u64 \<Rightarrow> vmm \<Rightarrow> vmm res" where
  "vmm_map_page_mmu virt phys flags st =
     (if g_vmm_kernel_pml4 st = 0 then Inr st
      else let pml4i = vmm_virt_to_index virt 3;
               pdpti = vmm_virt_to_index virt 2;
               pdi = vmm_virt_to_index virt 1;
               pti = vmm_virt_to_index virt 0
        in res_bind (vmm_get_or_create_table_mmu (g_vmm_kernel_pml4 st) pml4i (PAGE_PRESENT OR PAGE_WRITABLE) st) (\<lambda>(pdpt, st).
           res_bind (vmm_get_or_create_table_mmu pdpt pdpti (PAGE_PRESENT OR PAGE_WRITABLE) st) (\<lambda>(pd, st).
           res_bind (vmm_get_or_create_table_mmu pd pdi (PAGE_PRESENT OR PAGE_WRITABLE) st) (\<lambda>(pt, st).
           res_bind (pt_write (entry_at pt pti) (((phys AND NOT 0xFFF) OR (flags AND 0xFFF)) OR PAGE_PRESENT) st) (\<lambda>st.
             Inr (vmm_invalidate_page virt st))))))"

definition vmm_get_pte_mmu :: "u64 \<Rightarrow> vmm \<Rightarrow> u64 res" where
  "vmm_get_pte_mmu virt st =
     (if g_vmm_kernel_pml4 st = 0 then Inr 0
      else res_bind (pt_read st (entry_at (g_vmm_kernel_pml4 st) (vmm_virt_to_index virt 3))) (\<lambda>e3.
        if e3 AND PAGE_PRESENT = 0 then Inr 0
        else res_bind (pt_read st (entry_at ((e3 AND NOT 0xFFF) + KERNEL_VBASE64) (vmm_virt_to_index virt 2))) (\<lambda>e2.
        if e2 AND PAGE_PRESENT = 0 then Inr 0
        else res_bind (pt_read st (entry_at ((e2 AND NOT 0xFFF) + KERNEL_VBASE64) (vmm_virt_to_index virt 1))) (\<lambda>e1.
        if e1 AND PAGE_PRESENT = 0 then Inr 0
        else Inr (entry_at ((e1 AND NOT 0xFFF) + KERNEL_VBASE64) (vmm_virt_to_index virt 0))))))"

definition vmm_unmap_page_mmu :: "u64 \<Rightarrow> vmm \<Rightarrow> vmm res" where
  "vmm_unmap_page_mmu virt st =
     (if g_vmm_kernel_pml4 st = 0 then Inr st
      else res_bind (vmm_get_pte_mmu virt st) (\<lambda>pte.
        if pte = 0 then Inr st
        else res_bind (pt_read st pte) (\<lambda>e.
          if e AND PAGE_PRESENT = 0 then Inr st
          else res_bind (pt_write pte 0 st) (\<lambda>st. Inr (vmm_invalidate_page virt st)))))"

definition vmm_is_mapped_mmu :: "u64 \<Rightarrow> vmm \<Rightarrow> bool res" where
  "vmm_is_mapped_mmu virt st =
     res_bind (vmm_get_pte_mmu virt st) (\<lambda>pte.
       if pte = 0 then Inr False else res_bind (pt_read st pte) (\<lambda>e. Inr (e AND PAGE_PRESENT \<noteq> 0)))"

definition vmm_get_phys_mmu :: "u64 \<Rightarrow> vmm \<Rightarrow> u64 res" where
  "vmm_get_phys_mmu virt st =
     res_bind (vmm_get_pte_mmu virt st) (\<lambda>pte.
       if pte = 0 then Inr 0
       else res_bind (pt_read st pte) (\<lambda>e.
         if e AND PAGE_PRESENT = 0 then Inr 0 else Inr ((e AND NOT 0xFFF) OR (virt AND 0xFFF))))"

text \<open>The loop of \<^verbatim>\<open>heap_extend\<close> (\<^verbatim>\<open>mm/heap/heap.c\<close>), which maps the pages of the heap window.\<close>

fun heap_extend_loop_mmu :: "nat list \<Rightarrow> heap \<Rightarrow> (bool \<times> heap) res" where
  "heap_extend_loop_mmu [] st = Inr (True, st)"
| "heap_extend_loop_mmu (i # is) st =
     (case pmm_alloc_page (vmm_pmm (hvmm st)) of (phys, pmm') \<Rightarrow>
        let st = st\<lparr>hvmm := (hvmm st)\<lparr>vmm_pmm := pmm'\<rparr>\<rparr> in
        if phys = 0 then Inr (False, st)
        else res_bind (vmm_map_page_mmu (of_nat (add64 (g_heap_end st) (i * PMM_PAGE_SIZE))) (of_nat phys)
                         (PAGE_PRESENT OR PAGE_WRITABLE) (hvmm st))
               (\<lambda>v. heap_extend_loop_mmu is (st\<lparr>hvmm := v\<rparr>)))"

section \<open>Visible tables\<close>

text \<open>The page of a table is visible when the address the code has for it translates to the page itself.\<close>

definition visible :: "vmm \<Rightarrow> nat \<Rightarrow> bool" where
  "visible st pg \<longleftrightarrow> mmu st (table_of pg) = Some (of_nat (pg * PMM_PAGE_SIZE))"

lemma unat_entry_at:
  assumes "pg < 65536" "i < 512"
  shows "unat (entry_at (table_of pg) i) = 0xFFFFFFFF80000000 + pg * 4096 + 8 * unat i"
proof -
  have i: "unat i < 512" using unat_lt_512[OF assms(2)] .
  have "entry_at (table_of pg) i = of_nat (0xFFFFFFFF80000000 + pg * 4096 + 8 * unat i)"
    by (simp add: entry_at_def table_of_def algebra_simps)
  then show ?thesis using assms(1) i by (simp only: unat_of_nat) simp
qed

lemma unat_offset: "unat (x AND 0xFFF) = unat x mod 4096" for x :: u64
proof -
  have m: "(0xFFF :: u64) = mask 12" by (simp add: mask_eq_exp_minus_1)
  show ?thesis unfolding m take_bit_eq_mask [symmetric] unsigned_take_bit_eq by (simp add: take_bit_eq_mod)
qed

lemma entry_in_page:
  assumes "pg < 65536" "i < 512"
  shows "vpn (entry_at (table_of pg) i) = vpn (table_of pg)" "entry_at (table_of pg) i AND 0xFFF = 8 * i"
    "table_of pg AND 0xFFF = 0"
proof -
  have i: "unat i < 512" using unat_lt_512[OF assms(2)] .
  have d: "(0xFFFFFFFF80000000 + pg * 4096 + 8 * n) div 4096 = 0xFFFFFFFF80000 + pg"
    "(0xFFFFFFFF80000000 + pg * 4096 + 8 * n) mod 4096 = 8 * n" if "n < 512" for n
  proof -
    have e: "0xFFFFFFFF80000000 + pg * 4096 + 8 * n = 8 * n + (0xFFFFFFFF80000 + pg) * 4096" by simp
    show "(0xFFFFFFFF80000000 + pg * 4096 + 8 * n) div 4096 = 0xFFFFFFFF80000 + pg"
      unfolding e using that by (subst div_mult_self1) simp_all
    show "(0xFFFFFFFF80000000 + pg * 4096 + 8 * n) mod 4096 = 8 * n"
      unfolding e using that by (subst mod_mult_self1) simp
  qed
  have 0: "unat (table_of pg) = 0xFFFFFFFF80000000 + pg * 4096"
    using unat_entry_at[OF assms(1), of 0] by (simp add: entry_at_def)
  show "vpn (entry_at (table_of pg) i) = vpn (table_of pg)"
    using d(1)[OF i] d(1)[of 0] by (simp add: word_unat_eq_iff unat_vpn unat_entry_at[OF assms] 0)
  have "unat (8 * i) = 8 * unat i" using i by (simp add: unat_word_ariths)
  then show "entry_at (table_of pg) i AND 0xFFF = 8 * i"
    using d(2)[OF i] by (simp add: word_unat_eq_iff unat_offset unat_entry_at[OF assms])
  show "table_of pg AND 0xFFF = 0"
    using d(2)[of 0] by (simp add: word_unat_eq_iff unat_offset 0)
qed

lemma same_page_entry:
  assumes "vpn v = vpn w" shows "mmu_entry st v = mmu_entry st w"
proof -
  have "vpath v = vpath w" "pti v = pti w" using assms vkey_eq_iff[of v w] by (simp_all add: vkey_def)
  then show ?thesis unfolding mmu_entry_def assms by (simp only:)
qed

lemma visible_pmm [simp]: "visible (st\<lparr>vmm_pmm := p\<rparr>) = visible st"
  by (simp add: fun_eq_iff visible_def mmu_def mmu_entry_def cong: option.case_cong)

lemma page_plus_offset:
  assumes "i < (512 :: u64)"
  shows "of_nat (pg * PMM_PAGE_SIZE) OR 8 * i = of_nat (pg * PMM_PAGE_SIZE) + 8 * i"
proof -
  have a: "(of_nat (pg * PMM_PAGE_SIZE) :: u64) = push_bit 12 (of_nat pg)"
    by (simp add: push_bit_eq_mult mult.commute)
  have "unat (8 * i) < 4096" using unat_lt_512[OF assms] by (simp add: unat_word_ariths)
  then have "8 * i AND 0xFFF = 8 * i" by (simp add: word_unat_eq_iff unat_offset)
  then have b: "8 * i = take_bit 12 (8 * i)" by (simp add: take_bit_eq_mask mask_eq_exp_minus_1)
  have "push_bit 12 (of_nat pg) AND take_bit 12 (8 * i) = 0"
    by (rule bit_word_eqI) (auto simp: bit_simps)
  then show ?thesis unfolding a by (metis b disjunctive_add_eq_or)
qed

lemma visible_entry:
  assumes "visible st pg" "pg < 65536" "i < 512"
  shows "mmu st (entry_at (table_of pg) i) = Some (of_nat (pg * PMM_PAGE_SIZE) + 8 * i)"
proof -
  obtain e where e: "mmu_entry st (table_of pg) = Some e" "e AND 0xFFFFFFFFFF000 = of_nat (pg * PMM_PAGE_SIZE)"
    using assms(1) entry_in_page(3)[OF assms(2), of 0] by (auto simp: visible_def mmu_def)
  then have "mmu_entry st (entry_at (table_of pg) i) = Some e"
    using same_page_entry[OF entry_in_page(1)[OF assms(2,3)]] by simp
  then show ?thesis
    using e(2) entry_in_page(2)[OF assms(2,3)] page_plus_offset[OF assms(3), of pg] by (simp add: mmu_def)
qed

lemma visible_access:
  assumes "visible st pg" "pg < 65536" "i < 512"
  shows "pt_read st (entry_at (table_of pg) i) = Inr (ptmem st (entry_at (table_of pg) i))"
    "pt_write (entry_at (table_of pg) i) e st = Inr (st\<lparr>ptmem := (ptmem st)(entry_at (table_of pg) i := e)\<rparr>)"
proof -
  have "of_nat (pg * PMM_PAGE_SIZE) + 8 * i + KERNEL_VBASE64 = entry_at (table_of pg) i"
    by (simp add: entry_at_def table_of_def)
  then show "pt_read st (entry_at (table_of pg) i) = Inr (ptmem st (entry_at (table_of pg) i))"
    "pt_write (entry_at (table_of pg) i) e st = Inr (st\<lparr>ptmem := (ptmem st)(entry_at (table_of pg) i := e)\<rparr>)"
    by (simp_all add: pt_read_def pt_write_def visible_entry[OF assms])
qed

text \<open>With the kernel's root in \<^const>\<open>cr3\<close> the processor sees the cache and, below it, the abstract address space.\<close>

definition root_loaded :: "vmm \<Rightarrow> bool" where
  "root_loaded st \<longleftrightarrow> cr3 st = VIRT_TO_PHYS (g_vmm_kernel_pml4 st)"

lemma mmu_entry_abs:
  assumes "root_loaded st"
  shows "mmu_entry st va = (case tlb st (vpn va) of Some e \<Rightarrow> Some e | None \<Rightarrow> vmm_abs st (vkey va))"
  using assms by (auto simp: root_loaded_def mmu_entry_def vmm_abs_vkey leaf_def VIRT_TO_PHYS_def Let_def split: option.split)

lemma mmu_entry_coherent: "root_loaded st \<Longrightarrow> tlb_coherent st \<Longrightarrow> mmu_entry st va = vmm_abs st (vkey va)"
  by (auto simp: mmu_entry_abs tlb_coherent_def split: option.split)

lemma visible_kept:
  assumes "root_loaded st" "root_loaded st'" "tlb st' (vpn (table_of pg)) = tlb st (vpn (table_of pg))"
    and "\<And>e. vmm_abs st (vkey (table_of pg)) = Some e \<Longrightarrow> vmm_abs st' (vkey (table_of pg)) = Some e"
    and "visible st pg"
  shows "visible st' pg"
  using assms by (auto simp: visible_def mmu_def mmu_entry_abs split: option.splits)

section \<open>Creating a table\<close>

text \<open>
  While a table is created the fresh page is already linked but not yet cleared. A translation that was present
  before uses neither the entry that was absent nor the fresh page, so it is still there.
\<close>

lemma abs_kept:
  assumes wf: "pt_wf st" and root: "g_vmm_kernel_pml4 st' = g_vmm_kernel_pml4 st"
    and absent: "ptmem st a AND PAGE_PRESENT = 0"
    and pg: "pg < 65536" "pg \<notin> pmm_used (vmm_pmm st)"
    and same: "\<And>x. x \<noteq> a \<Longrightarrow> \<not> (\<exists>j<512. x = entry_at (table_of pg) j) \<Longrightarrow> ptmem st' x = ptmem st x"
    and e: "vmm_abs st (vkey w) = Some e"
  shows "vmm_abs st' (vkey w) = Some e"
proof -
  let ?A = "insert a {x. \<exists>j<512. x = entry_at (table_of pg) j}"
  obtain u where u: "root_walk st (vpath w) = Some u" "ptmem st (entry_at u (pti w)) = e" "e AND PAGE_PRESENT \<noteq> 0"
    using e by (auto simp: vmm_abs_vkey leaf_def Let_def split: option.splits if_splits)
  have out: "entry_at s j \<notin> ?A"
    if "q \<in> paths" "root_walk st q = Some s" "j < 512" "ptmem st (entry_at s j) AND PAGE_PRESENT \<noteq> 0" for q s j
  proof -
    note q = that(1,2)
    obtain sp where sp: "sp \<in> pmm_used (vmm_pmm st)" "sp < 65536" "s = table_of sp"
      using pt_wf_table[OF wf q] by metis
    then have "\<not> (\<exists>k<512. entry_at s j = entry_at (table_of pg) k)"
      using entry_at_inj[OF sp(2) pg(1) that(3)] pg(2) by blast
    then show ?thesis using that(4) absent by auto
  qed
  have W: "root_walk st' (vpath w) = root_walk st (vpath w)"
    unfolding root
  proof (rule walk_write[where A = ?A])
    fix q j r s assume q: "vpath w = q @ j # r" "root_walk st q = Some s"
    have "q \<in> paths" "j < 512" using vpath_paths(1)[of w] unfolding q(1) by (auto simp: paths_def)
    moreover have "ptmem st (entry_at s j) AND PAGE_PRESENT \<noteq> 0"
      using u(1) q(2) unfolding q(1) by (simp add: walk_append split: if_splits)
    ultimately show "entry_at s j \<notin> ?A" using out q(2) by blast
  qed (use same in blast)
  have "entry_at u (pti w) \<notin> ?A"
    using out[OF vpath_paths(1) u(1) vmm_virt_to_index_lt] u(2,3) by blast
  then have "ptmem st' (entry_at u (pti w)) = e" using same u(2) by blast
  then show ?thesis using W u(1,3) by (simp add: vmm_abs_vkey leaf_def)
qed

text \<open>
  The pages a walk for an address touches: the tables on its path and, when one of them is missing, whatever page
  the allocator may hand out for it.
\<close>

definition touched :: "vmm \<Rightarrow> u64 \<Rightarrow> nat set" where
  "touched st v = {pg. pg < 65536 \<and> ((\<exists>q \<in> insert [] (vprefixes v). root_walk st q = Some (table_of pg)) \<or>
     (root_walk st (vpath v) = None \<and> 256 \<le> pg \<and> pg \<notin> pmm_used (vmm_pmm st)))}"

lemma touched_lt: "pg \<in> touched st v \<Longrightarrow> pg < 65536"
  by (simp add: touched_def)

lemma touched_table:
  assumes "pt_wf st" "q \<in> insert [] (vprefixes v)" "root_walk st q = Some t"
  obtains pg where "pg \<in> touched st v" "pg \<in> pmm_used (vmm_pmm st)" "pg < 65536" "t = table_of pg"
proof -
  have "q \<in> paths" using assms(2) vprefixes_paths(1)[of v] by (auto simp: paths_def)
  from pt_wf_table[OF assms(1) this assms(3)] obtain pg where
    pg: "pg \<in> pmm_used (vmm_pmm st)" "pg < 65536" "t = table_of pg" by metis
  then have "pg \<in> touched st v" using assms(2,3) by (auto simp: touched_def)
  then show ?thesis using that pg by blast
qed

lemma vprefix_parts:
  assumes "p @ [i] \<in> vprefixes v"
  shows "p \<in> insert [] (vprefixes v)" "p \<in> paths" "length p < 3" "i < 512" "p @ [i] \<in> paths"
    "root_walk st (p @ [i]) = None \<Longrightarrow> root_walk st (vpath v) = None"
proof -
  have c: "p @ [i] = take 1 (vpath v) \<or> p @ [i] = take 2 (vpath v) \<or> p @ [i] = vpath v"
    using assms by (simp add: vprefixes_def)
  show pp: "p @ [i] \<in> paths" using assms vprefixes_paths(1) by blast
  then show "p \<in> paths" "length p < 3" "i < 512" by (auto simp: paths_def)
  show "p \<in> insert [] (vprefixes v)" using c by (auto simp: vprefixes_def vpath_def append_eq_Cons_conv)
  obtain r where "vpath v = (p @ [i]) @ r" using c by (metis append_take_drop_id append_Nil2)
  then show "root_walk st (vpath v) = None" if "root_walk st (p @ [i]) = None"
    using that by (simp only: walk_append) (simp add: walk_append)
qed

lemma of_nat_lt_512: "k < 512 \<Longrightarrow> (of_nat k :: u64) < 512"
  by (simp add: word_less_nat_alt unat_of_nat)

lemma zero_loop:
  assumes "pg < 65536" "n \<le> 512"
    and "\<And>k. k < n \<Longrightarrow> visible (s\<lparr>ptmem := fold (\<lambda>i m. m(entry_at (table_of pg) (of_nat i) := 0)) [0..<k] (ptmem s)\<rparr>) pg"
  shows "res_fold (\<lambda>i. pt_write (entry_at (table_of pg) (of_nat i)) 0) [0..<n] s
    = Inr (s\<lparr>ptmem := fold (\<lambda>i m. m(entry_at (table_of pg) (of_nat i) := 0)) [0..<n] (ptmem s)\<rparr>)"
  using assms(2,3)
proof (induction n)
  case (Suc n)
  let ?s = "s\<lparr>ptmem := fold (\<lambda>i m. m(entry_at (table_of pg) (of_nat i) := 0)) [0..<n] (ptmem s)\<rparr>"
  have "pt_write (entry_at (table_of pg) (of_nat n)) 0 ?s = Inr (?s\<lparr>ptmem := (ptmem ?s)(entry_at (table_of pg) (of_nat n) := 0)\<rparr>)"
    by (rule visible_access(2)[OF Suc.prems(2) assms(1) of_nat_lt_512]) (use Suc.prems(1) in simp_all)
  then show ?case using Suc by (simp add: res_fold_append del: fun_upd_apply)
qed simp

text \<open>With the tables of the path visible, the translated accesses of a table's creation are the direct ones.\<close>

lemma create_table_mmu:
  assumes wf: "pt_wf st" and rl: "root_loaded st" and vis: "visible st tp" "visible st pg"
    and tp: "tp < 65536" "i < 512" "ptmem st (entry_at (table_of tp) i) AND PAGE_PRESENT = 0"
    and al: "pmm_alloc_page (vmm_pmm st) = (pg * PMM_PAGE_SIZE, pmm')" "pg * PMM_PAGE_SIZE \<noteq> 0"
      "pg < 65536" "pg \<notin> pmm_used (vmm_pmm st)"
  shows "vmm_get_or_create_table_mmu (table_of tp) i (PAGE_PRESENT OR PAGE_WRITABLE) st = Inr (table_of pg, add_table (table_of tp) i pg pmm' st)"
    "visible st x \<Longrightarrow> visible (add_table (table_of tp) i pg pmm' st) x"
proof -
  let ?e = "of_nat (pg * PMM_PAGE_SIZE) OR (PAGE_PRESENT OR PAGE_WRITABLE)"
  let ?s1 = "st\<lparr>vmm_pmm := pmm', ptmem := (ptmem st)(entry_at (table_of tp) i := ?e)\<rparr>"
  let ?z = "\<lambda>k. ?s1\<lparr>ptmem := fold (\<lambda>i m. m(entry_at (table_of pg) (of_nat i) := 0)) [0..<k] (ptmem ?s1)\<rparr>"
  have vk: "visible (?z k) x" if "k \<le> 512" "visible st x" for k x
  proof (rule visible_kept[OF rl _ _ _ that(2)])
    fix e assume e: "vmm_abs st (vkey (table_of x)) = Some e"
    have "\<exists>j<512. y = entry_at (table_of pg) j" if "\<exists>j<k. y = entry_at (table_of pg) (of_nat j)" for y
      using that \<open>k \<le> 512\<close> of_nat_lt_512 by (metis order_less_le_trans)
    then show "vmm_abs (?z k) (vkey (table_of x)) = Some e"
      by (intro abs_kept[OF wf _ tp(3) al(3,4) _ e]) (auto simp: zero_table)
  qed (use rl in \<open>simp_all add: root_loaded_def\<close>)
  have T: "of_nat pg * PAGE_SIZE + KERNEL_VBASE64 = table_of pg" by (simp add: table_of_def)
  have s0: "visible (st\<lparr>vmm_pmm := pmm'\<rparr>) tp"
    using vis(1) by simp
  have z: "res_fold (\<lambda>i. pt_write (entry_at (table_of pg) (of_nat i)) 0) [0..<512] ?s1 = Inr (?z 512)"
    by (rule zero_loop[OF al(3)]) (use vk vis(2) in simp_all)
  have "add_table (table_of tp) i pg pmm' st = ?z 512" by (simp add: add_table_def)
  then show "visible st x \<Longrightarrow> visible (add_table (table_of tp) i pg pmm' st) x" using vk[of 512 x] by simp
  show "vmm_get_or_create_table_mmu (table_of tp) i (PAGE_PRESENT OR PAGE_WRITABLE) st = Inr (table_of pg, add_table (table_of tp) i pg pmm' st)"
    using al(1,2) tp(3) z T
    by (simp add: vmm_get_or_create_table_mmu_def visible_access(1)[OF vis(1) tp(1,2)]
        visible_access(2)[OF s0 tp(1,2)] add_table_def Let_def)
qed

text \<open>The condition under which the walks of an address are what the direct definitions say.\<close>

definition seen :: "u64 \<Rightarrow> vmm \<Rightarrow> bool" where
  "seen v st \<longleftrightarrow> pt_wf st \<and> root_loaded st \<and> (\<forall>pg \<in> touched st v. visible st pg)"

lemma seen_table:
  assumes "seen v st" "q \<in> insert [] (vprefixes v)" "root_walk st q = Some t" "i < 512"
  shows "pt_read st (entry_at t i) = Inr (ptmem st (entry_at t i))"
    "pt_write (entry_at t i) e st = Inr (st\<lparr>ptmem := (ptmem st)(entry_at t i := e)\<rparr>)"
proof -
  have wf: "pt_wf st" using assms(1) by (simp add: seen_def)
  obtain pg where pg: "pg \<in> touched st v" "pg < 65536" "t = table_of pg"
    using touched_table[OF wf assms(2,3)] by metis
  then have "visible st pg" using assms(1) by (simp add: seen_def)
  from visible_access[OF this pg(2) assms(4)] show
    "pt_read st (entry_at t i) = Inr (ptmem st (entry_at t i))"
    "pt_write (entry_at t i) e st = Inr (st\<lparr>ptmem := (ptmem st)(entry_at t i := e)\<rparr>)"
    using pg(3) by simp_all
qed

lemma touched_add_table:
  assumes wf: "pt_wf st" and pi: "p @ [i] \<in> vprefixes v" and t: "root_walk st p = Some t"
    and absent: "root_walk st (p @ [i]) = None"
    and fresh: "256 \<le> pg" "pg < 65536" "pg \<notin> pmm_used (vmm_pmm st)"
    and pmm': "pmm_used pmm' = insert pg (pmm_used (vmm_pmm st))"
  shows "touched (add_table t i pg pmm' st) v \<subseteq> touched st v"
proof
  note P = vprefix_parts[OF pi]
  note W = add_table_walk[OF wf P(2) t P(4) absent fresh(2,3), of _ pmm']
  have none: "root_walk st (vpath v) = None" by (rule P(6)[OF absent])
  fix x assume x: "x \<in> touched (add_table t i pg pmm' st) v"
  then have lt: "x < 65536" by (simp add: touched_def)
  have "x \<in> touched st v" if q: "q \<in> insert [] (vprefixes v)" "root_walk (add_table t i pg pmm' st) q = Some (table_of x)" for q
  proof -
    have "q \<in> paths" using q(1) vprefixes_paths(1)[of v] by (auto simp: paths_def)
    then have "q = p @ [i] \<and> table_of pg = table_of x \<or> root_walk st q = Some (table_of x)"
      using W q(2) by (auto split: if_splits)
    then show ?thesis
    proof
      assume "q = p @ [i] \<and> table_of pg = table_of x"
      then have "x = pg" using table_of_inj[OF fresh(2) lt] by simp
      then show ?thesis using none fresh by (simp add: touched_def)
    qed (use q(1) lt in \<open>auto simp: touched_def\<close>)
  qed
  moreover have "x \<in> touched st v" if "256 \<le> x" "x \<notin> pmm_used pmm'"
    using that lt none pmm' by (simp add: touched_def)
  ultimately show "x \<in> touched st v" using x
    unfolding touched_def[of "add_table t i pg pmm' st"] mem_Collect_eq add_table_simps(2) by blast
qed

lemma get_or_create_mmu:
  assumes sn: "seen v st" and pi: "p @ [i] \<in> vprefixes v" and t: "root_walk st p = Some t"
  shows "vmm_get_or_create_table_mmu t i (PAGE_PRESENT OR PAGE_WRITABLE) st
      = vmm_get_or_create_table t i (PAGE_PRESENT OR PAGE_WRITABLE) st"
    "vmm_get_or_create_table t i (PAGE_PRESENT OR PAGE_WRITABLE) st = Inr (u, st') \<Longrightarrow>
      seen v st' \<and> root_walk st' (p @ [i]) = Some u \<and> g_vmm_kernel_pml4 st' = g_vmm_kernel_pml4 st \<and>
      (\<forall>x. visible st x \<longrightarrow> visible st' x) \<and> touched st' v \<subseteq> touched st v"
proof -
  let ?f = "PAGE_PRESENT OR PAGE_WRITABLE"
  note P = vprefix_parts[OF pi]
  have wf: "pt_wf st" and rl: "root_loaded st" using sn by (simp_all add: seen_def)
  note rd = seen_table(1)[OF sn P(1) t P(4)]
  have both: "vmm_get_or_create_table_mmu t i ?f st = vmm_get_or_create_table t i ?f st \<and>
    (vmm_get_or_create_table t i ?f st = Inr (u, st') \<longrightarrow>
      seen v st' \<and> root_walk st' (p @ [i]) = Some u \<and> g_vmm_kernel_pml4 st' = g_vmm_kernel_pml4 st \<and>
      (\<forall>x. visible st x \<longrightarrow> visible st' x) \<and> touched st' v \<subseteq> touched st v)"
  proof (cases "ptmem st (entry_at t i) AND PAGE_PRESENT \<noteq> 0")
    case True
    then show ?thesis using rd sn t
      by (auto simp: vmm_get_or_create_table_mmu_def vmm_get_or_create_table_def walk_append)
  next
    case False
    have absent: "root_walk st (p @ [i]) = None" unfolding walk_append using t False by simp
    have inv: "pmm_inv 256 65536 (vmm_pmm st)" using wf by (simp add: pt_wf_def)
    obtain a pmm' where al: "pmm_alloc_page (vmm_pmm st) = (a, pmm')" by fastforce
    show ?thesis
    proof (cases "a = 0")
      case True
      then show ?thesis using rd False al
        by (simp add: vmm_get_or_create_table_mmu_def vmm_get_or_create_table_def)
    next
      case a: False
      obtain pg where pg: "a = pg * PMM_PAGE_SIZE" "256 \<le> pg" "pg < 65536" "pg \<notin> pmm_used (vmm_pmm st)"
        "pmm_used pmm' = insert pg (pmm_used (vmm_pmm st))" using pp.alloc_fresh[OF inv al a] by blast
      have inv': "pmm_inv 256 65536 pmm'" by (rule pp.alloc_inv[OF inv al])
      obtain tp where tp: "tp \<in> touched st v" "tp < 65536" "t = table_of tp" using touched_table[OF wf P(1) t] by metis
      have vis: "visible st tp" "visible st pg"
        using sn tp(1) P(6)[OF absent] pg by (simp_all add: seen_def touched_def)
      have ab: "ptmem st (entry_at (table_of tp) i) AND PAGE_PRESENT = 0" using False tp(3) by simp
      note c = create_table_mmu[OF wf rl vis tp(2) P(4) ab al[unfolded pg(1)] a[unfolded pg(1)] pg(3,4), folded tp(3)]
      have d: "vmm_get_or_create_table t i ?f st = Inr (table_of pg, add_table t i pg pmm' st)"
        using False al a pg(1) by (simp add: vmm_get_or_create_table_def add_table_def table_of_def Let_def)
      note sub = touched_add_table[OF wf pi t absent pg(2-5)]
      have "seen v (add_table t i pg pmm' st)"
        using sub sn c(2) add_table_wf[OF wf P(2) t P(4) absent pg(3,4) inv' pg(5)]
        by (auto simp: seen_def root_loaded_def)
      moreover have "root_walk (add_table t i pg pmm' st) (p @ [i]) = Some (table_of pg)"
        using add_table_walk[OF wf P(2) t P(4) absent pg(3,4) P(5)] by simp
      ultimately show ?thesis using c d sub by auto
    qed
  qed
  show "vmm_get_or_create_table_mmu t i ?f st = vmm_get_or_create_table t i ?f st" using both by blast
  show "vmm_get_or_create_table t i ?f st = Inr (u, st') \<Longrightarrow>
      seen v st' \<and> root_walk st' (p @ [i]) = Some u \<and> g_vmm_kernel_pml4 st' = g_vmm_kernel_pml4 st \<and>
      (\<forall>x. visible st x \<longrightarrow> visible st' x) \<and> touched st' v \<subseteq> touched st v" using both by blast
qed

section \<open>Mapping, looking up and unmapping\<close>

lemma vprefix_steps:
  "[] @ [vmm_virt_to_index v 3] \<in> vprefixes v"
  "[vmm_virt_to_index v 3] @ [vmm_virt_to_index v 2] \<in> vprefixes v"
  "[vmm_virt_to_index v 3, vmm_virt_to_index v 2] @ [vmm_virt_to_index v 1] \<in> vprefixes v"
  "vpath v \<in> insert [] (vprefixes v)"
  by (simp_all add: vprefixes_def vpath_def)

lemma get_or_create_mmu_cases:
  assumes "seen v st" "p @ [i] \<in> vprefixes v" "root_walk st p = Some t"
  obtains (fail) f where "vmm_get_or_create_table t i (PAGE_PRESENT OR PAGE_WRITABLE) st = Inl f"
      "vmm_get_or_create_table_mmu t i (PAGE_PRESENT OR PAGE_WRITABLE) st = Inl f"
  | (ok) u s where "vmm_get_or_create_table t i (PAGE_PRESENT OR PAGE_WRITABLE) st = Inr (u, s)"
      "vmm_get_or_create_table_mmu t i (PAGE_PRESENT OR PAGE_WRITABLE) st = Inr (u, s)"
      "seen v s" "root_walk s (p @ [i]) = Some u" "g_vmm_kernel_pml4 s = g_vmm_kernel_pml4 st" "touched s v \<subseteq> touched st v"
proof (cases "vmm_get_or_create_table t i (PAGE_PRESENT OR PAGE_WRITABLE) st")
  case (Inl f)
  then show ?thesis using fail get_or_create_mmu(1)[OF assms] by simp
next
  case (Inr r)
  then show ?thesis using ok get_or_create_mmu[OF assms] by (cases r) auto
qed

text \<open>The mapping is the direct one, and its last step is a write into the last table of the path.\<close>

definition map_result :: "u64 \<Rightarrow> u64 \<Rightarrow> u64 \<Rightarrow> vmm \<Rightarrow> vmm \<Rightarrow> bool" where
  "map_result v phys flags st st' \<longleftrightarrow>
     (\<exists>s t. seen v s \<and> touched s v \<subseteq> touched st v \<and> root_walk s (vpath v) = Some t \<and> g_vmm_kernel_pml4 s \<noteq> 0 \<and>
        st' = vmm_invalidate_page v (s\<lparr>ptmem := (ptmem s)(entry_at t (pti v) := pte_of phys flags)\<rparr>))"

lemma map_page_mmu:
  assumes sn: "seen v st" and nz: "g_vmm_kernel_pml4 st \<noteq> 0"
  shows "vmm_map_page_mmu v phys flags st = vmm_map_page v phys flags st \<and>
    (\<forall>st'. vmm_map_page v phys flags st = Inr st' \<longrightarrow> map_result v phys flags st st')"
proof -
  have root: "root_walk st [] = Some (g_vmm_kernel_pml4 st)" by simp
  show ?thesis
    using sn vprefix_steps(1) root
  proof (cases rule: get_or_create_mmu_cases)
    case fail
    then show ?thesis using nz by (simp add: vmm_map_page_mmu_def vmm_map_page_def)
  next
    case (ok t1 s1)
    note 1 = ok
    have w1: "root_walk s1 [vmm_virt_to_index v 3] = Some t1" using 1(4) by (simp only: append_Nil)
    show ?thesis
      using 1(3) vprefix_steps(2) w1
    proof (cases rule: get_or_create_mmu_cases)
      case fail
      then show ?thesis using nz 1(1,2) by (simp add: vmm_map_page_mmu_def vmm_map_page_def)
    next
      case (ok t2 s2)
      note 2 = ok
      have w2: "root_walk s2 [vmm_virt_to_index v 3, vmm_virt_to_index v 2] = Some t2" using 2(4) by (simp only: append_Cons append_Nil)
      show ?thesis
        using 2(3) vprefix_steps(3) w2
      proof (cases rule: get_or_create_mmu_cases)
        case fail
        then show ?thesis using nz 1(1,2) 2(1,2) by (simp add: vmm_map_page_mmu_def vmm_map_page_def)
      next
        case (ok t3 s3)
        have w3: "root_walk s3 (vpath v) = Some t3" using ok(4) by (simp only: vpath_def append_Cons append_Nil)
        have w: "pt_write (entry_at t3 (pti v)) e s3 = Inr (s3\<lparr>ptmem := (ptmem s3)(entry_at t3 (pti v) := e)\<rparr>)" for e
          by (rule seen_table(2)[OF ok(3) vprefix_steps(4) w3 vmm_virt_to_index_lt])
        have "vmm_map_page v phys flags st = Inr (vmm_invalidate_page v (s3\<lparr>ptmem := (ptmem s3)(entry_at t3 (pti v) := pte_of phys flags)\<rparr>))"
          using nz 1(1) 2(1) ok(1) by (simp add: vmm_map_page_def pte_of_def Let_def)
        moreover have "vmm_map_page_mmu v phys flags st = vmm_map_page v phys flags st"
          using nz 1(1,2) 2(1,2) ok(1,2) w by (simp add: vmm_map_page_mmu_def vmm_map_page_def Let_def)
        moreover have "touched s3 v \<subseteq> touched st v" "g_vmm_kernel_pml4 s3 \<noteq> 0"
          using 1(5,6) 2(5,6) ok(5,6) nz by auto
        ultimately show ?thesis using ok(3) w3 unfolding map_result_def by auto
      qed
    qed
  qed
qed

lemma get_pte_mmu:
  assumes sn: "seen v st"
  shows "vmm_get_pte_mmu v st = Inr (vmm_get_pte v st)"
proof -
  let ?i = "vmm_virt_to_index v" and ?T = "\<lambda>e. (e AND NOT 0xFFF) + KERNEL_VBASE64"
  have r: "pt_read st (entry_at t (?i l)) = Inr (ptmem st (entry_at t (?i l)))"
    if "q \<in> {[], [?i 3], [?i 3, ?i 2]}" "root_walk st q = Some t" for q t l
    using that by (intro seen_table(1)[OF sn _ that(2) vmm_virt_to_index_lt]) (auto simp: vprefixes_def vpath_def)
  note r3 = r[of "[]" _ 3, simplified] and r2 = r[of "[?i 3]" _ 2, simplified] and r1 = r[of "[?i 3, ?i 2]" _ 1, simplified]
  show ?thesis using r3 r2 r1
    by (auto simp: vmm_get_pte_mmu_def vmm_get_pte_def Let_def)
qed

lemma lookup_mmu:
  assumes sn: "seen v st" and nz: "g_vmm_kernel_pml4 st \<noteq> 0"
  shows "vmm_is_mapped_mmu v st = Inr (vmm_is_mapped v st)" "vmm_get_phys_mmu v st = Inr (vmm_get_phys v st)"
    "vmm_unmap_page_mmu v st = Inr (vmm_unmap_page v st)"
proof -
  have pte: "vmm_get_pte v st = 0 \<or> (\<exists>t. root_walk st (vpath v) = Some t \<and> vmm_get_pte v st = entry_at t (pti v))"
    using vmm_get_pte_walk[OF nz, of v] by (auto split: option.splits)
  have a: "pt_read st (vmm_get_pte v st) = Inr (ptmem st (vmm_get_pte v st))"
    "pt_write (vmm_get_pte v st) e st = Inr (st\<lparr>ptmem := (ptmem st)(vmm_get_pte v st := e)\<rparr>)"
    if "vmm_get_pte v st \<noteq> 0" for e
    using pte that seen_table[OF sn vprefix_steps(4) _ vmm_virt_to_index_lt] by auto
  note g = get_pte_mmu[OF sn]
  show "vmm_is_mapped_mmu v st = Inr (vmm_is_mapped v st)"
    using a(1) by (simp add: vmm_is_mapped_mmu_def vmm_is_mapped_def g Let_def)
  show "vmm_get_phys_mmu v st = Inr (vmm_get_phys v st)"
    using a(1) by (simp add: vmm_get_phys_mmu_def vmm_get_phys_def g Let_def)
  show "vmm_unmap_page_mmu v st = Inr (vmm_unmap_page v st)"
    using a nz by (simp add: vmm_unmap_page_mmu_def vmm_unmap_page_def g Let_def)
qed

text \<open>Writing the last-level entry of an address that is not the direct-map page of a touched table hides none.\<close>

definition tables_visible :: "vmm \<Rightarrow> u64 \<Rightarrow> bool" where
  "tables_visible st v \<longleftrightarrow> (\<forall>pg \<in> touched st v. visible st pg \<and> vpn (table_of pg) \<noteq> vpn v)"

lemma seen_leaf_write:
  fixes e :: u64
  assumes sn: "seen u s" and nz: "g_vmm_kernel_pml4 s \<noteq> 0" and t: "root_walk s (vpath v) = Some t"
    and sep: "\<forall>pg \<in> touched s u. vpn (table_of pg) \<noteq> vpn v"
  defines "s' \<equiv> vmm_invalidate_page v (s\<lparr>ptmem := (ptmem s)(entry_at t (pti v) := e)\<rparr>)"
  shows "seen u s'" "touched s' u = touched s u" "root_walk s' (vpath u) = root_walk s (vpath u)"
proof -
  have wf: "vmm_wf s" and rl: "root_loaded s" using sn nz by (simp_all add: seen_def vmm_wf_def)
  note lw = leaf_write[OF wf t vpath_paths vmm_virt_to_index_lt, where e = e]
  have rl': "root_loaded s'" using rl by (simp add: root_loaded_def s'_def)
  have W: "root_walk s' q = root_walk s q" if "q \<in> paths" for q using lw(4)[OF that] by (simp add: s'_def)
  then show "root_walk s' (vpath u) = root_walk s (vpath u)" using vpath_paths(1) by blast
  have "insert [] (vprefixes u) \<subseteq> paths" using vprefixes_paths(1)[of u] by (auto simp: paths_def)
  then have "\<And>q. q \<in> insert [] (vprefixes u) \<Longrightarrow> root_walk s' q = root_walk s q" using W by blast
  moreover have "root_walk s' (vpath u) = root_walk s (vpath u)" "vmm_pmm s' = vmm_pmm s"
    "g_vmm_kernel_pml4 s' = g_vmm_kernel_pml4 s"
    using W vpath_paths(1) by (simp_all add: s'_def)
  ultimately show T: "touched s' u = touched s u" unfolding touched_def by (simp cong: bex_cong)
  have "visible s' pg" if pg: "pg \<in> touched s u" for pg
  proof (rule visible_kept[OF rl rl'])
    have n: "vpn (table_of pg) \<noteq> vpn v" using sep pg by blast
    then show "tlb s' (vpn (table_of pg)) = tlb s (vpn (table_of pg))" by (simp add: s'_def)
    have "vkey (table_of pg) \<noteq> vkey v" using n vkey_eq_iff by blast
    then show "vmm_abs s' (vkey (table_of pg)) = Some x" if "vmm_abs s (vkey (table_of pg)) = Some x" for x
      using that lw(3)[OF vkey_path[of "table_of pg"]] by (auto simp: s'_def vmm_abs_def vkey_def)
    show "visible s pg" using sn pg by (simp add: seen_def)
  qed
  then show "seen u s'" using T rl' lw(1) by (simp add: seen_def s'_def vmm_wf_def pt_wf_def)
qed

lemma map_unmap_seen:
  assumes sn: "seen v st" and nz: "g_vmm_kernel_pml4 st \<noteq> 0"
    and sep: "\<forall>pg \<in> touched st v. vpn (table_of pg) \<noteq> vpn v" and m: "vmm_map_page v phys flags st = Inr st'"
  shows "seen v st'" "touched st' v \<subseteq> touched st v" "g_vmm_kernel_pml4 st' \<noteq> 0"
proof -
  obtain s t where s: "seen v s" "touched s v \<subseteq> touched st v" "root_walk s (vpath v) = Some t" "g_vmm_kernel_pml4 s \<noteq> 0"
    "st' = vmm_invalidate_page v (s\<lparr>ptmem := (ptmem s)(entry_at t (pti v) := pte_of phys flags)\<rparr>)"
    using map_page_mmu[OF sn nz, of phys flags] m unfolding map_result_def by blast
  have "\<forall>pg \<in> touched s v. vpn (table_of pg) \<noteq> vpn v" using s(2) sep by blast
  from seen_leaf_write[OF s(1,4,3) this, of "pte_of phys flags"]
  show "seen v st'" "touched st' v \<subseteq> touched st v" "g_vmm_kernel_pml4 st' \<noteq> 0" using s(2,4,5) by auto
qed

lemma unmap_seen:
  assumes sn: "seen v st" and nz: "g_vmm_kernel_pml4 st \<noteq> 0"
    and sep: "\<forall>pg \<in> touched st v. vpn (table_of pg) \<noteq> vpn v"
  shows "seen v (vmm_unmap_page v st)" "touched (vmm_unmap_page v st) v = touched st v"
proof -
  have "seen v (vmm_unmap_page v st) \<and> touched (vmm_unmap_page v st) v = touched st v"
  proof (cases "root_walk st (vpath v)")
    case None
    then have "vmm_unmap_page v st = st" using vmm_get_pte_walk[OF nz, of v] by (simp add: vmm_unmap_page_def)
    then show ?thesis using sn by simp
  next
    case (Some t)
    then have "vmm_get_pte v st = entry_at t (pti v)" using vmm_get_pte_walk[OF nz, of v] by simp
    then have "vmm_unmap_page v st = st \<or>
      vmm_unmap_page v st = vmm_invalidate_page v (st\<lparr>ptmem := (ptmem st)(entry_at t (pti v) := 0)\<rparr>)"
      by (auto simp: vmm_unmap_page_def Let_def)
    then show ?thesis using seen_leaf_write[OF sn nz Some sep, of 0] sn by (elim disjE) simp_all
  qed
  then show "seen v (vmm_unmap_page v st)" "touched (vmm_unmap_page v st) v = touched st v" by blast+
qed

lemma map_coherent:
  assumes "map_effect v phys flags st st'" "tlb_coherent st"
  shows "tlb_coherent st'"
  using assms(2) map_effect_abs[OF assms(1)] assms(1) by (auto simp: tlb_coherent_def map_effect_def)

lemma unmap_coherent:
  assumes "vmm_wf st" "tlb_coherent st"
  shows "tlb_coherent (vmm_unmap_page v st)"
proof -
  have "tlb st (vpn v) = None" if "vmm_abs st (vkey v) = None"
    using assms(2) that by (cases "tlb st (vpn v)") (auto simp: tlb_coherent_def)
  then show ?thesis
    using assms(2) unmap_page_abs(2,3)[OF assms(1), of v] by (auto simp: tlb_coherent_def split: if_splits)
qed

text \<open>
  C3 (vmm_map_unmap_refine): with the kernel's tables loaded and well-formed, no stale translation cached and three
  pages to hand out, suppose the tables on the path of \<^verbatim>\<open>virt\<close> (and, if the path is incomplete, the free pages)
  are visible at their direct-map addresses and \<^verbatim>\<open>virt\<close> itself is not one of those direct-map pages. Then
  \<^verbatim>\<open>vmm_map_page\<close>, all its table accesses translated by the processor, succeeds and changes the processor's
  translation of the page of \<^verbatim>\<open>virt\<close> alone, to the given frame; \<^verbatim>\<open>vmm_get_phys\<close> then reports it; a following
  \<^verbatim>\<open>vmm_unmap_page\<close> removes that translation alone and \<^verbatim>\<open>vmm_is_mapped\<close> is false. The tables stay well-formed
  and visible, and no stale translation stays cached.
\<close>

theorem vmm_map_unmap_refine:
  assumes "vmm_wf st" "root_loaded st" "tlb_coherent st" "3 \<le> pmm_avail (vmm_pmm st)" "tables_visible st virt"
  shows "\<exists>st' st''. vmm_map_page_mmu virt phys flags st = Inr st' \<and> vmm_unmap_page_mmu virt st' = Inr st'' \<and>
    (\<forall>w. mmu_entry st' w = (if vpn w = vpn virt then Some (pte_of phys flags) else mmu_entry st w)) \<and>
    vmm_get_phys_mmu virt st' = Inr ((phys AND NOT 0xFFF) OR (virt AND 0xFFF)) \<and>
    (\<forall>w. mmu_entry st'' w = (if vpn w = vpn virt then None else mmu_entry st w)) \<and>
    vmm_is_mapped_mmu virt st'' = Inr False \<and>
    vmm_wf st' \<and> tlb_coherent st' \<and> tables_visible st' virt \<and> vmm_wf st'' \<and> tlb_coherent st'' \<and> tables_visible st'' virt"
proof -
  have sn: "seen virt st" and nz: "g_vmm_kernel_pml4 st \<noteq> 0" and sep: "\<forall>pg \<in> touched st virt. vpn (table_of pg) \<noteq> vpn virt"
    using assms(1,2,5) by (simp_all add: seen_def vmm_wf_def tables_visible_def)
  obtain st' where m: "vmm_map_page virt phys flags st = Inr st'" "map_effect virt phys flags st st'"
    using map_page_three[OF assms(1,4)] by blast
  note M = map_unmap_seen[OF sn nz sep m(1)]
  have sep': "\<forall>pg \<in> touched st' virt. vpn (table_of pg) \<noteq> vpn virt" using M(2) sep by blast
  note U = unmap_seen[OF M(1,3) sep'] and L = lookup_mmu[OF M(1,3)]
  let ?st'' = "vmm_unmap_page virt st'"
  have wf: "vmm_wf st'" using m(2) by (simp add: map_effect_def)
  note u = unmap_page_abs[OF wf, of virt]
  have co: "tlb_coherent st'" "tlb_coherent ?st''" by (rule map_coherent[OF m(2) assms(3)] unmap_coherent[OF wf] map_coherent[OF m(2) assms(3)])+
  have rl: "root_loaded st'" "root_loaded ?st''" using M(1) U(1) by (simp_all add: seen_def)
  have e: "mmu_entry st' w = (if vpn w = vpn virt then Some (pte_of phys flags) else mmu_entry st w)" for w
    by (simp add: mmu_entry_coherent[OF rl(1) co(1)] mmu_entry_coherent[OF assms(2,3)] map_effect_abs[OF m(2)])
  have e'': "mmu_entry ?st'' w = (if vpn w = vpn virt then None else mmu_entry st w)" for w
    by (simp add: mmu_entry_coherent[OF rl(2) co(2)] mmu_entry_coherent[OF assms(2,3)] u(2) map_effect_abs[OF m(2)])
  have "vmm_get_phys virt st' = (phys AND NOT 0xFFF) OR (virt AND 0xFFF)"
    using mapped_phys[OF wf refl] map_effect_abs[OF m(2), of virt] by simp
  moreover have "\<not> vmm_is_mapped virt ?st''" using vmm_lookup(1)[OF u(1), of virt] u(2)[of virt] by simp
  moreover have "vmm_is_mapped_mmu virt ?st'' = Inr (vmm_is_mapped virt ?st'')"
    using lookup_mmu(1)[OF U(1)] u(5) M(3) by simp
  moreover have "tables_visible st' virt" "tables_visible ?st'' virt"
    using M(1) U sep' by (simp_all add: tables_visible_def seen_def)
  ultimately show ?thesis
    using map_page_mmu[OF sn nz, of phys flags] m(1) L e e'' wf co u(1) by (intro exI[of _ st'] exI[of _ ?st'']) simp
qed

text \<open>
  After \<^verbatim>\<open>vmm_init\<close> every page the allocator manages is visible, so that any address outside the direct map may be
  mapped.
\<close>

lemma init_visible:
  assumes "root_loaded st" "tlb_coherent st" "pg < 65536"
    and "\<forall>k < 0x40000. vmm_abs st (vkey (KERNEL_VBASE64 + of_nat k * PAGE_SIZE))
       = Some (pte_of (of_nat k * PAGE_SIZE) (PAGE_PRESENT OR PAGE_WRITABLE))"
  shows "visible st pg"
proof -
  let ?e = "pte_of (of_nat pg * PAGE_SIZE) (PAGE_PRESENT OR PAGE_WRITABLE)"
  have "table_of pg = KERNEL_VBASE64 + of_nat pg * PAGE_SIZE" by (simp add: table_of_def)
  then have "mmu_entry st (table_of pg) = Some ?e"
    using assms by (simp add: mmu_entry_coherent)
  moreover have "?e AND 0xFFFFFFFFFF000 = of_nat pg * PAGE_SIZE"
  proof -
    have m: "(0xFFFFFFFFFF000 :: u64) = push_bit 12 (mask 40)" "(0xFFF :: u64) = mask 12" "(PAGE_PRESENT OR PAGE_WRITABLE) = (mask 2 :: u64)"
      "PAGE_PRESENT = mask 1" by (simp_all add: mask_eq_exp_minus_1 push_bit_eq_mult)
    have "unat (of_nat pg :: u64) < 2 ^ 16" using assms(3) by (simp add: unat_of_nat)
    then have "(of_nat pg :: u64) = take_bit 16 (of_nat pg)" by (simp add: word_unat_eq_iff unsigned_take_bit_eq take_bit_nat_eq_self)
    then have p: "of_nat pg * PAGE_SIZE = push_bit 12 (take_bit 16 (of_nat pg))" by (simp add: push_bit_eq_mult)
    show ?thesis unfolding p pte_of_def m
      by (rule bit_word_eqI) (auto simp: bit_simps simp del: mask_numeral)
  qed
  ultimately show ?thesis
    using entry_in_page(3)[OF assms(3), of 0] by (simp add: visible_def mmu_def)
qed

lemma vpn_direct: "pg < 65536 \<Longrightarrow> unat (vpn (table_of pg)) = 0xFFFF80000 + pg"
proof -
  assume pg: "pg < 65536"
  have "unat (table_of pg) = (0xFFFFFFFF80000 + pg) * 4096"
    using unat_entry_at[OF pg, of 0] by (simp add: entry_at_def)
  then have "unat (table_of pg) div 4096 = 0xFFFFFFFF80000 + pg" by simp
  moreover have "(0xFFFFFFFF80000 + pg) mod 2 ^ 36 = 0xFFFF80000 + pg"
    using pg mod_mult_self1[of "0xFFFF80000 + pg" 65535 "2 ^ 36"] by simp
  ultimately show ?thesis by (simp only: unat_vpn)
qed

theorem vmm_map_unmap_refine_witness:
  "\<exists>st st' st''. vmm_init (vmm_image (pmm_init 0xFFFFFFFF80100000 pmm_init_state)) = Inr st \<and>
     vmm_map_page_mmu 0x80000000 0x7000 PAGE_WRITABLE st = Inr st' \<and>
     mmu st' 0x80000123 = Some 0x7123 \<and> mmu st' 0xFFFFFFFF80001000 = Some 0x1000 \<and>
     vmm_unmap_page_mmu 0x80000000 st' = Inr st'' \<and> mmu st'' 0x80000123 = None"
proof -
  let ?b = "vmm_image (pmm_init 0xFFFFFFFF80100000 pmm_init_state)"
  have "pmm_inv 256 65536 (vmm_pmm ?b)" "1029 \<le> pmm_avail (vmm_pmm ?b)" and av: "2000 \<le> pmm_avail (vmm_pmm ?b)"
    using pmm_init_spec(1)[OF boot_kernel_example(1)] boot_avail[OF boot_kernel_example(1)] boot_kernel_example(2)
    by (simp_all add: vmm_image_def)
  from vmm_init_ok[OF this(1,2)] obtain st where st: "vmm_init ?b = Inr st" "vmm_wf st" "cr3 st = VIRT_TO_PHYS (g_vmm_kernel_pml4 st)"
    "\<forall>k < 0x40000. vmm_abs st (vkey (KERNEL_VBASE64 + of_nat k * PAGE_SIZE))
       = Some (pte_of (of_nat k * PAGE_SIZE) (PAGE_PRESENT OR PAGE_WRITABLE))"
    "pmm_avail (vmm_pmm ?b) \<le> pmm_avail (vmm_pmm st) + 1029" "tlb ?b = (\<lambda>_. None) \<longrightarrow> tlb st = (\<lambda>_. None)" by blast
  have rl: "root_loaded st" using st(3) by (simp add: root_loaded_def)
  have co: "tlb_coherent st" using st(6) by (simp add: tlb_coherent_def vmm_image_def)
  have vis: "visible st pg" if "pg < 65536" for pg by (rule init_visible[OF rl co that st(4)])
  have "vpn (table_of pg) \<noteq> vpn 0x80000000" if "pg < 65536" for pg
    using vpn_direct[OF that] unat_vpn[of "0x80000000"] by fastforce
  then have tv: "tables_visible st 0x80000000"
    using vis touched_lt unfolding tables_visible_def by blast
  have "3 \<le> pmm_avail (vmm_pmm st)" using st(5) av by linarith
  from vmm_map_unmap_refine[OF st(2) rl co this tv, where phys = "0x7000" and flags = PAGE_WRITABLE] obtain st' st'' where
    m: "vmm_map_page_mmu 0x80000000 0x7000 PAGE_WRITABLE st = Inr st'" "vmm_unmap_page_mmu 0x80000000 st' = Inr st''"
    "\<forall>w. mmu_entry st' w = (if vpn w = vpn 0x80000000 then Some (pte_of 0x7000 PAGE_WRITABLE) else mmu_entry st w)"
    "\<forall>w. mmu_entry st'' w = (if vpn w = vpn 0x80000000 then None else mmu_entry st w)" by blast
  have v: "vpn 0x80000123 = vpn 0x80000000" "vpn 0xFFFFFFFF80001000 \<noteq> vpn 0x80000000" by (simp_all add: vpn_def)
  have "mmu st 0xFFFFFFFF80001000 = Some 0x1000" using vis[of 1] by (simp add: visible_def table_of_def)
  then have "mmu st' 0xFFFFFFFF80001000 = Some 0x1000" using m(3) v(2) by (simp add: mmu_def)
  moreover have "mmu st' 0x80000123 = Some 0x7123" using m(3) v(1) by (simp add: mmu_def pte_of_def)
  moreover have "mmu st'' 0x80000123 = None" using m(4) v(1) by (simp add: mmu_def)
  ultimately show ?thesis using st(1) m(1,2) by blast
qed

section \<open>The heap window\<close>

text \<open>
  The heap maps its window over part of the direct map. While the tables of the window exist and lie outside it, every
  mapping of the extension loop finds them, so that the loop with translated accesses is the one of \<^theory_text>\<open>Gos_Heap\<close>.
\<close>

definition window_visible :: "u64 set \<Rightarrow> vmm \<Rightarrow> bool" where
  "window_visible A st \<longleftrightarrow> vmm_wf st \<and> root_loaded st \<and>
     (\<forall>v \<in> A. root_walk st (vpath v) \<noteq> None \<and> (\<forall>pg \<in> touched st v. visible st pg \<and> (\<forall>w \<in> A. vpn (table_of pg) \<noteq> vpn w)))"

lemma map_page_present:
  assumes "g_vmm_kernel_pml4 st \<noteq> 0" "root_walk st (vpath v) = Some t"
  shows "vmm_map_page v phys flags st = Inr (vmm_invalidate_page v (st\<lparr>ptmem := (ptmem st)(entry_at t (pti v) := pte_of phys flags)\<rparr>))"
  using assms by (auto simp: vmm_map_page_def vmm_get_or_create_table_def vpath_def pte_of_def Let_def split: if_splits)

lemma window_alloc:
  assumes "window_visible A st" "pmm_alloc_page (vmm_pmm st) = (a, pmm')"
  shows "window_visible A (st\<lparr>vmm_pmm := pmm'\<rparr>)"
proof -
  have "touched (st\<lparr>vmm_pmm := pmm'\<rparr>) v = touched st v" if "v \<in> A" for v
  proof -
    have "root_walk st (vpath v) \<noteq> None" using assms(1) that unfolding window_visible_def by blast
    then show ?thesis by (auto simp: touched_def)
  qed
  then show ?thesis
    using assms(1) vmm_wf_alloc[OF _ assms(2)] by (simp add: window_visible_def root_loaded_def)
qed

lemma window_map:
  assumes w: "window_visible A st" and v: "v \<in> A"
  obtains st' where "vmm_map_page v phys flags st = Inr st'" "vmm_map_page_mmu v phys flags st = Inr st'" "window_visible A st'"
proof -
  have nz: "g_vmm_kernel_pml4 st \<noteq> 0" and sn: "\<And>u. u \<in> A \<Longrightarrow> seen u st"
    using w by (auto simp: window_visible_def vmm_wf_def seen_def)
  obtain t where t: "root_walk st (vpath v) = Some t" using w v unfolding window_visible_def by blast
  let ?s = "vmm_invalidate_page v (st\<lparr>ptmem := (ptmem st)(entry_at t (pti v) := pte_of phys flags)\<rparr>)"
  have m: "vmm_map_page v phys flags st = Inr ?s" by (rule map_page_present[OF nz t])
  have "seen u ?s" "touched ?s u = touched st u" "root_walk ?s (vpath u) = root_walk st (vpath u)" if u: "u \<in> A" for u
  proof -
    have "\<forall>pg \<in> touched st u. vpn (table_of pg) \<noteq> vpn v" using w u v unfolding window_visible_def by blast
    from seen_leaf_write[OF sn[OF u] nz t this, of "pte_of phys flags"]
    show "seen u ?s" "touched ?s u = touched st u" "root_walk ?s (vpath u) = root_walk st (vpath u)" by blast+
  qed
  note L = this
  have "vmm_wf ?s" "root_loaded ?s" using L(1)[OF v] nz by (simp_all add: seen_def vmm_wf_def)
  then have "window_visible A ?s" using w L unfolding window_visible_def seen_def by metis
  then show ?thesis using that m map_page_mmu[OF sn[OF v] nz, of phys flags] by simp
qed

lemma heap_extend_loop_mmu_eq:
  assumes "window_visible A (hvmm st)" "\<And>i. i \<in> set is \<Longrightarrow> of_nat (add64 (g_heap_end st) (i * PMM_PAGE_SIZE)) \<in> A"
  shows "heap_extend_loop_mmu is st = heap_extend_loop is st"
  using assms
proof (induction "is" arbitrary: st)
  case (Cons i "is")
  obtain a pmm' where al: "pmm_alloc_page (vmm_pmm (hvmm st)) = (a, pmm')" by fastforce
  let ?v = "of_nat (add64 (g_heap_end st) (i * PMM_PAGE_SIZE)) :: u64"
  have v: "?v \<in> A" using Cons.prems(2) by simp
  obtain s where s: "vmm_map_page ?v (of_nat a) (PAGE_PRESENT OR PAGE_WRITABLE) ((hvmm st)\<lparr>vmm_pmm := pmm'\<rparr>) = Inr s"
    "vmm_map_page_mmu ?v (of_nat a) (PAGE_PRESENT OR PAGE_WRITABLE) ((hvmm st)\<lparr>vmm_pmm := pmm'\<rparr>) = Inr s" "window_visible A s"
    using window_map[OF window_alloc[OF Cons.prems(1) al] v] by blast
  have "heap_extend_loop_mmu is (st\<lparr>hvmm := s\<rparr>) = heap_extend_loop is (st\<lparr>hvmm := s\<rparr>)"
    by (rule Cons.IH) (use s(3) Cons.prems(2) in simp_all)
  then show ?case using al s(1,2) by (simp add: Let_def)
qed simp

end
