(* ===== verification/Gos_Sort.thy ===== *)
theory Gos_Sort
  imports Gos_Prelude "HOL-Library.Multiset" "HOL-Library.Signed_Division"
begin

text \<open>
  \<^verbatim>\<open>lib/sort.c\<close> on the list of elements of the array: swapping \<^verbatim>\<open>size\<close> bytes exchanges two elements, and
  the comparison function is a parameter. An index outside the array is the out-of-bounds
  fault; the loops of \<^verbatim>\<open>partition\<close>, \<^verbatim>\<open>qsort\<close> and \<^verbatim>\<open>sift_down\<close> need not end, so they are partial.
\<close>

type_synonym 'a cmp = "'a \<Rightarrow> 'a \<Rightarrow> int"

definition swap :: "nat \<Rightarrow> nat \<Rightarrow> 'a list \<Rightarrow> 'a list" where
  "swap i j xs = xs[i := xs ! j, j := xs ! i]"

partial_function (option) scan_up :: "'a cmp \<Rightarrow> 'a list \<Rightarrow> nat \<Rightarrow> nat \<Rightarrow> nat res option" where
  "scan_up cmp xs pivot i =
     (if length xs \<le> i then Some (Inl OutOfBounds)
      else if cmp (xs ! i) (xs ! pivot) < 0 then scan_up cmp xs pivot (i + 1) else Some (Inr i))"

partial_function (option) scan_down :: "'a cmp \<Rightarrow> 'a list \<Rightarrow> nat \<Rightarrow> nat \<Rightarrow> nat res option" where
  "scan_down cmp xs pivot j =
     (if length xs \<le> j then Some (Inl OutOfBounds)
      else if cmp (xs ! j) (xs ! pivot) > 0 then scan_down cmp xs pivot (dec64 j) else Some (Inr j))"

partial_function (option) partition_loop ::
  "'a cmp \<Rightarrow> nat \<Rightarrow> nat \<Rightarrow> nat \<Rightarrow> 'a list \<Rightarrow> (nat \<times> 'a list) res option" where
  "partition_loop cmp pivot i j xs =
     (if i \<le> j then
        Option.bind (scan_up cmp xs pivot i) (\<lambda>ri. case ri of Inl f \<Rightarrow> Some (Inl f) | Inr i \<Rightarrow>
        Option.bind (scan_down cmp xs pivot j) (\<lambda>rj. case rj of Inl f \<Rightarrow> Some (Inl f) | Inr j \<Rightarrow>
          if i \<le> j
          then partition_loop cmp pivot (i + 1) (if j > 0 then j - 1 else j) (if i \<noteq> j then swap i j xs else xs)
          else partition_loop cmp pivot i j xs))
      else Some (Inr (i, xs)))"

definition partition :: "'a cmp \<Rightarrow> 'a list \<Rightarrow> (nat \<times> 'a list) res option" where
  "partition cmp xs = partition_loop cmp (length xs div 2) 0 (length xs - 1) xs"

text \<open>\<^verbatim>\<open>qsort\<close> of the elements \<open>xs\<close>; the two recursive calls sort the parts in place.\<close>

partial_function (option) qsort :: "'a cmp \<Rightarrow> 'a list \<Rightarrow> 'a list res option" where
  "qsort cmp xs =
     (if length xs \<le> 1 then Some (Inr xs)
      else Option.bind (partition cmp xs) (\<lambda>r. case r of Inl f \<Rightarrow> Some (Inl f) | Inr (p, xs) \<Rightarrow>
        Option.bind (if p > 1 then qsort cmp (take p xs) else Some (Inr (take p xs))) (\<lambda>r1.
        case r1 of Inl f \<Rightarrow> Some (Inl f) | Inr ys \<Rightarrow>
        Option.bind (if p < length xs - 1 then qsort cmp (drop p xs) else Some (Inr (drop p xs))) (\<lambda>r2.
        case r2 of Inl f \<Rightarrow> Some (Inl f) | Inr zs \<Rightarrow> Some (Inr (ys @ zs))))))"

text \<open>The index of the larger child, or the root itself, as the three comparisons pick it.\<close>

definition sift_pick :: "'a cmp \<Rightarrow> 'a list \<Rightarrow> nat \<Rightarrow> nat \<Rightarrow> nat" where
  "sift_pick cmp xs root endi =
     (let child = root * 2 + 1;
          swap_idx = (if cmp (xs ! root) (xs ! child) < 0 then child else root)
      in if child + 1 \<le> endi \<and> cmp (xs ! swap_idx) (xs ! (child + 1)) < 0 then child + 1 else swap_idx)"

function sift_down :: "'a cmp \<Rightarrow> nat \<Rightarrow> nat \<Rightarrow> 'a list \<Rightarrow> 'a list" where
  "sift_down cmp root endi xs =
     (if root * 2 + 1 \<le> endi then
        let swap_idx = sift_pick cmp xs root endi in
        if swap_idx = root then xs else sift_down cmp swap_idx endi (swap root swap_idx xs)
      else xs)"
  by pat_completeness auto
termination
  by (relation "measure (\<lambda>(cmp, root, endi, xs). endi - root)") (auto simp: sift_pick_def Let_def split: if_splits)

text \<open>The first loop counts an \<^verbatim>\<open>int\<close> down from \<^verbatim>\<open>((int)nmemb - 2) / 2\<close> to 0.\<close>

definition heapify :: "'a cmp \<Rightarrow> 'a list \<Rightarrow> 'a list" where
  "heapify cmp xs =
     (let start = (to_int (length xs) - 2) sdiv 2
      in fold (\<lambda>start xs. sift_down cmp start (length xs - 1) xs) (rev [0..<nat (start + 1)]) xs)"

fun pop_max :: "'a cmp \<Rightarrow> nat \<Rightarrow> 'a list \<Rightarrow> 'a list" where
  "pop_max cmp 0 xs = xs"
| "pop_max cmp (Suc endi) xs = pop_max cmp endi (sift_down cmp 0 endi (swap 0 (Suc endi) xs))"

definition heapsort :: "'a cmp \<Rightarrow> 'a list \<Rightarrow> 'a list" where
  "heapsort cmp xs = (if length xs \<le> 1 then xs else pop_max cmp (length xs - 1) (heapify cmp xs))"

text \<open>\<^verbatim>\<open>bsearch\<close> returns the index of a matching element, \<open>None\<close> for \<^verbatim>\<open>NULL\<close>.\<close>

function bsearch_loop :: "('k \<Rightarrow> 'a \<Rightarrow> int) \<Rightarrow> 'k \<Rightarrow> 'a list \<Rightarrow> nat \<Rightarrow> nat \<Rightarrow> nat option" where
  "bsearch_loop cmp key xs lo hi =
     (if lo < hi then
        let mid = lo + (hi - lo) div 2; c = cmp key (xs ! mid) in
        if c = 0 then Some mid
        else if c < 0 then bsearch_loop cmp key xs lo mid
        else bsearch_loop cmp key xs (mid + 1) hi
      else None)"
  by pat_completeness auto
termination by (relation "measure (\<lambda>(cmp, key, xs, lo, hi). hi - lo)") auto

definition bsearch :: "('k \<Rightarrow> 'a \<Rightarrow> int) \<Rightarrow> 'k \<Rightarrow> 'a list \<Rightarrow> nat option" where
  "bsearch cmp key xs = bsearch_loop cmp key xs 0 (length xs)"

declare sift_down.simps [simp del] bsearch_loop.simps [simp del]


section \<open>Binary search\<close>

text \<open>\<open>ordered_for cmp key xs\<close>: the comparison with the key does not go back up along the array.\<close>

definition ordered_for :: "('k \<Rightarrow> 'a \<Rightarrow> int) \<Rightarrow> 'k \<Rightarrow> 'a list \<Rightarrow> bool" where
  "ordered_for cmp key xs \<longleftrightarrow> (\<forall>i j. i \<le> j \<and> j < length xs \<longrightarrow>
     (cmp key (xs ! i) < 0 \<longrightarrow> cmp key (xs ! j) < 0) \<and> (cmp key (xs ! j) > 0 \<longrightarrow> cmp key (xs ! i) > 0))"

lemma bsearch_loop_correct:
  assumes "ordered_for cmp key xs" "hi \<le> length xs"
  shows "case bsearch_loop cmp key xs lo hi of
      Some i \<Rightarrow> lo \<le> i \<and> i < hi \<and> cmp key (xs ! i) = 0
    | None \<Rightarrow> \<forall>i. lo \<le> i \<and> i < hi \<longrightarrow> cmp key (xs ! i) \<noteq> 0"
  using assms
proof (induction cmp key xs lo hi rule: bsearch_loop.induct)
  case (1 cmp key xs lo hi)
  show ?case
  proof (cases "lo < hi")
    case False
    then show ?thesis by (simp add: bsearch_loop.simps)
  next
    case True
    define mid where "mid = lo + (hi - lo) div 2"
    have m: "lo \<le> mid" "mid < hi" using True by (auto simp: mid_def)
    consider "cmp key (xs ! mid) = 0" | "cmp key (xs ! mid) < 0" | "cmp key (xs ! mid) > 0" by linarith
    then show ?thesis
    proof cases
      case 1
      then show ?thesis using True m by (subst bsearch_loop.simps) (simp add: mid_def[symmetric] Let_def)
    next
      case 2
      have e: "bsearch_loop cmp key xs lo hi = bsearch_loop cmp key xs lo mid"
        using True 2 by (subst bsearch_loop.simps) (simp add: mid_def[symmetric] Let_def)
      have above: "cmp key (xs ! i) < 0" if "mid \<le> i" "i < hi" for i
        using 1(3,4) 2 that unfolding ordered_for_def by (meson order_less_le_trans)
      have IH: "case bsearch_loop cmp key xs lo mid of Some i \<Rightarrow> lo \<le> i \<and> i < mid \<and> cmp key (xs ! i) = 0
          | None \<Rightarrow> \<forall>i. lo \<le> i \<and> i < mid \<longrightarrow> cmp key (xs ! i) \<noteq> 0"
        using 1(1)[OF True mid_def refl] 2 1(3,4) m by simp
      have "cmp key (xs ! i) \<noteq> 0" if "\<forall>i. lo \<le> i \<and> i < mid \<longrightarrow> cmp key (xs ! i) \<noteq> 0" "lo \<le> i" "i < hi" for i
        using that above[of i] by (cases "i < mid") auto
      then show ?thesis unfolding e using IH m by (auto split: option.splits)
    next
      case 3
      have e: "bsearch_loop cmp key xs lo hi = bsearch_loop cmp key xs (mid + 1) hi"
        using True 3 by (subst bsearch_loop.simps) (simp add: mid_def[symmetric] Let_def)
      have below: "cmp key (xs ! i) > 0" if "i \<le> mid" for i
        using 1(3,4) 3 that m unfolding ordered_for_def by (meson order_less_le_trans)
      have IH: "case bsearch_loop cmp key xs (mid + 1) hi of Some i \<Rightarrow> mid + 1 \<le> i \<and> i < hi \<and> cmp key (xs ! i) = 0
          | None \<Rightarrow> \<forall>i. mid + 1 \<le> i \<and> i < hi \<longrightarrow> cmp key (xs ! i) \<noteq> 0"
        using 1(2)[OF True mid_def refl] 3 1(3,4) m by simp
      have "cmp key (xs ! i) \<noteq> 0" if "\<forall>i. mid + 1 \<le> i \<and> i < hi \<longrightarrow> cmp key (xs ! i) \<noteq> 0" "lo \<le> i" "i < hi" for i
        using that below[of i] by (cases "i \<le> mid") auto
      then show ?thesis unfolding e using IH m by (auto split: option.splits)
    qed
  qed
qed

text \<open>
  C38 (bsearch_correct): on an array ordered by the comparison, \<^verbatim>\<open>bsearch\<close> returns a matching element when
  there is one and \<^verbatim>\<open>NULL\<close> only when there is none.
\<close>

theorem bsearch_correct:
  assumes "ordered_for cmp key xs"
  shows "case bsearch cmp key xs of
      Some i \<Rightarrow> i < length xs \<and> cmp key (xs ! i) = 0
    | None \<Rightarrow> \<forall>x \<in> set xs. cmp key x \<noteq> 0"
  using bsearch_loop_correct[OF assms order_refl, of 0]
  by (auto simp: bsearch_def in_set_conv_nth split: option.splits)

theorem bsearch_correct_witness:
  "ordered_for (\<lambda>a b. a - b) 7 [1, 3, 7, 9 :: int] \<and> bsearch (\<lambda>a b. a - b) 7 [1, 3, 7, 9 :: int] \<noteq> None"
proof -
  have o: "ordered_for (\<lambda>a b. a - b) 7 [1, 3, 7, 9 :: int]"
    by (auto simp: ordered_for_def nth_Cons' split: if_splits)
  from bsearch_correct[OF this] show ?thesis using o by (auto split: option.splits)
qed

section \<open>The quicksort of two ordered elements\<close>

lemma partition_two: "cmp a b < 0 \<Longrightarrow> cmp b b = 0 \<Longrightarrow> partition cmp [a, b] = Some (Inr (2, [a, b]))"
  unfolding partition_def
  by (subst partition_loop.simps, simp add: scan_up.simps scan_down.simps, subst partition_loop.simps, simp)

text \<open>
  \<^verbatim>\<open>qsort\<close> of two elements already in ascending order never returns: the partition
  puts both in the left part, and the recursive call repeats the same problem.
\<close>

lemma qsort_diverges:
  assumes "cmp a b < 0" "cmp b b = 0"
  shows "qsort cmp [a, b] = None"
proof -
  have "\<not> (\<exists>a b. xs = [a, b] \<and> c a b < 0 \<and> c b b = 0)" if r: "qsort c xs = Some y" for c :: "'a cmp" and xs y
  proof (rule qsort.raw_induct[where P = "\<lambda>c xs y. \<not> (\<exists>a b. xs = [a, b] \<and> c a b < 0 \<and> c b b = 0)", OF _ r])
    fix f :: "'a cmp \<Rightarrow> 'a list \<Rightarrow> 'a list res option" and c :: "'a cmp" and xs y
    assume IH: "\<And>c xs y. f c xs = Some y \<Longrightarrow> \<not> (\<exists>a b. xs = [a, b] \<and> c a b < 0 \<and> c b b = 0)"
      and body: "(if length xs \<le> 1 then Some (Inr xs)
        else Option.bind (partition c xs) (\<lambda>r. case r of Inl f \<Rightarrow> Some (Inl f) | Inr (p, xs) \<Rightarrow>
          Option.bind (if p > 1 then f c (take p xs) else Some (Inr (take p xs))) (\<lambda>r1.
          case r1 of Inl f \<Rightarrow> Some (Inl f) | Inr ys \<Rightarrow>
          Option.bind (if p < length xs - 1 then f c (drop p xs) else Some (Inr (drop p xs))) (\<lambda>r2.
          case r2 of Inl f \<Rightarrow> Some (Inl f) | Inr zs \<Rightarrow> Some (Inr (ys @ zs)))))) = Some y"
    show "\<not> (\<exists>a b. xs = [a, b] \<and> c a b < 0 \<and> c b b = 0)"
    proof
      assume "\<exists>a b. xs = [a, b] \<and> c a b < 0 \<and> c b b = 0"
      then obtain a b where x: "xs = [a, b]" "c a b < 0" "c b b = 0" by blast
      then obtain z where "f c xs = Some z" using body partition_two[of c a b] x(2,3) by (auto simp: bind_eq_Some_conv)
      from IH[OF this] x show False by blast
    qed
  qed
  then show ?thesis using assms by (cases "qsort cmp [a, b]") auto
qed

section \<open>Heapsort\<close>

lemma length_swap [simp]: "length (swap i j xs) = length xs"
  by (simp add: swap_def)

lemma nth_swap: "i < length xs \<Longrightarrow> j < length xs \<Longrightarrow> swap i j xs ! k = (if k = i then xs ! j else if k = j then xs ! i else xs ! k)"
  by (auto simp: swap_def nth_list_update)

lemma mset_swap_idx: "i < length xs \<Longrightarrow> j < length xs \<Longrightarrow> mset (swap i j xs) = mset xs"
  unfolding swap_def by (rule mset_swap)

text \<open>
  \<open>key\<close> is what the comparison orders by. \<open>heap_from\<close>: every node of \<open>[0..e]\<close> whose parent is at \<open>lo\<close> or
  later is not above it; \<open>heap_but\<close> is the same with the children of \<open>r\<close> left out, but these bounded by
  the parent of \<open>r\<close>.
\<close>

abbreviation parent :: "nat \<Rightarrow> nat" where "parent c \<equiv> (c - 1) div 2"

definition heap_from :: "('a \<Rightarrow> int) \<Rightarrow> nat \<Rightarrow> nat \<Rightarrow> 'a list \<Rightarrow> bool" where
  "heap_from key lo e xs \<longleftrightarrow> (\<forall>c. 0 < c \<and> c \<le> e \<and> lo \<le> parent c \<longrightarrow> key (xs ! c) \<le> key (xs ! parent c))"

definition heap_but :: "('a \<Rightarrow> int) \<Rightarrow> nat \<Rightarrow> nat \<Rightarrow> nat \<Rightarrow> 'a list \<Rightarrow> bool" where
  "heap_but key r lo e xs \<longleftrightarrow>
     (\<forall>c. 0 < c \<and> c \<le> e \<and> lo \<le> parent c \<and> parent c \<noteq> r \<longrightarrow> key (xs ! c) \<le> key (xs ! parent c)) \<and>
     (\<forall>c. 0 < c \<and> c \<le> e \<and> parent c = r \<and> 0 < r \<and> lo \<le> parent r \<longrightarrow> key (xs ! c) \<le> key (xs ! parent r))"

lemma parent_child: "0 < c \<Longrightarrow> parent c = r \<longleftrightarrow> c = 2 * r + 1 \<or> c = 2 * r + 2"
  by auto

lemma sift_pick_cases:
  fixes xs :: "'a list" and key :: "'a \<Rightarrow> int"
  assumes k: "\<And>x y. cmp x y < 0 \<longleftrightarrow> key x < key y" and "2 * r + 1 \<le> e"
  defines "s \<equiv> sift_pick cmp xs r e"
  shows "s = r \<or> s = 2 * r + 1 \<or> s = 2 * r + 2 \<and> 2 * r + 2 \<le> e"
    "key (xs ! r) \<le> key (xs ! s)" "\<And>c. c \<le> e \<Longrightarrow> c = 2 * r + 1 \<or> c = 2 * r + 2 \<Longrightarrow> key (xs ! c) \<le> key (xs ! s)"
  using assms(2) unfolding s_def sift_pick_def Let_def by (auto simp: k mult.commute[of _ 2])

lemma heap_but_done:
  assumes "heap_but key r lo e xs" "\<And>c. c \<le> e \<Longrightarrow> c = 2 * r + 1 \<or> c = 2 * r + 2 \<Longrightarrow> key (xs ! c) \<le> key (xs ! r)"
  shows "heap_from key lo e xs"
  using assms parent_child unfolding heap_but_def heap_from_def by metis

lemma heap_but_step:
  assumes H: "heap_but key r lo e xs" and e: "e < length xs" and lo: "lo \<le> r"
    and s: "s = 2 * r + 1 \<or> s = 2 * r + 2" "s \<le> e" "key (xs ! r) \<le> key (xs ! s)"
    and mx: "\<And>c. c \<le> e \<Longrightarrow> c = 2 * r + 1 \<or> c = 2 * r + 2 \<Longrightarrow> key (xs ! c) \<le> key (xs ! s)"
  shows "heap_but key s lo e (swap r s xs)"
proof -
  have ps: "parent s = r" "r < s" "0 < s" using s(1) by auto
  have n: "swap r s xs ! k = (if k = r then xs ! s else if k = s then xs ! r else xs ! k)" for k
    using e s(2) ps by (intro nth_swap) auto
  have H1: "key (xs ! c) \<le> key (xs ! parent c)" if "0 < c" "c \<le> e" "lo \<le> parent c" "parent c \<noteq> r" for c
    using H that by (auto simp: heap_but_def)
  have H2: "key (xs ! c) \<le> key (xs ! parent r)" if "0 < c" "c \<le> e" "parent c = r" "0 < r" "lo \<le> parent r" for c
    using H that by (auto simp: heap_but_def)
  have A: "key (swap r s xs ! c) \<le> key (swap r s xs ! parent c)" if c: "0 < c" "c \<le> e" "lo \<le> parent c" "parent c \<noteq> s" for c
  proof -
    consider "c = r" | "c = s" | "parent c = r" "c \<noteq> s" "c \<noteq> r" | "c \<noteq> r" "c \<noteq> s" "parent c \<noteq> r" by blast
    then show ?thesis
    proof cases
      case 1
      have "parent r \<noteq> r" "parent r \<noteq> s" using c(1) 1 ps(2) by linarith+
      moreover have "key (xs ! s) \<le> key (xs ! parent r)" using H2[OF ps(3) s(2) ps(1)] c 1 by simp
      ultimately show ?thesis unfolding n 1 by simp
    next
      case 2
      then show ?thesis unfolding n using ps s(3) by simp
    next
      case 3
      have "c = 2 * r + 1 \<or> c = 2 * r + 2" using parent_child[OF c(1)] 3(1) by simp
      then show ?thesis unfolding n using 3 mx[OF c(2)] by simp
    next
      case 4
      then show ?thesis unfolding n using c H1[OF c(1-3)] by simp
    qed
  qed
  have B: "key (swap r s xs ! c) \<le> key (swap r s xs ! parent s)" if c: "0 < c" "c \<le> e" "parent c = s" for c
  proof -
    have "s < c" using c(1,3) by linarith
    then have "c \<noteq> r" "c \<noteq> s" using ps(2) by auto
    moreover have "key (xs ! c) \<le> key (xs ! s)" using H1[OF c(1,2)] c(3) ps(2) lo by simp
    ultimately show ?thesis unfolding n ps(1) by simp
  qed
  show ?thesis unfolding heap_but_def using A B by blast
qed

lemma sift_down_ok:
  assumes k: "\<And>x y. cmp x y < 0 \<longleftrightarrow> key x < key y"
  shows "heap_but key r lo e xs \<Longrightarrow> e < length xs \<Longrightarrow> lo \<le> r \<Longrightarrow>
    heap_from key lo e (sift_down cmp r e xs) \<and> mset (sift_down cmp r e xs) = mset xs \<and>
    length (sift_down cmp r e xs) = length xs \<and> (\<forall>i > e. sift_down cmp r e xs ! i = xs ! i)"
proof (induction "e - r" arbitrary: r xs rule: less_induct)
  case less
  show ?case
  proof (cases "r * 2 + 1 \<le> e")
    case False
    then have "heap_from key lo e xs" by (intro heap_but_done[OF less.prems(1)]) auto
    then show ?thesis using False by (simp add: sift_down.simps)
  next
    case True
    then have t: "2 * r + 1 \<le> e" by simp
    let ?s = "sift_pick cmp xs r e"
    note P = sift_pick_cases[where xs = xs and cmp = cmp and key = key, OF k t]
    show ?thesis
    proof (cases "?s = r")
      case eq: True
      have "heap_from key lo e xs" using P(3) eq by (intro heap_but_done[OF less.prems(1)]) auto
      then show ?thesis using eq True by (simp add: sift_down.simps)
    next
      case False
      have s: "?s = 2 * r + 1 \<or> ?s = 2 * r + 2" "?s \<le> e" "r < ?s" using P(1) False t by auto
      have st: "sift_down cmp r e xs = sift_down cmp ?s e (swap r ?s xs)"
        using True False by (subst sift_down.simps) (simp add: Let_def)
      have b: "r < length xs" "?s < length xs" using s less.prems(2) by auto
      have H: "heap_but key ?s lo e (swap r ?s xs)"
        using heap_but_step[OF less.prems s(1,2) P(2)] P(3) by blast
      have d: "e - ?s < e - r" "e < length (swap r ?s xs)" "lo \<le> ?s" using s less.prems(2,3) by auto
      have IH: "heap_from key lo e (sift_down cmp r e xs)" "mset (sift_down cmp r e xs) = mset (swap r ?s xs)"
        "length (sift_down cmp r e xs) = length (swap r ?s xs)" "\<forall>i > e. sift_down cmp r e xs ! i = swap r ?s xs ! i"
        using less.hyps[OF d(1) H d(2,3)] unfolding st by auto
      show ?thesis using IH mset_swap_idx[OF b] nth_swap[OF b] s by auto
    qed
  qed
qed


lemma heapify_loop:
  assumes k: "\<And>x y. cmp x y < 0 \<longleftrightarrow> key x < key y"
  shows "heap_from key n (length xs - 1) xs \<Longrightarrow> xs \<noteq> [] \<Longrightarrow>
    (let ys = fold (\<lambda>start xs. sift_down cmp start (length xs - 1) xs) (rev [0..<n]) xs
     in heap_from key 0 (length xs - 1) ys \<and> mset ys = mset xs \<and> length ys = length xs)"
proof (induction n arbitrary: xs)
  case 0
  then show ?case by simp
next
  case (Suc n)
  let ?e = "length xs - 1"
  let ?xs = "sift_down cmp n ?e xs"
  have "heap_but key n n ?e xs"
  proof -
    have "key (xs ! c) \<le> key (xs ! parent c)" if "0 < c" "c \<le> ?e" "n \<le> parent c" "parent c \<noteq> n" for c
      using Suc.prems(1) that by (simp add: heap_from_def)
    moreover have "\<not> n \<le> parent n" if "0 < n" using that by linarith
    ultimately show ?thesis unfolding heap_but_def by blast
  qed
  moreover have "?e < length xs" using Suc.prems(2) by simp
  ultimately have s: "heap_from key n ?e ?xs" "mset ?xs = mset xs" "length ?xs = length xs"
    using sift_down_ok[where cmp = cmp and key = key, OF k, of n n ?e xs] by auto
  then have "?xs \<noteq> []" using Suc.prems(2) by auto
  from Suc.IH[of ?xs] s this show ?case by (simp add: Let_def)
qed

lemma heapify_ok:
  assumes k: "\<And>x y. cmp x y < 0 \<longleftrightarrow> key x < key y" and l: "2 \<le> length xs" "length xs < 2 ^ 31"
  shows "heap_from key 0 (length xs - 1) (heapify cmp xs)" "mset (heapify cmp xs) = mset xs" "length (heapify cmp xs) = length xs"
proof -
  let ?n = "(length xs - 2) div 2 + 1"
  have "(to_int (length xs) - 2) sdiv 2 = int ((length xs - 2) div 2)"
    using l by (simp add: to_int_small signed_divide_int_def of_nat_diff zdiv_int sgn_if)
  then have h: "heapify cmp xs = fold (\<lambda>start xs. sift_down cmp start (length xs - 1) xs) (rev [0..<?n]) xs"
    by (simp add: heapify_def nat_add_distrib)
  have "heap_from key ?n (length xs - 1) xs" unfolding heap_from_def
  proof (intro allI impI)
    fix c assume c: "0 < c \<and> c \<le> length xs - 1 \<and> ?n \<le> parent c"
    have "parent c \<le> (length xs - 2) div 2" using c by (intro div_le_mono) linarith
    then show "key (xs ! c) \<le> key (xs ! parent c)" using c by simp
  qed
  moreover have "xs \<noteq> []" using l by auto
  ultimately have "let ys = heapify cmp xs in heap_from key 0 (length xs - 1) ys \<and> mset ys = mset xs \<and> length ys = length xs"
    unfolding h by (rule heapify_loop[where cmp = cmp and key = key, OF k])
  then show "heap_from key 0 (length xs - 1) (heapify cmp xs)" "mset (heapify cmp xs) = mset xs" "length (heapify cmp xs) = length xs"
    by (simp_all add: Let_def)
qed

lemma heap_root_max: "heap_from key 0 e xs \<Longrightarrow> i \<le> e \<Longrightarrow> key (xs ! i) \<le> key (xs ! 0)"
proof (induction i rule: less_induct)
  case (less i)
  show ?case
  proof (cases "i = 0")
    case False
    then have "key (xs ! i) \<le> key (xs ! parent i)" using less.prems by (auto simp: heap_from_def)
    also have "\<dots> \<le> key (xs ! 0)" using False less.prems by (intro less.IH) auto
    finally show ?thesis .
  qed simp
qed

text \<open>What the second loop maintains: a heap, then a sorted tail that nothing in the heap exceeds.\<close>

definition part_sorted :: "('a \<Rightarrow> int) \<Rightarrow> nat \<Rightarrow> 'a list \<Rightarrow> bool" where
  "part_sorted key e xs \<longleftrightarrow> heap_from key 0 e xs \<and>
     (\<forall>i j. i \<le> j \<and> j < length xs \<and> e < j \<longrightarrow> key (xs ! i) \<le> key (xs ! j))"

lemma mset_take_eq:
  assumes "mset ys = mset xs" "length ys = length xs" "\<forall>i \<ge> n. i < length xs \<longrightarrow> ys ! i = xs ! i"
  shows "mset (take n ys) = mset (take n xs)"
proof -
  have "drop n ys = drop n xs" using assms(2,3) by (intro nth_equalityI) auto
  moreover have "mset (take n ys) + mset (drop n ys) = mset (take n xs) + mset (drop n xs)"
    using assms(1) by (metis append_take_drop_id mset_append)
  ultimately show ?thesis by simp
qed

lemma pop_max_ok:
  assumes k: "\<And>x y. cmp x y < 0 \<longleftrightarrow> key x < key y"
  shows "part_sorted key e xs \<Longrightarrow> e < length xs \<Longrightarrow>
    sorted (map key (pop_max cmp e xs)) \<and> mset (pop_max cmp e xs) = mset xs"
proof (induction e arbitrary: xs)
  case 0
  then show ?case unfolding part_sorted_def sorted_iff_nth_mono by (auto simp: le_less)
next
  case (Suc e)
  let ?ys = "swap 0 (Suc e) xs"
  let ?zs = "sift_down cmp 0 e ?ys"
  have H: "heap_from key 0 (Suc e) xs" and T: "\<And>i j. i \<le> j \<Longrightarrow> j < length xs \<Longrightarrow> Suc e < j \<Longrightarrow> key (xs ! i) \<le> key (xs ! j)"
    using Suc.prems(1) by (auto simp: part_sorted_def)
  have b: "0 < length xs" "Suc e < length xs" using Suc.prems(2) by auto
  note ny = nth_swap[OF b]
  have "heap_but key 0 0 e ?ys" unfolding heap_but_def ny using H by (auto simp: heap_from_def)
  from sift_down_ok[where cmp = cmp and key = key, OF k this] b have z: "heap_from key 0 e ?zs" "mset ?zs = mset ?ys" "length ?zs = length xs"
    "\<forall>i > e. ?zs ! i = ?ys ! i" by auto
  have mz: "mset (take (Suc e) ?zs) = mset (take (Suc e) ?ys)" using z by (intro mset_take_eq) auto
  have up: "key (?ys ! i) \<le> key (?ys ! j)" if "i \<le> j" "j < length xs" "e < j" for i j
    using that T[of _ j] heap_root_max[OF H] by (auto simp: ny le_less)
  have "key (?zs ! i) \<le> key (?zs ! j)" if ij: "i \<le> j" "j < length xs" "e < j" for i j
  proof (cases "e < i")
    case True
    then show ?thesis using z(4) up[OF ij] ij by simp
  next
    case False
    then have "?zs ! i \<in> set (take (Suc e) ?zs)" using z(3) b by (auto simp: in_set_conv_nth intro!: exI[of _ i])
    then have "?zs ! i \<in> set (take (Suc e) ?ys)" using mz by (metis set_mset_mset)
    then obtain i' where "i' \<le> e" "?zs ! i = ?ys ! i'" by (auto simp: in_set_conv_nth less_Suc_eq_le)
    then show ?thesis using z(4) up[of i' j] ij by simp
  qed
  then have "part_sorted key e ?zs" using z by (auto simp: part_sorted_def)
  from Suc.IH[OF this] z b mset_swap_idx[OF b] show ?case by simp
qed

text \<open>
  C32 (heapsort_sorts): \<^verbatim>\<open>heapsort\<close> of any array whose length fits an \<^verbatim>\<open>int\<close> returns a permutation of it in
  ascending order, for every comparison that orders by some key.
\<close>

theorem heapsort_sorts:
  assumes "\<And>x y. cmp x y < 0 \<longleftrightarrow> key x < (key y :: int)" "length xs < 2 ^ 31"
  shows "sorted (map key (heapsort cmp xs)) \<and> mset (heapsort cmp xs) = mset xs"
proof (cases "length xs \<le> 1")
  case True
  then show ?thesis by (cases xs) (auto simp: heapsort_def)
next
  case False
  then have l: "2 \<le> length xs" by simp
  note h = heapify_ok[where cmp = cmp and key = key, OF assms(1) l assms(2)]
  have "part_sorted key (length xs - 1) (heapify cmp xs)" using h l by (auto simp: part_sorted_def)
  from pop_max_ok[where cmp = cmp and key = key, OF assms(1) this] h l False show ?thesis by (simp add: heapsort_def)
qed

theorem heapsort_sorts_witness:
  "sorted (map id (heapsort (\<lambda>a b. a - b) [3, 1, 2 :: int])) \<and> mset (heapsort (\<lambda>a b. a - b) [3, 1, 2 :: int]) = {#3, 1, 2#}"
  using heapsort_sorts[of "\<lambda>a b. a - b" id "[3, 1, 2]"] by simp

end
