(* ===== verification/Gos_Queue.thy ===== *)
theory Gos_Queue
  imports Gos_Heap
begin

text \<open>
  The generic queue of \<^verbatim>\<open>lib/queue.c\<close>, whose nodes live in the heap of \<^verbatim>\<open>mm/heap/heap.c\<close>. Its lemmas rest
  on the allocator contract that the heap's interpretation provides.
\<close>

section \<open>\<^verbatim>\<open>lib/queue.c\<close>\<close>

record queue =
  qhead :: nat
  qtail :: nat
  qcount :: nat

definition queue_init :: queue where
  "queue_init = \<lparr>qhead = 0, qtail = 0, qcount = 0\<rparr>"


definition queue_dequeue :: "queue \<Rightarrow> heap \<Rightarrow> nat \<times> queue \<times> heap" where
  "queue_dequeue q st =
     (if qhead q = 0 then (0, q, st)
      else let node = qhead q;
               data = read64 (hmem st) (node + 0);
               q = q\<lparr>qhead := read64 (hmem st) (node + 8)\<rparr>;
               q = (if qhead q = 0 then q\<lparr>qtail := 0\<rparr> else q);
               st = kfree node st
           in (data, q\<lparr>qcount := dec64 (qcount q)\<rparr>, st))"

definition queue_empty :: "queue \<Rightarrow> bool" where
  "queue_empty q = (qcount q = 0)"

definition queue_size :: "queue \<Rightarrow> nat" where
  "queue_size q = qcount q"

partial_function (option) queue_clear :: "queue \<Rightarrow> heap \<Rightarrow> (queue \<times> heap) option" where
  "queue_clear q st =
     (if \<not> queue_empty q then case queue_dequeue q st of (_, q, st) \<Rightarrow> queue_clear q st else Some (q, st))"

section \<open>The queue refines a list\<close>

text \<open>The chain of nodes and the data it holds.\<close>

fun chain :: "mem \<Rightarrow> nat list \<Rightarrow> nat list \<Rightarrow> bool" where
  "chain m [] [] = True"
| "chain m (n # ns) (x # xs) = (read64 m (n + 0) = x \<and> read64 m (n + 8) = (if ns = [] then 0 else hd ns) \<and> chain m ns xs)"
| "chain m _ _ = False"

definition queue_inv :: "heap \<Rightarrow> nat set \<Rightarrow> nat list \<Rightarrow> queue \<Rightarrow> nat list \<Rightarrow> bool" where
  "queue_inv st us ns q xs \<longleftrightarrow> heap_ok st us \<and> set ns \<subseteq> us \<and> distinct ns \<and> (\<forall>n\<in>set ns. 16 \<le> heap_bsize st n) \<and>
     chain (hmem st) ns xs \<and> qhead q = (if ns = [] then 0 else hd ns) \<and> qtail q = (if ns = [] then 0 else last ns) \<and>
     qcount q = length ns \<and> length ns < 2 ^ 63"

lemma chain_length: "chain m ns xs \<Longrightarrow> length xs = length ns"
  by (induction m ns xs rule: chain.induct) auto

lemma chain_cong:
  "(\<forall>n\<in>set ns. read64 m (n + 0) = read64 m' (n + 0) \<and> read64 m (n + 8) = read64 m' (n + 8)) \<Longrightarrow> chain m ns xs \<longleftrightarrow> chain m' ns xs"
  by (induction m ns xs rule: chain.induct) auto

lemma chain_same:
  assumes "hp.same us s s'" "set ns \<subseteq> us" "\<forall>n\<in>set ns. 16 \<le> heap_bsize s n"
  shows "chain (hmem s') ns xs \<longleftrightarrow> chain (hmem s) ns xs"
proof (rule chain_cong, intro ballI)
  fix n assume "n \<in> set ns"
  then show "read64 (hmem s') (n + 0) = read64 (hmem s) (n + 0) \<and> read64 (hmem s') (n + 8) = read64 (hmem s) (n + 8)"
    using hp.same_read[OF assms(1), of n 0] hp.same_read[OF assms(1), of n 8] assms(2,3) by fastforce
qed



lemma queue_dequeue_refines:
  assumes inv: "queue_inv st us (n # ns) q (x # xs)"
  shows "\<exists>q' st'. queue_dequeue q st = (x, q', st') \<and> queue_inv st' (us - {n}) ns q' xs \<and> hp.same (us - {n}) st st'"
proof -
  have I: "heap_ok st us" "set (n # ns) \<subseteq> us" "distinct (n # ns)" "\<forall>a\<in>set (n # ns). 16 \<le> heap_bsize st a" "chain (hmem st) (n # ns) (x # xs)"
    "qhead q = n" "qtail q = (if ns = [] then n else last ns)" "qcount q = Suc (length ns)" "Suc (length ns) < 2 ^ 63"
    using inv by (auto simp: queue_inv_def)
  have n: "n \<in> us" "n \<noteq> 0" using I(1,2) hp.bound_law[OF I(1), of n] by auto
  note F = hp.free_ok[OF I(1) n(1)]
  have nz: "0 \<notin> set ns" using hp.bound_law[OF I(1), of 0] I(2) by auto
  have sub: "set ns \<subseteq> us - {n}" using I(2,3) by auto
  let ?q = "q\<lparr>qhead := (if ns = [] then 0 else hd ns), qtail := (if ns = [] then 0 else last ns), qcount := length ns\<rparr>"
  have "queue_dequeue q st = (x, ?q, kfree n st)"
    using I(5-9) n(2) nz by (cases ns) (auto simp: queue_dequeue_def Let_def dec64_nowrap)
  moreover have "chain (hmem (kfree n st)) ns xs"
    using chain_same[of "us - {n}" st "kfree n st" ns xs] F sub I(4,5) by auto
  moreover have "16 \<le> heap_bsize (kfree n st) a" if "a \<in> set ns" for a
  proof -
    have "a \<in> us - {n}" using that sub by blast
    then show ?thesis using hp.same_bsize[of "us - {n}" st "kfree n st" a] F I(4) that by simp
  qed
  ultimately show ?thesis using F sub I(3,9) by (auto simp: queue_inv_def)
qed




lemma queue_start: "heap_ok st us \<Longrightarrow> queue_inv st us [] queue_init []"
  by (simp add: queue_inv_def queue_init_def)


text \<open>
  C30 (queue_clear_ends): clearing a queue of any length terminates, leaves it empty, and returns every
  node to the heap.
\<close>

theorem queue_clear_ends:
  assumes "queue_inv st us ns q xs"
  shows "\<exists>q' st'. queue_clear q st = Some (q', st') \<and> queue_inv st' (us - set ns) [] q' [] \<and> queue_size q' = 0"
  using assms
proof (induction ns arbitrary: st us q xs)
  case Nil
  then have "queue_clear q st = Some (q, st)" by (subst queue_clear.simps) (simp add: queue_empty_def queue_inv_def)
  moreover have "xs = []" using Nil chain_length by (fastforce simp: queue_inv_def)
  ultimately show ?case using Nil by (auto simp: queue_size_def queue_inv_def)
next
  case (Cons n ns)
  then obtain x xs' where x: "xs = x # xs'" using chain_length by (cases xs) (fastforce simp: queue_inv_def)+
  from queue_dequeue_refines[OF Cons.prems[unfolded x]] obtain q1 s1 where
    d: "queue_dequeue q st = (x, q1, s1)" "queue_inv s1 (us - {n}) ns q1 xs'" by blast
  have "\<not> queue_empty q" using Cons.prems by (simp add: queue_empty_def queue_inv_def)
  then have "queue_clear q st = queue_clear q1 s1" using d(1) by (subst queue_clear.simps) simp
  moreover have "us - set (n # ns) = us - {n} - set ns" by auto
  ultimately show ?case using Cons.IH[OF d(2)] by metis
qed

theorem queue_clear_ends_witness:
  "\<exists>st us q' st'. queue_inv st us [] queue_init [] \<and> queue_clear queue_init st = Some (q', st') \<and> queue_size q' = 0"
proof -
  obtain img st where s: "vmm_wf (hvmm img)" "2048 \<le> pmm_avail (vmm_pmm (hvmm img))" "heap_init img = Inr st" by (rule heap_example)
  note q = queue_start[OF heap_ok_init[OF s]]
  from queue_clear_ends[OF q] q show ?thesis by blast
qed

end
