(* ===== verification/Gos_Codec.thy ===== *)
theory Gos_Codec
  imports Gos_Memory
begin

text \<open>
  Encoders and digests over byte memory: \<^verbatim>\<open>lib/hex.c\<close>, \<^verbatim>\<open>lib/base64.c\<close>, \<^verbatim>\<open>lib/crc32.c\<close> and
  \<^verbatim>\<open>lib/hash.c\<close>. The encoders are shown to implement list-level codes that invert each other;
  the table-driven CRC is shown equal to the bitwise definition of the polynomial.
\<close>

section \<open>\<^verbatim>\<open>lib/hex.c\<close>\<close>

definition hex_digit :: "u8 \<Rightarrow> u8" where
  "hex_digit nibble = (if nibble < 10 then 0x30 + nibble else 0x61 + nibble - 10)"

definition hex_value :: "u8 \<Rightarrow> int" where
  "hex_value c =
     (if 0x30 \<le> c \<and> c \<le> 0x39 then uint c - 0x30
      else if 0x61 \<le> c \<and> c \<le> 0x66 then uint c - 0x61 + 10
      else if 0x41 \<le> c \<and> c \<le> 0x46 then uint c - 0x41 + 10
      else -1)"

definition hex_encode :: "mem \<Rightarrow> nat \<Rightarrow> nat \<Rightarrow> nat \<Rightarrow> nat \<Rightarrow> int \<times> mem" where
  "hex_encode m data len out out_size =
     (if data = 0 \<or> out = 0 \<or> out_size < (len * 2 + 1) mod 2 ^ 64 then (-1, m)
      else case fold (\<lambda>i (pos, m).
             let m = m(out + pos := hex_digit (drop_bit 4 (m (data + i))));
                 m = m(out + pos + 1 := hex_digit (m (data + i) AND 0x0F))
             in (pos + 2, m)) [0..<len] (0, m)
           of (pos, m) \<Rightarrow> (to_int pos, m(out + pos := 0)))"

function hex_decode_from :: "mem \<Rightarrow> nat \<Rightarrow> nat \<Rightarrow> nat \<Rightarrow> nat \<Rightarrow> nat \<Rightarrow> int \<times> mem" where
  "hex_decode_from m hex hex_len out pos i =
     (if i < hex_len then
        let hi = hex_value (m (hex + i)); lo = hex_value (m (hex + i + 1)) in
        if hi < 0 \<or> lo < 0 then (-1, m)
        else hex_decode_from (m(out + pos := word_of_int (push_bit 4 hi OR lo))) hex hex_len out (pos + 1) (i + 2)
      else (to_int pos, m))"
  by pat_completeness auto
termination by (relation "measure (\<lambda>(m, hex, hex_len, out, pos, i). hex_len - i)") auto

definition hex_decode :: "mem \<Rightarrow> nat \<Rightarrow> nat \<Rightarrow> nat \<Rightarrow> nat \<Rightarrow> int \<times> mem" where
  "hex_decode m hex hex_len out out_size =
     (if hex = 0 \<or> out = 0 \<or> hex_len mod 2 \<noteq> 0 \<or> out_size < hex_len div 2 then (-1, m)
      else hex_decode_from m hex hex_len out 0 0)"

definition hex_is_valid :: "mem \<Rightarrow> nat \<Rightarrow> nat \<Rightarrow> bool" where
  "hex_is_valid m hex len =
     (hex \<noteq> 0 \<and> len mod 2 = 0 \<and> (\<forall>i \<in> set [0..<len]. \<not> hex_value (m (hex + i)) < 0))"

section \<open>\<^verbatim>\<open>lib/base64.c\<close>\<close>

definition g_base64_table :: "u8 list" where
  "g_base64_table = bytes ''ABCDEFGHIJKLMNOPQRSTUVWXYZabcdefghijklmnopqrstuvwxyz0123456789+/''"

definition base64_encoded_size :: "nat \<Rightarrow> nat" where
  "base64_encoded_size raw_len = (add64 raw_len 2 div 3 * 4) mod 2 ^ 64"

definition base64_decoded_size :: "mem \<Rightarrow> nat \<Rightarrow> nat \<Rightarrow> nat" where
  "base64_decoded_size m b64 b64_len =
     (let padding = (if 0 < b64_len \<and> m (b64 + (b64_len - 1)) = 0x3D then 1 else 0);
          padding = (if 1 < b64_len \<and> m (b64 + (b64_len - 2)) = 0x3D then padding + 1 else padding)
      in sub64 (b64_len div 4 * 3) padding)"

definition b64_char :: "u32 \<Rightarrow> u8" where
  "b64_char w = g_base64_table ! unat (w AND 0x3F)"

function base64_encode_from :: "mem \<Rightarrow> nat \<Rightarrow> nat \<Rightarrow> nat \<Rightarrow> nat \<Rightarrow> nat \<Rightarrow> nat \<times> mem" where
  "base64_encode_from m data len out pos i =
     (if i < len then
        let val = push_bit 16 (ucast (m (data + i)) :: u32);
            val = (if i + 1 < len then val OR push_bit 8 (ucast (m (data + i + 1))) else val);
            val = (if i + 2 < len then val OR ucast (m (data + i + 2)) else val);
            m = m(out + pos := b64_char (drop_bit 18 val));
            m = m(out + (pos + 1) := b64_char (drop_bit 12 val));
            m = m(out + (pos + 2) := (if i + 1 < len then b64_char (drop_bit 6 val) else 0x3D));
            m = m(out + (pos + 3) := (if i + 2 < len then b64_char val else 0x3D))
        in base64_encode_from m data len out (pos + 4) (i + 3)
      else (pos, m))"
  by pat_completeness auto
termination by (relation "measure (\<lambda>(m, data, len, out, pos, i). len - i)") auto

definition base64_encode :: "mem \<Rightarrow> nat \<Rightarrow> nat \<Rightarrow> nat \<Rightarrow> nat \<Rightarrow> int \<times> mem" where
  "base64_encode m data len out out_size =
     (if data = 0 \<or> out = 0 then (-1, m)
      else if out_size < add64 (base64_encoded_size len) 1 then (-1, m)
      else case base64_encode_from m data len out 0 0 of (pos, m) \<Rightarrow> (to_int pos, m(out + pos := 0)))"

definition base64_value :: "u8 \<Rightarrow> int" where
  "base64_value c =
     (if 0x41 \<le> c \<and> c \<le> 0x5A then uint c - 0x41
      else if 0x61 \<le> c \<and> c \<le> 0x7A then uint c - 0x61 + 26
      else if 0x30 \<le> c \<and> c \<le> 0x39 then uint c - 0x30 + 52
      else if c = 0x2B then 62
      else if c = 0x2F then 63
      else -1)"

text \<open>One group of four characters: the value and which bytes of it are stored.\<close>

definition b64_group :: "int \<Rightarrow> int \<Rightarrow> int \<Rightarrow> int \<Rightarrow> u8 list" where
  "b64_group a b c d =
     (let val = push_bit 18 (word_of_int a :: u32) OR push_bit 12 (word_of_int b);
          val = (if 0 \<le> c then val OR push_bit 6 (word_of_int c) else val);
          val = (if 0 \<le> d then val OR word_of_int d else val)
      in [ucast (drop_bit 16 val)]
         @ (if 0 \<le> c then [ucast (drop_bit 8 val)] else [])
         @ (if 0 \<le> d then [ucast val] else []))"

function base64_decode_from :: "mem \<Rightarrow> nat \<Rightarrow> nat \<Rightarrow> nat \<Rightarrow> nat \<Rightarrow> nat \<Rightarrow> int \<times> nat \<times> mem" where
  "base64_decode_from m b64 b64_len dst pos i =
     (if i < b64_len then
        let a = base64_value (m (b64 + i));
            b = base64_value (m (b64 + (i + 1)));
            c = base64_value (m (b64 + (i + 2)));
            d = base64_value (m (b64 + (i + 3)))
        in if a < 0 \<or> b < 0 then (-1, pos, m)
           else let g = b64_group a b c d
                in base64_decode_from (store m (dst + pos) g) b64 b64_len dst (pos + length g) (i + 4)
      else (to_int pos, pos, m))"
  by pat_completeness auto
termination by (relation "measure (\<lambda>(m, b64, b64_len, dst, pos, i). b64_len - i)") auto

text \<open>The middle component is the number of bytes stored, for the bound proved below.\<close>

definition base64_decode :: "mem \<Rightarrow> nat \<Rightarrow> nat \<Rightarrow> nat \<Rightarrow> nat \<Rightarrow> int \<times> nat \<times> mem" where
  "base64_decode m b64 b64_len out out_size =
     (if b64 = 0 \<or> out = 0 \<or> b64_len mod 4 \<noteq> 0 then (-1, 0, m)
      else if out_size < base64_decoded_size m b64 b64_len then (-1, 0, m)
      else base64_decode_from m b64 b64_len out 0 0)"

section \<open>\<^verbatim>\<open>lib/crc32.c\<close>\<close>

definition g_crc32_table :: "u32 list" where
  "g_crc32_table =
    [0x00000000, 0x77073096, 0xee0e612c, 0x990951ba,
     0x076dc419, 0x706af48f, 0xe963a535, 0x9e6495a3,
     0x0edb8832, 0x79dcb8a4, 0xe0d5e91e, 0x97d2d988,
     0x09b64c2b, 0x7eb17cbd, 0xe7b82d07, 0x90bf1d91,
     0x1db71064, 0x6ab020f2, 0xf3b97148, 0x84be41de,
     0x1adad47d, 0x6ddde4eb, 0xf4d4b551, 0x83d385c7,
     0x136c9856, 0x646ba8c0, 0xfd62f97a, 0x8a65c9ec,
     0x14015c4f, 0x63066cd9, 0xfa0f3d63, 0x8d080df5,
     0x3b6e20c8, 0x4c69105e, 0xd56041e4, 0xa2677172,
     0x3c03e4d1, 0x4b04d447, 0xd20d85fd, 0xa50ab56b,
     0x35b5a8fa, 0x42b2986c, 0xdbbbc9d6, 0xacbcf940,
     0x32d86ce3, 0x45df5c75, 0xdcd60dcf, 0xabd13d59,
     0x26d930ac, 0x51de003a, 0xc8d75180, 0xbfd06116,
     0x21b4f4b5, 0x56b3c423, 0xcfba9599, 0xb8bda50f,
     0x2802b89e, 0x5f058808, 0xc60cd9b2, 0xb10be924,
     0x2f6f7c87, 0x58684c11, 0xc1611dab, 0xb6662d3d,
     0x76dc4190, 0x01db7106, 0x98d220bc, 0xefd5102a,
     0x71b18589, 0x06b6b51f, 0x9fbfe4a5, 0xe8b8d433,
     0x7807c9a2, 0x0f00f934, 0x9609a88e, 0xe10e9818,
     0x7f6a0dbb, 0x086d3d2d, 0x91646c97, 0xe6635c01,
     0x6b6b51f4, 0x1c6c6162, 0x856530d8, 0xf262004e,
     0x6c0695ed, 0x1b01a57b, 0x8208f4c1, 0xf50fc457,
     0x65b0d9c6, 0x12b7e950, 0x8bbeb8ea, 0xfcb9887c,
     0x62dd1ddf, 0x15da2d49, 0x8cd37cf3, 0xfbd44c65,
     0x4db26158, 0x3ab551ce, 0xa3bc0074, 0xd4bb30e2,
     0x4adfa541, 0x3dd895d7, 0xa4d1c46d, 0xd3d6f4fb,
     0x4369e96a, 0x346ed9fc, 0xad678846, 0xda60b8d0,
     0x44042d73, 0x33031de5, 0xaa0a4c5f, 0xdd0d7cc9,
     0x5005713c, 0x270241aa, 0xbe0b1010, 0xc90c2086,
     0x5768b525, 0x206f85b3, 0xb966d409, 0xce61e49f,
     0x5edef90e, 0x29d9c998, 0xb0d09822, 0xc7d7a8b4,
     0x59b33d17, 0x2eb40d81, 0xb7bd5c3b, 0xc0ba6cad,
     0xedb88320, 0x9abfb3b6, 0x03b6e20c, 0x74b1d29a,
     0xead54739, 0x9dd277af, 0x04db2615, 0x73dc1683,
     0xe3630b12, 0x94643b84, 0x0d6d6a3e, 0x7a6a5aa8,
     0xe40ecf0b, 0x9309ff9d, 0x0a00ae27, 0x7d079eb1,
     0xf00f9344, 0x8708a3d2, 0x1e01f268, 0x6906c2fe,
     0xf762575d, 0x806567cb, 0x196c3671, 0x6e6b06e7,
     0xfed41b76, 0x89d32be0, 0x10da7a5a, 0x67dd4acc,
     0xf9b9df6f, 0x8ebeeff9, 0x17b7be43, 0x60b08ed5,
     0xd6d6a3e8, 0xa1d1937e, 0x38d8c2c4, 0x4fdff252,
     0xd1bb67f1, 0xa6bc5767, 0x3fb506dd, 0x48b2364b,
     0xd80d2bda, 0xaf0a1b4c, 0x36034af6, 0x41047a60,
     0xdf60efc3, 0xa867df55, 0x316e8eef, 0x4669be79,
     0xcb61b38c, 0xbc66831a, 0x256fd2a0, 0x5268e236,
     0xcc0c7795, 0xbb0b4703, 0x220216b9, 0x5505262f,
     0xc5ba3bbe, 0xb2bd0b28, 0x2bb45a92, 0x5cb36a04,
     0xc2d7ffa7, 0xb5d0cf31, 0x2cd99e8b, 0x5bdeae1d,
     0x9b64c2b0, 0xec63f226, 0x756aa39c, 0x026d930a,
     0x9c0906a9, 0xeb0e363f, 0x72076785, 0x05005713,
     0x95bf4a82, 0xe2b87a14, 0x7bb12bae, 0x0cb61b38,
     0x92d28e9b, 0xe5d5be0d, 0x7cdcefb7, 0x0bdbdf21,
     0x86d3d2d4, 0xf1d4e242, 0x68ddb3f8, 0x1fda836e,
     0x81be16cd, 0xf6b9265b, 0x6fb077e1, 0x18b74777,
     0x88085ae6, 0xff0f6a70, 0x66063bca, 0x11010b5c,
     0x8f659eff, 0xf862ae69, 0x616bffd3, 0x166ccf45,
     0xa00ae278, 0xd70dd2ee, 0x4e048354, 0x3903b3c2,
     0xa7672661, 0xd06016f7, 0x4969474d, 0x3e6e77db,
     0xaed16a4a, 0xd9d65adc, 0x40df0b66, 0x37d83bf0,
     0xa9bcae53, 0xdebb9ec5, 0x47b2cf7f, 0x30b5ffe9,
     0xbdbdf21c, 0xcabac28a, 0x53b39330, 0x24b4a3a6,
     0xbad03605, 0xcdd70693, 0x54de5729, 0x23d967bf,
     0xb3667a2e, 0xc4614ab8, 0x5d681b02, 0x2a6f2b94,
     0xb40bbe37, 0xc30c8ea1, 0x5a05df1b, 0x2d02ef8d]"

definition crc32_step :: "u32 \<Rightarrow> u8 \<Rightarrow> u32" where
  "crc32_step crc b = g_crc32_table ! unat ((crc XOR ucast b) AND 0xFF) XOR drop_bit 8 crc"

definition crc32_update :: "u32 \<Rightarrow> mem \<Rightarrow> nat \<Rightarrow> nat \<Rightarrow> u32" where
  "crc32_update crc m data len = NOT (fold (\<lambda>i crc. crc32_step crc (m (data + i))) [0..<len] (NOT crc))"

definition crc32 :: "mem \<Rightarrow> nat \<Rightarrow> nat \<Rightarrow> u32" where
  "crc32 m data len = crc32_update 0 m data len"

section \<open>\<^verbatim>\<open>lib/hash.c\<close>\<close>

text \<open>\<^verbatim>\<open>c = *str++\<close> reads a signed \<^verbatim>\<open>char\<close>, so a byte above 127 is sign-extended.\<close>

partial_function (option) djb2_from :: "mem \<Rightarrow> nat \<Rightarrow> u32 \<Rightarrow> u32 option" where
  "djb2_from m str hash =
     (if m str \<noteq> 0 then djb2_from m (str + 1) ((push_bit 5 hash + hash) + scast (m str)) else Some hash)"

definition djb2_hash :: "mem \<Rightarrow> nat \<Rightarrow> u32 option" where
  "djb2_hash m str = djb2_from m str 5381"

definition fnv1a_hash :: "mem \<Rightarrow> nat \<Rightarrow> nat \<Rightarrow> u32" where
  "fnv1a_hash m data len = fold (\<lambda>i hash. (hash XOR ucast (m (data + i))) * 16777619) [0..<len] 2166136261"

definition fnv1a_hash32 :: "mem \<Rightarrow> nat \<Rightarrow> nat \<Rightarrow> u32" where
  "fnv1a_hash32 m data len = fnv1a_hash m data len"

section \<open>The CRC as polynomial division\<close>

text \<open>Division of the register by the reflected IEEE polynomial, one bit at a time.\<close>

definition crc_bit :: "u32 \<Rightarrow> u32" where
  "crc_bit c = (if odd c then drop_bit 1 c XOR 0xEDB88320 else drop_bit 1 c)"

abbreviation crc_bits :: "nat \<Rightarrow> u32 \<Rightarrow> u32" where
  "crc_bits n \<equiv> crc_bit ^^ n"

definition crc_byte :: "u32 \<Rightarrow> u32" where
  "crc_byte c = crc_bits 8 c"

definition crc32_bitwise :: "u32 \<Rightarrow> u8 list \<Rightarrow> u32" where
  "crc32_bitwise crc xs = NOT (fold (\<lambda>b crc. crc_byte (crc XOR ucast b)) xs (NOT crc))"

lemma crc_bit_xor: "crc_bit (x XOR y) = crc_bit x XOR crc_bit y"
  by (simp add: crc_bit_def even_xor_iff drop_bit_xor ac_simps flip: xor.assoc)

lemma crc_bits_xor: "crc_bits n (x XOR y) = crc_bits n x XOR crc_bits n y"
  by (induction n) (auto simp: crc_bit_xor)

lemma crc_bits_high: "(\<And>k. k < n \<Longrightarrow> \<not> bit x k) \<Longrightarrow> crc_bits n x = drop_bit n x"
proof (induction n arbitrary: x)
  case (Suc n)
  have "crc_bits n (drop_bit 1 x) = drop_bit n (drop_bit 1 x)"
    using Suc.prems by (intro Suc.IH) (auto simp: bit_drop_bit_eq)
  moreover have "crc_bit x = drop_bit 1 x" using Suc.prems[of 0] by (simp add: crc_bit_def bit_0)
  ultimately show ?case by (simp only: funpow_Suc_right comp_apply) (simp add: drop_bit_drop_bit)
qed simp

lemma crc_byte_xor: "crc_byte (x XOR y) = crc_byte x XOR crc_byte y"
  by (simp add: crc_byte_def crc_bits_xor)

text \<open>The table, built by doubling from its entries at the powers of two.\<close>

fun double :: "u32 list \<Rightarrow> u32 list \<Rightarrow> u32 list" where
  "double [] xs = xs"
| "double (b # bs) xs = double bs (xs @ map (\<lambda>x. x XOR b) xs)"

definition crc_tab :: "nat \<Rightarrow> u32 list" where
  "crc_tab j = double (map (\<lambda>j. crc_byte (2 ^ j)) [0..<j]) [0]"

lemma double_append: "double (as @ bs) xs = double bs (double as xs)"
  by (induction as arbitrary: xs) auto

lemma crc_tab_simps [simp]:
  "crc_tab 0 = [0]"
  "crc_tab (Suc j) = crc_tab j @ map (\<lambda>x. x XOR crc_byte (2 ^ j)) (crc_tab j)"
  by (simp_all add: crc_tab_def double_append)

lemma length_crc_tab [simp]: "length (crc_tab j) = 2 ^ j"
  by (induction j) auto

lemma crc_byte_0 [simp]: "crc_byte 0 = 0"
proof -
  have "crc_bits n 0 = 0" for n by (induction n) (auto simp: crc_bit_def)
  then show ?thesis by (simp add: crc_byte_def)
qed

lemma add_eq_xor: "i < 2 ^ j \<Longrightarrow> (2 ^ j + word_of_nat i :: u32) = word_of_nat i XOR 2 ^ j"
proof -
  assume i: "i < 2 ^ j"
  have "bit i k \<Longrightarrow> k < j" for k using i
    by (metis bit_take_bit_iff take_bit_nat_eq_self_iff)
  then have "(2 ^ j :: u32) AND word_of_nat i = 0"
    by (intro bit_eqI) (auto simp: bit_and_iff bit_exp_iff bit_of_nat_iff)
  then show ?thesis by (simp add: disjunctive_add_eq_xor xor.commute)
qed

lemma nth_crc_tab: "j \<le> 8 \<Longrightarrow> i < 2 ^ j \<Longrightarrow> crc_tab j ! i = crc_byte (word_of_nat i)"
proof (induction j arbitrary: i)
  case (Suc j)
  show ?case
  proof (cases "i < 2 ^ j")
    case True
    then show ?thesis using Suc by (simp add: nth_append)
  next
    case False
    then obtain k where k: "i = 2 ^ j + k" "k < 2 ^ j"
      using Suc.prems(2) by (metis add_less_cancel_left le_add_diff_inverse mult_2 not_less power_Suc)
    have "(word_of_nat i :: u32) = word_of_nat k XOR 2 ^ j" using add_eq_xor[OF k(2)] by (simp add: k(1))
    then show ?thesis using Suc.IH[OF _ k(2)] Suc.prems(1) k by (simp add: nth_append crc_byte_xor)
  qed
qed simp

lemma crc_byte_unfold: "crc_byte c = crc_bit (crc_bit (crc_bit (crc_bit (crc_bit (crc_bit (crc_bit (crc_bit c)))))))"
  by (simp add: crc_byte_def numeral_eq_Suc)

lemma crc_powers:
  "crc_byte 1 = 0x77073096" "crc_byte 2 = 0xee0e612c" "crc_byte 4 = 0x076dc419" "crc_byte 8 = 0x0edb8832"
  "crc_byte 16 = 0x1db71064" "crc_byte 32 = 0x3b6e20c8" "crc_byte 64 = 0x76dc4190" "crc_byte 128 = 0xedb88320"
  by (simp_all add: crc_byte_unfold crc_bit_def)

lemma crc_tab_8: "crc_tab 8 = g_crc32_table"
proof -
  have "[0..<8] = [0, 1, 2, 3, 4, 5, 6, 7::nat]" by (simp add: upt_rec)
  then have "crc_tab 8 = double [0x77073096, 0xee0e612c, 0x076dc419, 0x0edb8832, 0x1db71064, 0x3b6e20c8, 0x76dc4190, 0xedb88320] [0]"
    by (simp add: crc_tab_def crc_powers del: double.simps)
  also have "\<dots> = g_crc32_table"
    unfolding g_crc32_table_def by simp
  finally show ?thesis .
qed

lemma crc32_step_bits: "crc32_step crc b = crc_byte (crc XOR ucast b)"
proof -
  let ?x = "crc XOR ucast b" and ?l = "(crc XOR ucast b) AND 0xFF"
  have l: "?l = take_bit 8 ?x" by (simp add: take_bit_eq_mask mask_numeral)
  have "?l \<le> 0xFF" by (rule word_and_le1)
  then have "unat ?l < 256" by (simp add: word_le_nat_alt)
  then have "g_crc32_table ! unat ?l = crc_byte ?l"
    using nth_crc_tab[of 8 "unat ?l"] by (simp add: crc_tab_8)
  moreover have "crc_byte (?x XOR ?l) = drop_bit 8 (?x XOR ?l)"
    unfolding crc_byte_def by (rule crc_bits_high) (auto simp: l bit_xor_iff bit_take_bit_iff)
  moreover have "drop_bit 8 (?x XOR ?l) = drop_bit 8 crc"
    by (rule bit_eqI) (auto simp: l bit_xor_iff bit_take_bit_iff bit_drop_bit_eq bit_ucast_iff word_size dest: bit_imp_le_length)
  moreover have "crc_byte ?x = crc_byte ?l XOR crc_byte (?x XOR ?l)"
    by (simp flip: crc_byte_xor add: xor.left_commute)
  ultimately show ?thesis by (simp add: crc32_step_def)
qed

lemma fold_upt_load: "fold (\<lambda>i s. f s (m (p + i))) [0..<n] s = fold (\<lambda>b s. f s b) (load m p n) s"
  by (simp add: load_def fold_map comp_def)

text \<open>
  C35 (crc32_is_bitwise): the table-driven CRC-32 over any run of memory is the bit-at-a-time
  division by the IEEE 802.3 polynomial, so all 256 table entries are right.
\<close>

theorem crc32_is_bitwise: "crc32_update crc m data len = crc32_bitwise crc (load m data len)"
  unfolding crc32_update_def crc32_bitwise_def crc32_step_bits
  by (subst fold_upt_load[where f = "\<lambda>s b. crc_byte (s XOR ucast b)"]) (rule refl)

lemma crc32_bitwise_append: "crc32_bitwise (crc32_bitwise c xs) ys = crc32_bitwise c (xs @ ys)"
  by (simp add: crc32_bitwise_def)

section \<open>Base64: the loops implement list codes, and decoding inverts encoding\<close>

declare base64_encode_from.simps [simp del] base64_decode_from.simps [simp del] hex_decode_from.simps [simp del]

definition b64_val :: "u8 list \<Rightarrow> u32" where
  "b64_val xs = push_bit 16 (ucast (xs ! 0))
     OR (if 1 < length xs then push_bit 8 (ucast (xs ! 1)) else 0)
     OR (if 2 < length xs then ucast (xs ! 2) else 0)"

fun b64_enc :: "u8 list \<Rightarrow> u8 list" where
  "b64_enc [] = []"
| "b64_enc [x] = (let v = b64_val [x] in [b64_char (drop_bit 18 v), b64_char (drop_bit 12 v), 0x3D, 0x3D])"
| "b64_enc [x, y] =
     (let v = b64_val [x, y] in [b64_char (drop_bit 18 v), b64_char (drop_bit 12 v), b64_char (drop_bit 6 v), 0x3D])"
| "b64_enc (x # y # z # xs) =
     (let v = b64_val [x, y, z]
      in [b64_char (drop_bit 18 v), b64_char (drop_bit 12 v), b64_char (drop_bit 6 v), b64_char v] @ b64_enc xs)"

fun b64_dec :: "u8 list \<Rightarrow> u8 list option" where
  "b64_dec (p # q # r # s # xs) =
     (if base64_value p < 0 \<or> base64_value q < 0 then None
      else map_option ((@) (b64_group (base64_value p) (base64_value q) (base64_value r) (base64_value s))) (b64_dec xs))"
| "b64_dec _ = Some []"

lemma length_b64_enc: "length (b64_enc xs) = (length xs + 2) div 3 * 4"
proof (induction xs rule: b64_enc.induct)
  case (4 x y z xs)
  have "length (x # y # z # xs) + 2 = (length xs + 2) + 1 * 3" by simp
  then have "(length (x # y # z # xs) + 2) div 3 = (length xs + 2) div 3 + 1" by simp
  then show ?case using 4 by (simp add: Let_def)
qed (simp_all add: Let_def)

text \<open>Each of the 64 characters has its index as value.\<close>

lemma b64_table_values: "map base64_value g_base64_table = map int [0..<64]"
  by code_simp

lemma base64_value_char: "base64_value (b64_char w) = uint (w AND 0x3F)"
proof -
  have "w AND 0x3F \<le> 0x3F" by (rule word_and_le1)
  then have lt: "unat (w AND 0x3F) < 64" by (simp add: word_le_nat_alt)
  have "length g_base64_table = 64" by (simp add: g_base64_table_def bytes_def)
  then have "base64_value (g_base64_table ! unat (w AND 0x3F)) = map base64_value g_base64_table ! unat (w AND 0x3F)"
    using lt by simp
  also have "\<dots> = int (unat (w AND 0x3F))" unfolding b64_table_values using lt by simp
  finally show ?thesis by (simp add: b64_char_def)
qed

lemma base64_value_pad: "base64_value 0x3D = -1"
  by (simp add: base64_value_def)

lemma and_3F: "w AND 0x3F = take_bit 6 w" for w :: u32
  by (simp add: take_bit_eq_mask mask_numeral)

lemma b64_join:
  "push_bit 18 (take_bit 6 (drop_bit 18 v)) OR push_bit 12 (take_bit 6 (drop_bit 12 v))
     OR push_bit 6 (take_bit 6 (drop_bit 6 v)) OR take_bit 6 v = take_bit 24 v" for v :: u32
proof (rule bit_eqI)
  fix n :: nat
  consider "n < 6" | "6 \<le> n" "n < 12" | "12 \<le> n" "n < 18" | "18 \<le> n" "n < 24" | "24 \<le> n" by linarith
  then show "bit (push_bit 18 (take_bit 6 (drop_bit 18 v)) OR push_bit 12 (take_bit 6 (drop_bit 12 v))
     OR push_bit 6 (take_bit 6 (drop_bit 6 v)) OR take_bit 6 v) n = bit (take_bit 24 v) n"
    by cases (auto simp: bit_or_iff bit_push_bit_iff bit_take_bit_iff bit_drop_bit_eq dest: bit_imp_le_length)
qed

lemma uint_and_3F: "0 \<le> uint (w AND 0x3F)" "(word_of_int (uint w) :: u32) = w" for w :: u32
  by simp_all

lemma bit_u8_ge: "8 \<le> n \<Longrightarrow> \<not> bit (x :: u8) n"
  using bit_imp_le_length[of x n] by auto

lemma group_3:
  "b64_group (uint (drop_bit 18 v AND 0x3F)) (uint (drop_bit 12 v AND 0x3F)) (uint (drop_bit 6 v AND 0x3F)) (uint (v AND 0x3F))
     = [x, y, z]" if v: "v = b64_val [x, y, z]" for v :: u32
proof -
  have t: "take_bit 24 v = v"
    by (rule bit_eqI) (auto simp: v b64_val_def bit_simps bit_u8_ge not_less)
  have "ucast (drop_bit 16 v) = x" "ucast (drop_bit 8 v) = y" "ucast v = z"
    by (rule bit_eqI; auto simp: v b64_val_def bit_simps bit_u8_ge)+
  then show ?thesis using b64_join[of v] t by (simp add: b64_group_def Let_def and_3F or.assoc del: drop_bit_or)
qed

lemma group_2:
  "b64_group (uint (drop_bit 18 v AND 0x3F)) (uint (drop_bit 12 v AND 0x3F)) (uint (drop_bit 6 v AND 0x3F)) (-1)
     = [x, y]" if v: "v = b64_val [x, y]" for v :: u32
proof -
  have t: "take_bit 24 v = v" "take_bit 6 v = 0"
    by (rule bit_eqI; auto simp: v b64_val_def bit_simps bit_u8_ge not_less)+
  have "ucast (drop_bit 16 v) = x" "ucast (drop_bit 8 v) = y"
    by (rule bit_eqI; auto simp: v b64_val_def bit_simps bit_u8_ge)+
  then show ?thesis using b64_join[of v] t by (simp add: b64_group_def Let_def and_3F or.assoc del: drop_bit_or)
qed

lemma group_1:
  "b64_group (uint (drop_bit 18 v AND 0x3F)) (uint (drop_bit 12 v AND 0x3F)) (-1) (-1)
     = [x]" if v: "v = b64_val [x]" for v :: u32
proof -
  have "bit x (n - 16) \<Longrightarrow> n < 24" for n using bit_u8_ge[of "n - 16" x] by (cases "n < 24") auto
  then have t: "take_bit 24 v = v"
    by (intro bit_eqI) (auto simp: v b64_val_def bit_simps)
  have t': "take_bit 6 v = 0" "take_bit 6 (drop_bit 6 v) = 0"
    by (rule bit_eqI; auto simp: v b64_val_def bit_simps bit_u8_ge not_less)+
  have "ucast (drop_bit 16 v) = x"
    by (rule bit_eqI; auto simp: v b64_val_def bit_simps bit_u8_ge)+
  then show ?thesis using b64_join[of v] t t' by (simp add: b64_group_def Let_def and_3F or.assoc del: drop_bit_or)
qed

lemma b64_dec_enc: "b64_dec (b64_enc xs) = Some xs"
  by (induction xs rule: b64_enc.induct)
    (simp_all add: Let_def base64_value_char base64_value_pad group_1 group_2 group_3)

text \<open>The encoding loop, from any position on.\<close>

lemma b64_enc_chunk: "b64_enc (take 3 xs) @ b64_enc (drop 3 xs) = b64_enc xs"
  by (induction xs rule: b64_enc.induct) (auto simp: Let_def numeral_3_eq_3)

lemma length_b64_chunk: "xs \<noteq> [] \<Longrightarrow> length (b64_enc (take 3 xs)) = 4"
  by (induction xs rule: b64_enc.induct) (auto simp: Let_def numeral_3_eq_3)

lemma drop_load: "drop k (load m p n) = load m (p + k) (n - k)"
  by (rule nth_equalityI) (auto simp: add.assoc)

lemma take_load: "take k (load m p n) = load m p (min k n)"
  by (rule nth_equalityI) auto

lemma store4: "store m p [a, b, c, d] = m(p := a, p + 1 := b, p + 2 := c, p + 3 := d)"
  by (simp add: store_Cons numeral_2_eq_2 numeral_3_eq_3)

lemma base64_encode_step:
  assumes "i < len"
  shows "base64_encode_from m data len out pos i =
    base64_encode_from (store m (out + pos) (b64_enc (take 3 (load m (data + i) (len - i))))) data len out (pos + 4) (i + 3)"
proof -
  consider "len - i = 1" | "len - i = 2" | "3 \<le> len - i" using assms by linarith
  then have "b64_enc (take 3 (load m (data + i) (len - i))) =
     (let val = push_bit 16 (ucast (m (data + i)) :: u32);
          val = (if i + 1 < len then val OR push_bit 8 (ucast (m (data + i + 1))) else val);
          val = (if i + 2 < len then val OR ucast (m (data + i + 2)) else val)
      in [b64_char (drop_bit 18 val), b64_char (drop_bit 12 val),
          if i + 1 < len then b64_char (drop_bit 6 val) else 0x3D, if i + 2 < len then b64_char val else 0x3D])"
  proof cases
    case 1
    then have "take 3 (load m (data + i) (len - i)) = [m (data + i)]" by (simp add: load_Suc)
    moreover have "\<not> i + 1 < len" "\<not> i + 2 < len" using 1 by auto
    ultimately show ?thesis by (simp add: Let_def b64_val_def)
  next
    case 2
    then have "take 3 (load m (data + i) (len - i)) = [m (data + i), m (data + i + 1)]"
      by (simp add: load_Suc numeral_2_eq_2)
    moreover have "i + 1 < len" "\<not> i + 2 < len" using 2 by auto
    ultimately show ?thesis by (simp add: Let_def b64_val_def)
  next
    case 3
    then have "take 3 (load m (data + i) (len - i)) = [m (data + i), m (data + i + 1), m (data + i + 2)]"
      by (simp add: take_load min_def load_Suc numeral_2_eq_2 numeral_3_eq_3)
    moreover have "i + 1 < len" "i + 2 < len" using 3 by auto
    ultimately show ?thesis by (simp add: Let_def b64_val_def or.assoc)
  qed
  then show ?thesis using assms
    by (subst base64_encode_from.simps) (simp add: Let_def store4 add.assoc)
qed

lemma base64_encode_loop:
  assumes "{data..<data + len} \<inter> {out..<out + pos + length (b64_enc (load m (data + i) (len - i)))} = {}"
  shows "base64_encode_from m data len out pos i =
    (pos + length (b64_enc (load m (data + i) (len - i))), store m (out + pos) (b64_enc (load m (data + i) (len - i))))"
  using assms
proof (induction "len - i" arbitrary: m pos i rule: less_induct)
  case less
  show ?case
  proof (cases "i < len")
    case False
    then show ?thesis by (simp add: base64_encode_from.simps)
  next
    case True
    let ?xs = "load m (data + i) (len - i)"
    let ?c = "b64_enc (take 3 ?xs)" and ?r = "b64_enc (drop 3 ?xs)"
    let ?m = "store m (out + pos) ?c"
    have c: "length ?c = 4" using True by (intro length_b64_chunk) (simp flip: length_greater_0_conv)
    have enc: "b64_enc ?xs = ?c @ ?r" by (rule b64_enc_chunk[symmetric])
    have "load ?m (data + (i + 3)) (len - (i + 3)) = load m (data + (i + 3)) (len - (i + 3))"
    proof (rule load_cong)
      fix a assume a: "data + (i + 3) \<le> a" "a < data + (i + 3) + (len - (i + 3))"
      then have "a \<in> {data..<data + len}" by auto
      then have "a \<notin> {out..<out + pos + length (b64_enc ?xs)}" using less.prems by blast
      then show "?m a = m a" using c enc by (intro store_other) auto
    qed
    then have r: "b64_enc (load ?m (data + (i + 3)) (len - (i + 3))) = ?r" by (simp add: drop_load add.assoc)
    have "base64_encode_from ?m data len out (pos + 4) (i + 3)
        = (pos + 4 + length ?r, store ?m (out + (pos + 4)) ?r)"
      using less.hyps[of "i + 3" "pos + 4" ?m] less.prems True c unfolding r enc by (simp add: add.assoc)
    then show ?thesis using True c unfolding enc by (subst base64_encode_step) (simp_all add: store_append add.assoc)
  qed
qed


lemma b64_dec_step:
  "xs = p # q # r # s # ys \<Longrightarrow> b64_dec xs = Some zs \<Longrightarrow>
   \<not> base64_value p < 0 \<and> \<not> base64_value q < 0 \<and>
   (\<exists>ws. b64_dec ys = Some ws \<and> zs = b64_group (base64_value p) (base64_value q) (base64_value r) (base64_value s) @ ws)"
  by (auto split: if_splits)

text \<open>The decoding loop, from any position on.\<close>

lemma base64_decode_loop:
  assumes "b64_dec (load m (b64 + i) (n - i)) = Some zs" "4 dvd n - i"
    "{b64..<b64 + n} \<inter> {dst..<dst + pos + length zs} = {}"
  shows "base64_decode_from m b64 n dst pos i = (to_int (pos + length zs), pos + length zs, store m (dst + pos) zs)"
  using assms
proof (induction "n - i" arbitrary: m pos i zs rule: less_induct)
  case less
  show ?case
  proof (cases "i < n")
    case False
    then show ?thesis using less.prems by (simp add: base64_decode_from.simps)
  next
    case True
    then obtain k where k: "n - i = 4 + k" using less.prems(2) by (metis dvd_imp_le le_Suc_ex zero_less_diff)
    let ?v = "\<lambda>j. base64_value (m (b64 + (i + j)))"
    let ?ys = "load m (b64 + (i + 4)) k"
    have ld: "load m (b64 + i) (n - i) = m (b64 + i) # m (b64 + (i + 1)) # m (b64 + (i + 2)) # m (b64 + (i + 3)) # ?ys"
      unfolding k by (simp add: numeral_eq_Suc load_Suc)
    obtain ws where ws: "\<not> ?v 0 < 0" "\<not> ?v 1 < 0" "b64_dec ?ys = Some ws"
      "zs = b64_group (?v 0) (?v 1) (?v 2) (?v 3) @ ws"
      using b64_dec_step[OF ld less.prems(1)] by auto
    let ?g = "b64_group (?v 0) (?v 1) (?v 2) (?v 3)"
    let ?m = "store m (dst + pos) ?g"
    have nk: "n - (i + 4) = k" using k by simp
    have "load ?m (b64 + (i + 4)) (n - (i + 4)) = ?ys" unfolding nk
    proof (rule load_cong)
      fix a assume a: "b64 + (i + 4) \<le> a" "a < b64 + (i + 4) + k"
      then have "a \<in> {b64..<b64 + n}" using k True by auto
      then have "a \<notin> {dst..<dst + pos + length zs}" using less.prems(3) by blast
      then show "?m a = m a" using ws(4) by (intro store_other) auto
    qed
    then have d: "b64_dec (load ?m (b64 + (i + 4)) (n - (i + 4))) = Some ws" using ws(3) by simp
    have e: "4 dvd n - (i + 4)" using less.prems(2) unfolding k nk by simp
    have f: "{b64..<b64 + n} \<inter> {dst..<dst + (pos + length ?g) + length ws} = {}"
      using less.prems(3) unfolding ws(4) by (simp add: add.assoc)
    have "n - (i + 4) < n - i" using True by simp
    from less.hyps[OF this d e f]
    have "base64_decode_from ?m b64 n dst (pos + length ?g) (i + 4)
        = (to_int (pos + length ?g + length ws), pos + length ?g + length ws, store ?m (dst + (pos + length ?g)) ws)" .
    then show ?thesis using True ws
      by (subst base64_decode_from.simps) (simp add: Let_def store_append add.assoc)
  qed
qed


lemma b64_len_4: "length (b64_enc xs) mod 4 = 0"
  by (simp add: length_b64_enc)

lemma group_bound: "length (b64_group a b c d) \<le> 3 - (if c < 0 then 1 else 0) - (if d < 0 then 1 else 0)"
  by (simp add: b64_group_def Let_def)

text \<open>
  What the loop stores: at most three bytes for every four characters, and fewer for the
  padding of the last group.
\<close>

definition b64_pad :: "mem \<Rightarrow> nat \<Rightarrow> nat \<Rightarrow> nat" where
  "b64_pad m b64 n = (if m (b64 + (n - 1)) = 0x3D then 1 else 0) + (if m (b64 + (n - 2)) = 0x3D then 1 else 0)"

definition b64_safe :: "mem \<Rightarrow> nat \<Rightarrow> nat \<Rightarrow> nat \<Rightarrow> nat \<Rightarrow> nat \<Rightarrow> int \<times> nat \<times> mem \<Rightarrow> bool" where
  "b64_safe m b64 n dst pos room r \<longleftrightarrow>
     pos \<le> fst (snd r) \<and> fst (snd r) + b64_pad m b64 n \<le> pos + room \<and>
     (\<forall>a. a \<notin> {dst + pos..<dst + fst (snd r)} \<longrightarrow> snd (snd r) a = m a)"

lemma b64_pad_le: "b64_pad m b64 n \<le> 2"
  by (simp add: b64_pad_def)

lemma b64_pad_store:
  assumes "{b64..<b64 + n} \<inter> {dst + pos..<dst + pos + length g} = {}" "2 \<le> n"
  shows "b64_pad (store m (dst + pos) g) b64 n = b64_pad m b64 n"
proof -
  have "b64 + (n - 1) \<in> {b64..<b64 + n}" "b64 + (n - 2) \<in> {b64..<b64 + n}" using assms(2) by auto
  then have "b64 + (n - 1) \<notin> {dst + pos..<dst + pos + length g}" "b64 + (n - 2) \<notin> {dst + pos..<dst + pos + length g}"
    using assms(1) by blast+
  then have "store m (dst + pos) g (b64 + (n - 1)) = m (b64 + (n - 1))" "store m (dst + pos) g (b64 + (n - 2)) = m (b64 + (n - 2))"
    by (auto simp: store_def)
  then show ?thesis by (simp add: b64_pad_def)
qed

lemma base64_decode_from_bound:
  assumes "4 dvd n - i" "i < n" "{b64..<b64 + n} \<inter> {dst..<dst + pos + (n - i) div 4 * 3} = {}"
  shows "b64_safe m b64 n dst pos ((n - i) div 4 * 3) (base64_decode_from m b64 n dst pos i)"
  using assms
proof (induction "n - i" arbitrary: m pos i rule: less_induct)
  case less
  obtain k where k: "n - i = 4 + k" using less.prems(1,2) by (metis dvd_imp_le le_Suc_ex zero_less_diff)
  then have dk: "4 dvd k" "n - (i + 4) = k" "(n - i) div 4 * 3 = 3 + k div 4 * 3" using less.prems(1) by auto
  let ?v = "\<lambda>j. base64_value (m (b64 + (i + j)))"
  let ?g = "b64_group (?v 0) (?v 1) (?v 2) (?v 3)"
  let ?m = "store m (dst + pos) ?g"
  have g: "length ?g \<le> 3" using group_bound[of "?v 0" "?v 1" "?v 2" "?v 3"] by simp
  show ?case
  proof (cases "?v 0 < 0 \<or> ?v 1 < 0")
    case True
    then have "base64_decode_from m b64 n dst pos i = (-1, pos, m)"
      using less.prems(2) by (subst base64_decode_from.simps) (simp add: Let_def)
    then show ?thesis using b64_pad_le[of m b64 n] dk by (simp add: b64_safe_def)
  next
    case False
    then have st: "base64_decode_from m b64 n dst pos i = base64_decode_from ?m b64 n dst (pos + length ?g) (i + 4)"
      using less.prems(2) by (subst base64_decode_from.simps) (simp add: Let_def)
    have frame: "?m a = m a" if "a \<notin> {dst + pos..<dst + pos + length ?g}" for a
      using that by (auto simp: store_def)
    show ?thesis
    proof (cases "k = 0")
      case True
      then have n: "n - 1 = i + 3" "n - 2 = i + 2" "\<not> i + 4 < n" using k by auto
      have "m (b64 + (i + j)) = 0x3D \<Longrightarrow> ?v j < 0" for j by (simp add: base64_value_pad)
      then have "length ?g + b64_pad m b64 n \<le> 3"
        using group_bound[of "?v 0" "?v 1" "?v 2" "?v 3"] unfolding b64_pad_def n by (auto simp: base64_value_pad split: if_splits)
      moreover have "base64_decode_from ?m b64 n dst (pos + length ?g) (i + 4) = (to_int (pos + length ?g), pos + length ?g, ?m)"
        using n(3) by (subst base64_decode_from.simps) simp
      ultimately show ?thesis using True dk frame unfolding st by (simp add: b64_safe_def add.assoc)
    next
      case False
      have sub: "{dst..<dst + (pos + length ?g) + (n - (i + 4)) div 4 * 3} \<subseteq> {dst..<dst + pos + (n - i) div 4 * 3}"
        "{dst + pos..<dst + pos + length ?g} \<subseteq> {dst..<dst + pos + (n - i) div 4 * 3}"
        using g dk by auto
      have "b64_safe ?m b64 n dst (pos + length ?g) ((n - (i + 4)) div 4 * 3) (base64_decode_from ?m b64 n dst (pos + length ?g) (i + 4))"
        using less.hyps[of "i + 4" "pos + length ?g" ?m] less.prems(2,3) False dk sub(1) by (auto simp del: atLeastLessThan_iff)
      moreover have "b64_pad ?m b64 n = b64_pad m b64 n"
        using less.prems(3) sub(2) k by (intro b64_pad_store) auto
      ultimately show ?thesis using g dk frame unfolding st b64_safe_def by (auto simp: add.assoc)
    qed
  qed
qed


lemma base64_decoded_size_pad:
  assumes "b64_len mod 4 = 0" "0 < b64_len" "b64_len < 2 ^ 62"
  shows "base64_decoded_size m b64 b64_len = b64_len div 4 * 3 - b64_pad m b64 b64_len"
proof -
  obtain k where k: "b64_len = 4 * k" using assms(1) by fastforce
  then have "1 < b64_len" "1 \<le> k" using assms(2) by auto
  then show ?thesis using assms b64_pad_le[of m b64 b64_len] k
    by (auto simp: base64_decoded_size_def b64_pad_def Let_def sub64_nowrap)
qed

text \<open>
  C33 (base64_decode_in_bounds): whatever characters an input shorter than \<open>2 ^ 62\<close> that does not overlap the output holds, well formed or not,
  \<^verbatim>\<open>base64_decode\<close> changes no byte outside the \<^verbatim>\<open>out_size\<close> bytes of its output buffer.
\<close>

theorem base64_decode_in_bounds:
  assumes "b64_len < 2 ^ 62" "{b64..<b64 + b64_len} \<inter> {out..<out + b64_len} = {}" "a \<notin> {out..<out + out_size}"
  shows "snd (snd (base64_decode m b64 b64_len out out_size)) a = m a"
proof (cases "b64 = 0 \<or> out = 0 \<or> b64_len mod 4 \<noteq> 0 \<or> out_size < base64_decoded_size m b64 b64_len \<or> b64_len = 0")
  case True
  then show ?thesis by (auto simp: base64_decode_def base64_decode_from.simps)
next
  case False
  then have d: "4 dvd b64_len - 0" "0 < b64_len" "base64_decoded_size m b64 b64_len \<le> out_size" by auto
  have "b64_len div 4 * 3 \<le> b64_len" by linarith
  then have "{b64..<b64 + b64_len} \<inter> {out..<out + 0 + (b64_len - 0) div 4 * 3} = {}"
    using assms(2) by (auto simp: disjoint_iff)
  from base64_decode_from_bound[OF d(1,2) this, of m]
  have "b64_safe m b64 b64_len out 0 (b64_len div 4 * 3) (base64_decode_from m b64 b64_len out 0 0)" by simp
  moreover have "b64_len div 4 * 3 - b64_pad m b64 b64_len \<le> out_size"
    using base64_decoded_size_pad[of b64_len m b64] False assms(1) d by simp
  ultimately have "snd (snd (base64_decode_from m b64 b64_len out 0 0)) a = m a"
    using assms(3) unfolding b64_safe_def by auto
  then show ?thesis using False by (simp add: base64_decode_def)
qed

theorem base64_decode_in_bounds_witness:
  "(4::nat) < 2 ^ 62 \<and> {64..<64 + 4} \<inter> {128..<128 + 4} = ({} :: nat set) \<and> (131::nat) \<notin> {128..<128 + 3} \<and>
   snd (snd (base64_decode (store (\<lambda>_. 0x7F) 64 (bytes ''QUJD'')) 64 4 128 3)) 131 = 0x7F"
  using base64_decode_in_bounds[of 4 64 128 131 3 "store (\<lambda>_. 0x7F) 64 (bytes ''QUJD'')"]
  by (simp add: store_def bytes_def)

lemma b64_enc_pad:
  "xs \<noteq> [] \<Longrightarrow> length (b64_enc xs) div 4 * 3 \<le> length xs
     + (if b64_enc xs ! (length (b64_enc xs) - 1) = 0x3D then 1 else 0)
     + (if b64_enc xs ! (length (b64_enc xs) - 2) = 0x3D then 1 else 0)"
proof (induction xs rule: b64_enc.induct)
  case (4 x y z xs)
  show ?case
  proof (cases "xs = []")
    case True
    then show ?thesis by (simp add: Let_def)
  next
    case False
    have "(1 + 2) div 3 \<le> (length xs + 2) div 3" using False by (intro div_le_mono) (cases xs; simp)
    then have l: "2 \<le> length (b64_enc xs)" by (simp add: length_b64_enc)
    define c where "c = (let v = b64_val [x, y, z] in [b64_char (drop_bit 18 v), b64_char (drop_bit 12 v), b64_char (drop_bit 6 v), b64_char v])"
    have c: "b64_enc (x # y # z # xs) = c @ b64_enc xs" "length c = 4" by (simp_all add: c_def Let_def)
    have e: "(c @ b64_enc xs) ! (length (c @ b64_enc xs) - 1) = b64_enc xs ! (length (b64_enc xs) - 1)"
      "(c @ b64_enc xs) ! (length (c @ b64_enc xs) - 2) = b64_enc xs ! (length (b64_enc xs) - 2)"
      "length (c @ b64_enc xs) div 4 * 3 = 3 + length (b64_enc xs) div 4 * 3"
      using l c(2) by (auto simp: nth_append div_add_self1)
    then show ?thesis unfolding c(1) e using "4.IH"[OF refl False] by simp
  qed
qed (simp_all add: Let_def)

text \<open>
  C37 (base64_roundtrip): encoding any block of memory into a large enough buffer reports the
  length it wrote, and decoding that text reproduces the block byte for byte.
\<close>

theorem base64_roundtrip:
  assumes "data \<noteq> 0" "out \<noteq> 0" "dst \<noteq> 0" "len < 2 ^ 29" "base64_encoded_size len < out_size" "len \<le> dst_size"
    "{data..<data + len} \<inter> {out..<out + base64_encoded_size len} = {}"
    "{out..out + base64_encoded_size len} \<inter> {dst..<dst + len} = {}"
  shows "\<exists>m1. base64_encode m data len out out_size = (int (base64_encoded_size len), m1) \<and>
    (\<exists>m2. base64_decode m1 out (base64_encoded_size len) dst dst_size = (int len, len, m2)
        \<and> load m2 dst len = load m data len)"
proof -
  let ?xs = "load m data len" and ?n = "base64_encoded_size len"
  let ?ys = "b64_enc ?xs"
  have n: "length ?ys = ?n" "?n < 2 ^ 30"
    using assms(4) by (simp_all add: length_b64_enc base64_encoded_size_def add64_nowrap)
  define m1 where "m1 = (store m out ?ys)(out + ?n := 0)"
  have enc: "base64_encode_from m data len out 0 0 = (?n, store m out ?ys)"
    using base64_encode_loop[of data len out 0 m 0] assms(7) n by simp
  have e: "base64_encode m data len out out_size = (int ?n, m1)"
    using assms n enc by (simp add: base64_encode_def m1_def to_int_small add64_nowrap)
  have ld: "load m1 out ?n = ?ys" using load_store[of m out ?ys] n
    unfolding m1_def by (metis add_less_cancel_left fun_upd_other less_irrefl load_cong)
  have dec: "b64_dec (load m1 (out + 0) (?n - 0)) = Some ?xs" by (simp add: ld b64_dec_enc)
  have dv: "4 dvd ?n" unfolding n(1)[symmetric] length_b64_enc by simp
  have "{out..<out + ?n} \<subseteq> {out..out + ?n}" by auto
  with assms(8) have "{out..<out + ?n} \<inter> {dst..<dst + len} = {}" by blast
  then have dis: "{out..<out + ?n} \<inter> {dst..<dst + 0 + length ?xs} = {}" by simp
  have lp: "base64_decode_from m1 out ?n dst 0 0 = (to_int len, len, store m1 dst ?xs)"
    using base64_decode_loop[OF dec _ dis] dv by simp
  have room: "base64_decoded_size m1 out ?n \<le> dst_size"
  proof (cases "len = 0")
    case True
    then show ?thesis by (simp add: base64_decoded_size_def base64_encoded_size_def add64_nowrap Let_def sub64_nowrap)
  next
    case False
    then have xs: "?xs \<noteq> []" "0 < ?n" using n(1) by (auto simp: length_b64_enc simp flip: length_greater_0_conv)
    then have "m1 (out + (?n - j)) = ?ys ! (?n - j)" if "j = 1 \<or> j = 2" for j
      using nth_load[of "?n - j" ?n m1 out] that unfolding ld by auto
    then have "?n div 4 * 3 - b64_pad m1 out ?n \<le> len"
      using b64_enc_pad[OF xs(1)] n(1) by (simp add: b64_pad_def split: if_splits)
    then show ?thesis using base64_decoded_size_pad[of ?n m1 out] dv xs(2) n(2) assms(6) by simp
  qed
  have "base64_decode m1 out ?n dst dst_size = (int len, len, store m1 dst ?xs)"
    using assms lp room dv by (auto simp: base64_decode_def to_int_small)
  moreover have "load (store m1 dst ?xs) dst len = ?xs" using load_store[of m1 dst ?xs] by simp
  ultimately show ?thesis using e by blast
qed


theorem base64_roundtrip_witness:
  "\<exists>m1. base64_encode (store (\<lambda>_. 0) 16 (bytes ''gOS!'')) 16 4 32 9 = (8, m1) \<and>
    (\<exists>m2. base64_decode m1 32 8 64 4 = (4, 4, m2) \<and> load m2 64 4 = bytes ''gOS!'')"
proof -
  have s: "base64_encoded_size 4 = 8" by (simp add: base64_encoded_size_def add64_def)
  have "length (bytes ''gOS!'') = 4" by (simp add: bytes_def)
  then have "load (store (\<lambda>_. 0) 16 (bytes ''gOS!'')) 16 4 = bytes ''gOS!''"
    using load_store[of "\<lambda>_. 0" 16 "bytes ''gOS!''"] by simp
  moreover have "{32..40} \<inter> {64..<68} = ({} :: nat set)" by auto
  ultimately show ?thesis
    using base64_roundtrip[of 16 32 64 4 9 4 "store (\<lambda>_. 0) 16 (bytes ''gOS!'')"] by (simp add: s)
qed

section \<open>Hexadecimal\<close>

lemma hex_value_digit: "x < 16 \<Longrightarrow> hex_value (hex_digit x) = uint x"
proof -
  assume "x < 16"
  then have "unat x < 16" by (simp add: word_less_nat_alt)
  then have "x \<in> word_of_nat ` set [0..<16]" by (intro image_eqI[of x _ "unat x"]) auto
  moreover have "\<forall>x \<in> word_of_nat ` set [0..<16]. hex_value (hex_digit x) = uint x"
    by (simp add: upt_rec hex_value_def hex_digit_def)
  ultimately show ?thesis by blast
qed

definition hex_enc :: "u8 list \<Rightarrow> u8 list" where
  "hex_enc xs = concat (map (\<lambda>b. [hex_digit (drop_bit 4 b), hex_digit (b AND 0x0F)]) xs)"

lemma length_hex_enc [simp]: "length (hex_enc xs) = 2 * length xs"
  by (induction xs) (auto simp: hex_enc_def)


lemma load_Suc_last: "load m p (Suc n) = load m p n @ [m (p + n)]"
  by (simp add: load_def)

lemma hex_enc_snoc: "hex_enc (xs @ [b]) = hex_enc xs @ [hex_digit (drop_bit 4 b), hex_digit (b AND 0x0F)]"
  by (simp add: hex_enc_def)

lemma hex_encode_loop:
  assumes "{data..<data + len} \<inter> {out..<out + 2 * len} = {}" "k \<le> len"
  shows "fold (\<lambda>i (pos, m).
             let m = m(out + pos := hex_digit (drop_bit 4 (m (data + i))));
                 m = m(out + pos + 1 := hex_digit (m (data + i) AND 0x0F))
             in (pos + 2, m)) [0..<k] (0, m) = (2 * k, store m out (hex_enc (load m data k)))"
  using assms(2)
proof (induction k)
  case 0
  then show ?case by (simp add: hex_enc_def)
next
  case (Suc k)
  let ?ys = "hex_enc (load m data k)"
  have "data + k \<in> {data..<data + len}" using Suc.prems by simp
  then have k: "data + k \<notin> {out..<out + 2 * len}" using assms(1) by blast
  then have "store m out ?ys (data + k) = m (data + k)" "data + k \<noteq> out + 2 * k"
    using Suc.prems by (auto intro!: store_other)
  then show ?case using Suc
    by (simp add: load_Suc_last hex_enc_snoc store_append store_Cons Let_def fun_eq_iff)
qed

lemma nibbles: "push_bit 4 (uint (drop_bit 4 b)) OR uint (b AND 0x0F) = uint b" for b :: u8
proof -
  have "b AND 0x0F = take_bit 4 b" by (simp add: take_bit_eq_mask mask_numeral)
  then show ?thesis
    by (auto intro!: bit_eqI simp: bit_simps bit_uint_iff not_le dest: bit_imp_le_length)
qed

lemma nibble_small: "drop_bit 4 b < (16 :: u8)" "b AND 0x0F < (16 :: u8)"
proof -
  have "unat (drop_bit 4 b) = unat b div 16" by (simp add: drop_bit_eq_div unat_div)
  moreover have "unat b < 256" using unsigned_less[of b] by simp
  ultimately show "drop_bit 4 b < 16" by (simp add: word_less_nat_alt)
  have "b AND 0x0F \<le> 0x0F" by (rule word_and_le1)
  then show "b AND 0x0F < 16" by (simp add: word_le_nat_alt word_less_nat_alt)
qed

lemma hex_decode_loop:
  assumes "load m (hex + i) (n - i) = hex_enc xs" "{hex..<hex + n} \<inter> {out..<out + pos + length xs} = {}" "i \<le> n"
  shows "hex_decode_from m hex n out pos i = (to_int (pos + length xs), store m (out + pos) xs)"
  using assms
proof (induction xs arbitrary: m pos i)
  case Nil
  then have "n - i = 0" by (metis length_hex_enc length_load list.size(3) mult_0_right)
  then show ?case using Nil.prems(3) by (simp add: hex_decode_from.simps)
next
  case (Cons b xs)
  have "n - i = 2 * length (b # xs)" using Cons.prems(1) by (metis length_hex_enc length_load)
  then have n: "n - i = Suc (Suc (n - (i + 2)))" "i < n" "i + 2 \<le> n" by auto
  have "hex_enc (b # xs) = hex_digit (drop_bit 4 b) # hex_digit (b AND 0x0F) # hex_enc xs" by (simp add: hex_enc_def)
  then have ld: "m (hex + i) = hex_digit (drop_bit 4 b)" "m (hex + i + 1) = hex_digit (b AND 0x0F)"
    "load m (hex + (i + 2)) (n - (i + 2)) = hex_enc xs"
    using Cons.prems(1) unfolding n(1) by (simp_all add: load_Suc)
  let ?m = "m(out + pos := b)"
  have "load ?m (hex + (i + 2)) (n - (i + 2)) = hex_enc xs"
    unfolding ld(3)[symmetric]
  proof (rule load_cong)
    fix a assume "hex + (i + 2) \<le> a" "a < hex + (i + 2) + (n - (i + 2))"
    then have "a \<in> {hex..<hex + n}" using n by auto
    then have "a \<notin> {out..<out + pos + length (b # xs)}" using Cons.prems(2) by blast
    then show "?m a = m a" by auto
  qed
  from Cons.IH[OF this _ n(3), of "pos + 1"] Cons.prems(2)
  have IH: "hex_decode_from ?m hex n out (pos + 1) (i + 2) = (to_int (pos + 1 + length xs), store ?m (out + pos + 1) xs)"
    by (simp del: fun_upd_apply)
  have v: "hex_value (m (hex + i)) = uint (drop_bit 4 b)" "hex_value (m (hex + i + 1)) = uint (b AND 0x0F)"
    unfolding ld by (rule hex_value_digit nibble_small)+
  have "hex_decode_from m hex n out pos i = hex_decode_from ?m hex n out (pos + 1) (i + 2)"
    by (subst hex_decode_from.simps) (simp only: v n Let_def nibbles word_of_int_uint, simp)
  then show ?case using IH by (simp add: store_Cons)
qed


lemma hex_roundtrip:
  assumes "data \<noteq> 0" "out \<noteq> 0" "dst \<noteq> 0" "len < 2 ^ 30" "2 * len < out_size" "len \<le> dst_size"
    "{data..<data + len} \<inter> {out..<out + 2 * len} = {}" "{out..out + 2 * len} \<inter> {dst..<dst + len} = {}"
  shows "\<exists>m1. hex_encode m data len out out_size = (int (2 * len), m1) \<and>
    (\<exists>m2. hex_decode m1 out (2 * len) dst dst_size = (int len, m2) \<and> load m2 dst len = load m data len)"
proof -
  let ?xs = "load m data len"
  define m1 where "m1 = (store m out (hex_enc ?xs))(out + 2 * len := 0)"
  have e: "hex_encode m data len out out_size = (int (2 * len), m1)"
    using assms(1,2,4,5) hex_encode_loop[OF assms(7), of len m]
    by (simp add: hex_encode_def m1_def to_int_small)
  have "load m1 out (2 * len) = load (store m out (hex_enc ?xs)) out (2 * len)"
    unfolding m1_def by (rule load_cong) simp
  then have ld: "load m1 (out + 0) (2 * len - 0) = hex_enc ?xs"
    using load_store[of m out "hex_enc ?xs"] by simp
  have "{out..<out + 2 * len} \<subseteq> {out..out + 2 * len}" by auto
  with assms(8) have "{out..<out + 2 * len} \<inter> {dst..<dst + len} = {}" by blast
  then have "hex_decode m1 out (2 * len) dst dst_size = (int len, store m1 dst ?xs)"
    using hex_decode_loop[OF ld, of dst 0] assms(2-4,6) by (simp add: hex_decode_def to_int_small)
  moreover have "load (store m1 dst ?xs) dst len = ?xs" using load_store[of m1 dst ?xs] by simp
  ultimately show ?thesis using e by blast
qed

end
