(* ===== verification/Gos_String.thy ===== *)
theory Gos_String
  imports Gos_Memory
begin

text \<open>
  C strings over flat memory: \<^verbatim>\<open>lib/string.c\<close>, \<^verbatim>\<open>lib/strrchr.c\<close>, \<^verbatim>\<open>lib/strspn.c\<close>, \<^verbatim>\<open>lib/strstr.c\<close>,
  \<^verbatim>\<open>lib/ctype.h\<close> and \<^verbatim>\<open>lib/stdlib.c\<close>. A loop that runs to the terminating NUL need not end, so these
  are partial functions; \<open>None\<close> is not returning. A \<^verbatim>\<open>char\<close> is its byte: every comparison of the
  source is with a constant below 128, so signedness does not matter for them.
\<close>

section \<open>\<^verbatim>\<open>lib/string.c\<close>\<close>

partial_function (option) strlen_from :: "mem \<Rightarrow> nat \<Rightarrow> nat \<Rightarrow> nat option" where
  "strlen_from m s len = (if m (s + len) \<noteq> 0 then strlen_from m s (len + 1) else Some len)"

definition strlen :: "mem \<Rightarrow> nat \<Rightarrow> nat option" where
  "strlen m s = strlen_from m s 0"

partial_function (option) strcmp :: "mem \<Rightarrow> nat \<Rightarrow> nat \<Rightarrow> int option" where
  "strcmp m s1 s2 =
     (if m s1 \<noteq> 0 \<and> m s1 = m s2 then strcmp m (s1 + 1) (s2 + 1)
      else Some (uint (m s1) - uint (m s2)))"

fun strncmp :: "mem \<Rightarrow> nat \<Rightarrow> nat \<Rightarrow> nat \<Rightarrow> int" where
  "strncmp m s1 s2 0 = 0"
| "strncmp m s1 s2 (Suc n) =
     (if m s1 \<noteq> 0 \<and> m s1 = m s2 then strncmp m (s1 + 1) (s2 + 1) n
      else uint (m s1) - uint (m s2))"

partial_function (option) strcpy :: "mem \<Rightarrow> nat \<Rightarrow> nat \<Rightarrow> mem option" where
  "strcpy m d src =
     (let m' = m(d := m src) in if m src \<noteq> 0 then strcpy m' (d + 1) (src + 1) else Some m')"

text \<open>The two loops of \<^verbatim>\<open>strncpy\<close>; the first ends at \<^verbatim>\<open>n\<close> or at the NUL of \<^verbatim>\<open>src\<close>.\<close>

function strncpy_copy :: "mem \<Rightarrow> nat \<Rightarrow> nat \<Rightarrow> nat \<Rightarrow> nat \<Rightarrow> nat \<times> mem" where
  "strncpy_copy m dest src n i =
     (if i < n \<and> m (src + i) \<noteq> 0 then strncpy_copy (m(dest + i := m (src + i))) dest src n (i + 1)
      else (i, m))"
  by pat_completeness auto
termination by (relation "measure (\<lambda>(m, dest, src, n, i). n - i)") auto

definition strncpy :: "mem \<Rightarrow> nat \<Rightarrow> nat \<Rightarrow> nat \<Rightarrow> mem" where
  "strncpy m dest src n =
     (case strncpy_copy m dest src n 0 of (i, m) \<Rightarrow> fold (\<lambda>j m. m(dest + j := 0)) [i..<n] m)"

definition strcat :: "mem \<Rightarrow> nat \<Rightarrow> nat \<Rightarrow> mem option" where
  "strcat m dest src = Option.bind (strlen m dest) (\<lambda>n. strcpy m (dest + n) src)"

text \<open>Pointer results, 0 for \<^verbatim>\<open>NULL\<close>.\<close>

partial_function (option) strchr :: "mem \<Rightarrow> nat \<Rightarrow> u8 \<Rightarrow> nat option" where
  "strchr m s c = (if m s \<noteq> 0 then (if m s = c then Some s else strchr m (s + 1) c) else Some 0)"

section \<open>\<^verbatim>\<open>strrchr.c\<close>, \<^verbatim>\<open>strspn.c\<close>, \<^verbatim>\<open>strstr.c\<close>\<close>

partial_function (option) strrchr_from :: "mem \<Rightarrow> nat \<Rightarrow> u8 \<Rightarrow> nat \<Rightarrow> nat option" where
  "strrchr_from m p c lst =
     (if m p \<noteq> 0 then strrchr_from m (p + 1) c (if m p = c then p else lst) else Some lst)"

definition strrchr :: "mem \<Rightarrow> nat \<Rightarrow> u8 \<Rightarrow> nat option" where
  "strrchr m s c =
     (if s = 0 then Some 0
      else Option.bind (strrchr_from m s c 0) (\<lambda>lst.
        if c = 0 then Option.bind (strlen m s) (\<lambda>n. Some (s + n)) else Some lst))"

partial_function (option) in_set :: "mem \<Rightarrow> u8 \<Rightarrow> nat \<Rightarrow> bool option" where
  "in_set m c p = (if m p \<noteq> 0 then (if m p = c then Some True else in_set m c (p + 1)) else Some False)"

partial_function (option) strspn_from :: "mem \<Rightarrow> nat \<Rightarrow> nat \<Rightarrow> nat \<Rightarrow> nat option" where
  "strspn_from m p accept count =
     (if m p \<noteq> 0
      then Option.bind (in_set m (m p) accept) (\<lambda>b. if b then strspn_from m (p + 1) accept (count + 1) else Some count)
      else Some count)"

definition strspn :: "mem \<Rightarrow> nat \<Rightarrow> nat \<Rightarrow> nat option" where
  "strspn m s accept = strspn_from m s accept 0"

partial_function (option) strcspn_from :: "mem \<Rightarrow> nat \<Rightarrow> nat \<Rightarrow> nat \<Rightarrow> nat option" where
  "strcspn_from m p reject count =
     (if m p \<noteq> 0
      then Option.bind (in_set m (m p) reject) (\<lambda>b. if \<not> b then strcspn_from m (p + 1) reject (count + 1) else Some count)
      else Some count)"

definition strcspn :: "mem \<Rightarrow> nat \<Rightarrow> nat \<Rightarrow> nat option" where
  "strcspn m s reject = strcspn_from m s reject 0"

partial_function (option) strstr_from :: "mem \<Rightarrow> nat \<Rightarrow> nat \<Rightarrow> nat \<Rightarrow> nat option" where
  "strstr_from m p needle needle_len =
     (if m p \<noteq> 0
      then (if strncmp m p needle needle_len = 0 then Some p else strstr_from m (p + 1) needle needle_len)
      else Some 0)"

definition strstr :: "mem \<Rightarrow> nat \<Rightarrow> nat \<Rightarrow> nat option" where
  "strstr m haystack needle =
     (if m needle = 0 then Some haystack
      else if haystack = 0 then Some 0
      else Option.bind (strlen m needle) (\<lambda>needle_len. strstr_from m haystack needle needle_len))"

section \<open>\<^verbatim>\<open>lib/ctype.h\<close>\<close>

definition isspace :: "u8 \<Rightarrow> bool" where
  "isspace c = (c = 0x20 \<or> c = 0x09 \<or> c = 0x0A \<or> c = 0x0D \<or> c = 0x0C \<or> c = 0x0B)"

definition isdigit :: "u8 \<Rightarrow> bool" where
  "isdigit c = (0x30 \<le> c \<and> c \<le> 0x39)"

definition isalpha :: "u8 \<Rightarrow> bool" where
  "isalpha c = (0x61 \<le> c \<and> c \<le> 0x7A \<or> 0x41 \<le> c \<and> c \<le> 0x5A)"

definition isalnum :: "u8 \<Rightarrow> bool" where
  "isalnum c = (isalpha c \<or> isdigit c)"

definition isxdigit :: "u8 \<Rightarrow> bool" where
  "isxdigit c = (isdigit c \<or> 0x61 \<le> c \<and> c \<le> 0x66 \<or> 0x41 \<le> c \<and> c \<le> 0x46)"

definition isupper :: "u8 \<Rightarrow> bool" where
  "isupper c = (0x41 \<le> c \<and> c \<le> 0x5A)"

definition islower :: "u8 \<Rightarrow> bool" where
  "islower c = (0x61 \<le> c \<and> c \<le> 0x7A)"

definition toupper :: "u8 \<Rightarrow> u8" where
  "toupper c = (if islower c then c - 0x61 + 0x41 else c)"

definition tolower :: "u8 \<Rightarrow> u8" where
  "tolower c = (if isupper c then c - 0x41 + 0x61 else c)"

definition isprint :: "u8 \<Rightarrow> bool" where
  "isprint c = (0x20 \<le> c \<and> c \<le> 0x7E)"

definition isgraph :: "u8 \<Rightarrow> bool" where
  "isgraph c = (0x21 \<le> c \<and> c \<le> 0x7E)"

definition iscntrl :: "u8 \<Rightarrow> bool" where
  "iscntrl c = (c \<le> 0x1F \<or> c = 0x7F)"

definition ispunct :: "u8 \<Rightarrow> bool" where
  "ispunct c = (isgraph c \<and> \<not> isalnum c)"

definition isblank :: "u8 \<Rightarrow> bool" where
  "isblank c = (c = 0x20 \<or> c = 0x09)"

section \<open>\<^verbatim>\<open>lib/stdlib.c\<close>\<close>

text \<open>
  The three readers share their text and differ in the width of \<^verbatim>\<open>val\<close>; the value is
  kept in a word of that width, as the compiled code does.
\<close>

partial_function (option) skip_blanks :: "mem \<Rightarrow> nat \<Rightarrow> nat option" where
  "skip_blanks m s = (if m s = 0x20 \<or> m s = 0x09 then skip_blanks m (s + 1) else Some s)"

partial_function (option) read_digits :: "mem \<Rightarrow> nat \<Rightarrow> 'a::len word \<Rightarrow> 'a word option" where
  "read_digits m s val =
     (if 0x30 \<le> m s \<and> m s \<le> 0x39 then read_digits m (s + 1) (val * 10 + ucast (m s - 0x30)) else Some val)"

definition ato :: "mem \<Rightarrow> nat \<Rightarrow> 'a::len word option" where
  "ato m s =
     Option.bind (skip_blanks m s) (\<lambda>s.
       let neg = (m s = 0x2D);
           s = (if m s = 0x2D \<or> m s = 0x2B then s + 1 else s)
       in Option.bind (read_digits m s 0) (\<lambda>val. Some (if neg then - val else val)))"

definition atoi :: "mem \<Rightarrow> nat \<Rightarrow> 32 word option" where
  "atoi m s = ato m s"

definition atol :: "mem \<Rightarrow> nat \<Rightarrow> 64 word option" where
  "atol m s = ato m s"

definition atoll :: "mem \<Rightarrow> nat \<Rightarrow> 64 word option" where
  "atoll m s = ato m s"

declare strncpy_copy.simps [simp del]

section \<open>Strings in memory\<close>

text \<open>\<open>cstr m p s\<close>: the NUL-terminated string \<open>s\<close> stands at \<open>p\<close>.\<close>

fun cstr :: "mem \<Rightarrow> nat \<Rightarrow> u8 list \<Rightarrow> bool" where
  "cstr m p [] = (m p = 0)"
| "cstr m p (c # s) = (m p = c \<and> c \<noteq> 0 \<and> cstr m (p + 1) s)"

lemma cstr_nth: "cstr m p s \<longleftrightarrow> (\<forall>i < length s. m (p + i) = s ! i \<and> s ! i \<noteq> 0) \<and> m (p + length s) = 0"
  by (induction s arbitrary: p) (auto simp: All_less_Suc2)

lemma cstr_cong: "(\<And>i. i \<le> length s \<Longrightarrow> m (p + i) = m' (p + i)) \<Longrightarrow> cstr m p s \<longleftrightarrow> cstr m' p s"
  by (simp add: cstr_nth)

lemma strlen_cstr: "cstr m p s \<Longrightarrow> strlen m p = Some (length s)"
proof -
  have "strlen_from m p k = Some (k + length s)" if "cstr m (p + k) s" for k
    using that
  proof (induction s arbitrary: k)
    case Nil then show ?case by (simp add: strlen_from.simps)
  next
    case (Cons c s)
    then have "strlen_from m p (k + 1) = Some (k + 1 + length s)" by (intro Cons.IH) (simp add: add.assoc)
    then show ?case using Cons.prems by (simp add: strlen_from.simps[of m p k])
  qed
  from this[of 0] show "cstr m p s \<Longrightarrow> strlen m p = Some (length s)" by (simp add: strlen_def)
qed

text \<open>The order \<^verbatim>\<open>strcmp\<close> decides: the first difference, a proper prefix being smaller.\<close>

fun str_less :: "u8 list \<Rightarrow> u8 list \<Rightarrow> bool" where
  "str_less xs [] = False"
| "str_less [] (y # ys) = True"
| "str_less (x # xs) (y # ys) = (if x = y then str_less xs ys else x < y)"


lemma str_less_irrefl: "\<not> str_less xs xs"
  by (induction xs) auto

lemma strcmp_cstr:
  "cstr m a s \<Longrightarrow> cstr m b t \<Longrightarrow>
   \<exists>r. strcmp m a b = Some r \<and> (r = 0 \<longleftrightarrow> s = t) \<and> (r < 0 \<longleftrightarrow> str_less s t) \<and> \<bar>r\<bar> \<le> 255"
proof (induction s t arbitrary: a b rule: str_less.induct)
  case (1 xs)
  then show ?case
    using uint_range_size[of "m a"] by (cases xs) (auto simp: strcmp.simps[of m a b] word_size uint_0_iff)
next
  case (2 y ys)
  then show ?case
    using uint_range_size[of "m b"] by (auto simp: strcmp.simps[of m a b] word_size word_neq_0_conv word_less_def)
next
  case (3 x xs y ys)
  show ?case
  proof (cases "x = y")
    case True
    then show ?thesis using 3 by (auto simp: strcmp.simps[of m a b])
  next
    case False
    have "uint x < 256" "uint y < 256" "0 \<le> uint x" "0 \<le> uint y" "uint x \<noteq> uint y"
      using uint_range_size[of x] uint_range_size[of y] False by (auto simp: word_size word_uint_eq_iff)
    then have "\<bar>uint x - uint y\<bar> \<le> 255" "uint x - uint y \<noteq> 0" by linarith+
    moreover have "strcmp m a b = Some (uint x - uint y)"
      using 3 False by (auto simp: strcmp.simps[of m a b])
    ultimately show ?thesis using False by (simp add: word_less_def)
  qed
qed

lemma strncmp_cstr:
  "cstr m a s \<Longrightarrow> cstr m b t \<Longrightarrow> strncmp m a b n = 0 \<longleftrightarrow> take n s = take n t"
proof (induction n arbitrary: a b s t)
  case 0
  then show ?case by simp
next
  case (Suc n)
  have d: "uint (m a) - uint (m b) = 0 \<longleftrightarrow> m a = m b" by (simp add: word_uint_eq_iff)
  have tl: "cstr m (a + 1) (tl s)" if "s \<noteq> []" using Suc.prems(1) that by (cases s) auto
  have tl': "cstr m (b + 1) (tl t)" if "t \<noteq> []" using Suc.prems(2) that by (cases t) auto
  have hd: "m a = (if s = [] then 0 else hd s)" "m b = (if t = [] then 0 else hd t)"
    "s \<noteq> [] \<longrightarrow> hd s \<noteq> 0" "t \<noteq> [] \<longrightarrow> hd t \<noteq> 0"
    using Suc.prems by (cases s; cases t; simp)+
  show ?case
  proof (cases "s \<noteq> [] \<and> t \<noteq> [] \<and> hd s = hd t")
    case True
    then show ?thesis using hd Suc.IH[OF tl tl'] by (simp add: take_Suc)
  next
    case False
    then have "strncmp m a b (Suc n) = 0 \<longleftrightarrow> m a = m b" using hd d by (cases "m a = m b"; cases "s = []"; cases "t = []") simp_all
    then show ?thesis using False hd by (auto simp: take_Suc)
  qed
qed

lemma strcpy_cstr:
  assumes "cstr m src s" "{d..d + length s} \<inter> {src..src + length s} = {}"
  shows "\<exists>m'. strcpy m d src = Some m' \<and> cstr m' d s \<and> (\<forall>x. x \<notin> {d..d + length s} \<longrightarrow> m' x = m x)"
  using assms
proof (induction s arbitrary: m d src)
  case Nil
  then show ?case by (simp add: strcpy.simps)
next
  case (Cons c s)
  let ?m = "m(d := c)"
  have c: "m src = c" "c \<noteq> 0" "cstr m (src + 1) s" using Cons.prems(1) by auto
  have dis: "{d + 1..d + 1 + length s} \<inter> {src + 1..src + 1 + length s} = {}" "d \<notin> {src + 1..src + 1 + length s}"
    using Cons.prems(2) by (auto simp: disjoint_iff Ball_def)
  have "cstr ?m (src + 1) s" using c(3) dis(2) by (subst cstr_cong[of _ ?m _ m]) auto
  from Cons.IH[OF this dis(1)] obtain m' where m': "strcpy ?m (d + 1) (src + 1) = Some m'"
    "cstr m' (d + 1) s" "\<forall>x. x \<notin> {d + 1..d + 1 + length s} \<longrightarrow> m' x = ?m x" by blast
  then have "m' d = c" by simp
  with m' c show ?case by (auto simp: strcpy.simps[of m d src] Let_def)
qed

lemma strncpy_copy_cstr:
  assumes "cstr m src s" "{d..<d + n} \<inter> {src..src + length s} = {}" "i \<le> min n (length s)"
  shows "fst (strncpy_copy m d src n i) = min n (length s)
       \<and> snd (strncpy_copy m d src n i) = (\<lambda>x. if d + i \<le> x \<and> x < d + min n (length s) then s ! (x - d) else m x)"
  using assms
proof (induction m d src n i rule: strncpy_copy.induct)
  case (1 m d src n i)
  show ?case
  proof (cases "i < n \<and> m (src + i) \<noteq> 0")
    case True
    then have i: "i < n" "i < length s" using 1 by (cases "i = length s"; auto simp: cstr_nth)+
    then have mi: "m (src + i) = s ! i" using 1(2) by (auto simp: cstr_nth)
    let ?m = "m(d + i := m (src + i))"
    have "d + i \<in> {d..<d + n}" using i by simp
    then have "d + i \<notin> {src..src + length s}" using 1(3) by blast
    then have "cstr ?m src s" using 1(2) by (subst cstr_cong[of _ ?m _ m]) auto
    note IH0 = 1(1)[OF True this 1(3)]
    have IH: "fst (strncpy_copy ?m d src n (i + 1)) = min n (length s)"
      "snd (strncpy_copy ?m d src n (i + 1)) = (\<lambda>x. if d + (i + 1) \<le> x \<and> x < d + min n (length s) then s ! (x - d) else ?m x)"
      using IH0 i by (simp_all del: fun_upd_apply)
    have "strncpy_copy m d src n i = strncpy_copy ?m d src n (i + 1)"
      using True by (subst strncpy_copy.simps) simp
    moreover have "(if d + (i + 1) \<le> x \<and> x < d + min n (length s) then s ! (x - d) else ?m x)
                 = (if d + i \<le> x \<and> x < d + min n (length s) then s ! (x - d) else m x)" for x
      using i mi by (cases "x = d + i") auto
    ultimately show ?thesis using IH by simp
  next
    case False
    have "m (src + i) \<noteq> 0" if "i < length s" using 1(2) that by (auto simp: cstr_nth)
    then have "i = min n (length s)" using False 1(4) by (cases "i < length s") auto
    moreover have "strncpy_copy m d src n i = (i, m)" using False by (subst strncpy_copy.simps) auto
    ultimately show ?thesis by (simp add: fun_eq_iff) linarith
  qed
qed

lemma fold_zero: "fold (\<lambda>j m. m(d + j := 0)) [i..<n] m = (\<lambda>x. if d + i \<le> x \<and> x < d + n then 0 else m x)"
  by (induction n) (auto simp: fun_eq_iff)

lemma strncpy_cstr:
  assumes "cstr m src s" "{d..<d + n} \<inter> {src..src + length s} = {}"
  shows "strncpy m d src n =
    (\<lambda>x. if d \<le> x \<and> x < d + n then (if x - d < length s then s ! (x - d) else 0) else m x)"
  using strncpy_copy_cstr[OF assms, of 0]
  by (auto simp: strncpy_def fold_zero fun_eq_iff split: prod.split)

lemma strncpy_terminated:
  assumes "cstr m src s" "{d..<d + n} \<inter> {src..src + length s} = {}" "length s < n"
  shows "cstr (strncpy m d src n) d s"
  using assms(1,3) by (auto simp: strncpy_cstr[OF assms(1,2)] cstr_nth)

lemma strchr_cstr:
  "cstr m p s \<Longrightarrow> p \<noteq> 0 \<Longrightarrow> strchr m p c =
     Some (if c \<in> set s then p + length (takeWhile (\<lambda>x. x \<noteq> c) s) else 0)"
  by (induction s arbitrary: p) (auto simp: strchr.simps)

lemma strrchr_cstr:
  "cstr m p s \<Longrightarrow> p \<noteq> 0 \<Longrightarrow> c \<noteq> 0 \<Longrightarrow> strrchr m p c =
     Some (if c \<in> set s then p + length s - 1 - length (takeWhile (\<lambda>x. x \<noteq> c) (rev s)) else 0)"
proof -
  have "strrchr_from m p c l = Some (if c \<in> set s then p + length s - 1 - length (takeWhile (\<lambda>x. x \<noteq> c) (rev s)) else l)"
    if "cstr m p s" for l p
    using that by (induction s arbitrary: p l) (auto simp: strrchr_from.simps takeWhile_tail takeWhile_append)
  then show "cstr m p s \<Longrightarrow> p \<noteq> 0 \<Longrightarrow> c \<noteq> 0 \<Longrightarrow> ?thesis" by (simp add: strrchr_def)
qed

lemma in_set_cstr: "cstr m p s \<Longrightarrow> in_set m c p = Some (c \<in> set s)"
  by (induction s arbitrary: p) (auto simp: in_set.simps)

lemma strspn_cstr:
  assumes a: "cstr m a t"
  shows "cstr m p s \<Longrightarrow> strspn m p a = Some (length (takeWhile (\<lambda>c. c \<in> set t) s))"
proof -
  have "strspn_from m p a k = Some (k + length (takeWhile (\<lambda>c. c \<in> set t) s))" if "cstr m p s" for p k
    using that by (induction s arbitrary: p k) (auto simp: strspn_from.simps in_set_cstr[OF a])
  from this[of p 0] show "cstr m p s \<Longrightarrow> ?thesis" by (simp add: strspn_def)
qed

lemma strcspn_cstr:
  assumes a: "cstr m a t"
  shows "cstr m p s \<Longrightarrow> strcspn m p a = Some (length (takeWhile (\<lambda>c. c \<notin> set t) s))"
proof -
  have "strcspn_from m p a k = Some (k + length (takeWhile (\<lambda>c. c \<notin> set t) s))" if "cstr m p s" for p k
    using that by (induction s arbitrary: p k) (auto simp: strcspn_from.simps in_set_cstr[OF a])
  from this[of p 0] show "cstr m p s \<Longrightarrow> ?thesis" by (simp add: strcspn_def)
qed

text \<open>The first position at which \<open>t\<close> occurs in \<open>s\<close>.\<close>

fun first_occ :: "u8 list \<Rightarrow> u8 list \<Rightarrow> nat option" where
  "first_occ [] t = (if t = [] then Some 0 else None)"
| "first_occ (c # s) t = (if take (length t) (c # s) = t then Some 0 else map_option Suc (first_occ s t))"

lemma strstr_cstr:
  assumes t: "cstr m n t"
  shows "cstr m h s \<Longrightarrow> h \<noteq> 0 \<Longrightarrow>
     strstr m h n = Some (case first_occ s t of Some i \<Rightarrow> h + i | None \<Rightarrow> 0)"
proof -
  have "strstr_from m h n (length t) = Some (case first_occ s t of Some i \<Rightarrow> h + i | None \<Rightarrow> 0)"
    if "cstr m h s" "t \<noteq> []" for h
    using that
  proof (induction s arbitrary: h)
    case Nil
    then show ?case by (simp add: strstr_from.simps)
  next
    case (Cons c s)
    have "strncmp m h n (length t) = 0 \<longleftrightarrow> take (length t) (c # s) = t"
      using strncmp_cstr[OF Cons.prems(1) t, of "length t"] by simp
    then show ?case using Cons by (auto simp: strstr_from.simps[of m h] split: option.split)
  qed
  moreover have "m n = 0 \<longleftrightarrow> t = []" using t by (cases t) auto
  moreover have "first_occ s [] = Some 0" by (cases s) auto
  ultimately show "cstr m h s \<Longrightarrow> h \<noteq> 0 \<Longrightarrow> ?thesis" using strlen_cstr[OF t] by (auto simp: strstr_def)
qed

lemma first_occ_Some:
  "first_occ s t = Some i \<longleftrightarrow>
     (\<exists>u v. s = u @ t @ v \<and> length u = i) \<and> (\<forall>j < i. take (length t) (drop j s) \<noteq> t)"
proof (induction s arbitrary: i)
  case Nil
  then show ?case by auto
next
  case (Cons c s)
  show ?case
  proof (cases "take (length t) (c # s) = t")
    case True
    then have ex: "\<exists>u v. c # s = u @ t @ v \<and> length u = 0"
      by (metis append_Nil append_take_drop_id list.size(3))
    show ?thesis
    proof (cases i)
      case 0
      then show ?thesis using ex True by simp
    next
      case (Suc k)
      then have "\<not> (\<forall>j < i. take (length t) (drop j (c # s)) \<noteq> t)" using True by fastforce
      moreover have "first_occ (c # s) t \<noteq> Some i" using True Suc by simp
      ultimately show ?thesis by blast
    qed
  next
    case False
    have *: "(\<exists>u v. c # s = u @ t @ v \<and> length u = Suc k) \<longleftrightarrow> (\<exists>u v. s = u @ t @ v \<and> length u = k)" for k
    proof
      assume "\<exists>u v. c # s = u @ t @ v \<and> length u = Suc k"
      then obtain u v where u: "c # s = u @ t @ v" "length u = Suc k" by blast
      then obtain d u' where "u = d # u'" by (cases u) auto
      with u show "\<exists>u v. s = u @ t @ v \<and> length u = k" by auto
    next
      assume "\<exists>u v. s = u @ t @ v \<and> length u = k"
      then obtain u v where "s = u @ t @ v" "length u = k" by blast
      then have "c # s = (c # u) @ t @ v \<and> length (c # u) = Suc k" by simp
      then show "\<exists>u v. c # s = u @ t @ v \<and> length u = Suc k" by blast
    qed
    show ?thesis
    proof (cases i)
      case 0
      then have "(\<exists>u v. c # s = u @ t @ v \<and> length u = i) \<Longrightarrow> take (length t) (c # s) = t" by fastforce
      then have "\<not> (\<exists>u v. c # s = u @ t @ v \<and> length u = i)" using False by blast
      moreover have "first_occ (c # s) t \<noteq> Some i" using 0 False by auto
      ultimately show ?thesis by blast
    next
      case (Suc k)
      have "first_occ (c # s) t = Some i \<longleftrightarrow> first_occ s t = Some k" using False Suc by auto
      also have "\<dots> \<longleftrightarrow> (\<exists>u v. s = u @ t @ v \<and> length u = k) \<and> (\<forall>j < k. take (length t) (drop j s) \<noteq> t)"
        by (rule Cons.IH)
      finally show ?thesis unfolding Suc * All_less_Suc2 using False by simp
    qed
  qed
qed

lemma cstr_store: "0 \<notin> set s \<Longrightarrow> cstr (store m p (s @ [0])) p s"
  by (auto simp: cstr_nth store_def nth_append in_set_conv_nth)

lemma cstr_store_other: "q + length s < p \<or> p + length xs \<le> q \<Longrightarrow> cstr (store m p xs) q s = cstr m q s"
  by (rule cstr_cong) (auto simp: store_def)

text \<open>Two strings in one memory, for the concrete instances.\<close>

definition two_strings :: "u8 list \<Rightarrow> u8 list \<Rightarrow> mem" where
  "two_strings s t = store (store (\<lambda>_. 0xFF) 16 (s @ [0])) 1024 (t @ [0])"

lemma two_strings: "0 \<notin> set s \<Longrightarrow> 0 \<notin> set t \<Longrightarrow> length s < 1000 \<Longrightarrow>
    cstr (two_strings s t) 16 s \<and> cstr (two_strings s t) 1024 t"
  by (simp add: two_strings_def cstr_store cstr_store_other)

text \<open>
  C39 (strstr_first): on terminated strings \<^verbatim>\<open>strstr\<close> returns, with the address of the first occurrence
  of the needle, and with \<^verbatim>\<open>NULL\<close> exactly when the needle occurs nowhere.
\<close>

theorem strstr_first:
  assumes "cstr m h s" "cstr m n t" "h \<noteq> 0"
  shows "\<exists>p. strstr m h n = Some p \<and> (p = 0 \<longleftrightarrow> (\<forall>u v. s \<noteq> u @ t @ v)) \<and>
    (p \<noteq> 0 \<longrightarrow> (\<exists>u v. s = u @ t @ v \<and> p = h + length u \<and> (\<forall>j < length u. take (length t) (drop j s) \<noteq> t)))"
proof -
  note r = strstr_cstr[OF assms(2,1,3)]
  show ?thesis
  proof (cases "first_occ s t")
    case None
    have "s \<noteq> u @ t @ v" for u v
    proof
      assume s: "s = u @ t @ v"
      define j where "j = (LEAST j. take (length t) (drop j s) = t)"
      have ex: "take (length t) (drop (length u) s) = t" by (simp add: s)
      have j: "take (length t) (drop j s) = t" unfolding j_def by (rule LeastI[of _ "length u"]) (rule ex)
      have jl: "j \<le> length u" unfolding j_def by (rule Least_le) (rule ex)
      have "\<forall>i < j. take (length t) (drop i s) \<noteq> t" unfolding j_def using not_less_Least by blast
      moreover have "s = take j s @ t @ drop (length t) (drop j s)" using j by (metis append_take_drop_id)
      moreover have "length (take j s) = j" using jl by (simp add: s)
      ultimately have "first_occ s t = Some j" unfolding first_occ_Some by blast
      then show False using None by simp
    qed
    then show ?thesis using r None by auto
  next
    case (Some i)
    have st: "strstr m h n = Some (h + i)" using r Some by simp
    have "(\<exists>u v. s = u @ t @ v \<and> length u = i) \<and> (\<forall>j < i. take (length t) (drop j s) \<noteq> t)"
      using Some unfolding first_occ_Some .
    then show ?thesis using st assms(3) by (intro exI[of _ "h + i"] conjI) (simp_all, blast+)
  qed
qed

theorem strstr_first_witness:
  "strstr (two_strings (bytes ''console'') (bytes ''sol'')) 16 1024 = Some 19"
proof -
  let ?m = "two_strings (bytes ''console'') (bytes ''sol'')"
  have c: "cstr ?m 16 (bytes ''console'') \<and> cstr ?m 1024 (bytes ''sol'')"
    by (rule two_strings) (simp_all add: bytes_def)
  then obtain p where p: "strstr ?m 16 1024 = Some p" "p = 0 \<longleftrightarrow> (\<forall>u v. bytes ''console'' \<noteq> u @ bytes ''sol'' @ v)"
    using strstr_first[of ?m 16 "bytes ''console''" 1024 "bytes ''sol''"] by (metis zero_neq_numeral)
  have "bytes ''console'' = bytes ''con'' @ bytes ''sol'' @ bytes ''e''" by (simp add: bytes_def)
  then have "p \<noteq> 0" using p(2) by blast
  moreover have "strstr ?m 16 1024 = Some (case first_occ (bytes ''console'') (bytes ''sol'') of Some i \<Rightarrow> 16 + i | None \<Rightarrow> 0)"
    using strstr_cstr c by simp
  ultimately show ?thesis using p(1) by (simp add: bytes_def)
qed

end
