(* ===== verification/Gos_Number.thy ===== *)
theory Gos_Number
  imports Gos_String
begin

text \<open>
  Numbers and text: \<^verbatim>\<open>lib/itoa.c\<close> and \<^verbatim>\<open>lib/strtol.c\<close>. The printers are shown to write the digits of
  their value, and \<^verbatim>\<open>strtol\<close> to read back what \<^verbatim>\<open>lltoa\<close> prints in every base from 2 to 36.
  A value is kept in the 64-bit word of \<^verbatim>\<open>long long\<close>; \<^verbatim>\<open>base\<close> is the C \<^verbatim>\<open>int\<close>.
\<close>

section \<open>\<^verbatim>\<open>lib/itoa.c\<close>\<close>

definition reverse_step :: "nat \<Rightarrow> nat \<Rightarrow> nat \<Rightarrow> mem \<Rightarrow> mem" where
  "reverse_step str len i m =
     (let tmp = m (str + i) in (m(str + i := m (str + (len - 1 - i))))(str + (len - 1 - i) := tmp))"

definition reverse :: "mem \<Rightarrow> nat \<Rightarrow> nat \<Rightarrow> mem" where
  "reverse m str len = fold (reverse_step str len) [0..<len div 2] m"

definition digit_char :: "nat \<Rightarrow> u8" where
  "digit_char digit = (if digit < 10 then 0x30 + word_of_nat digit else 0x61 + word_of_nat digit - 10)"

text \<open>The loop that extracts digits; the caller has checked \<^verbatim>\<open>2 <= base\<close>, which makes it end.\<close>

function emit_digits :: "mem \<Rightarrow> nat \<Rightarrow> nat \<Rightarrow> nat \<Rightarrow> nat \<times> mem" where
  "emit_digits m ptr uval base =
     (if uval \<noteq> 0 \<and> 2 \<le> base
      then emit_digits (m(ptr := digit_char (uval mod base))) (ptr + 1) (uval div base) base
      else (ptr, m))"
  by pat_completeness auto
termination by (relation "measure (\<lambda>(m, ptr, uval, base). uval)") auto

definition int_to_str_internal :: "mem \<Rightarrow> u64 \<Rightarrow> nat \<Rightarrow> int \<Rightarrow> bool \<Rightarrow> mem" where
  "int_to_str_internal m val str base is_unsigned =
     (if base < 2 \<or> base > 36 then m(str := 0)
      else
        let negative = (\<not> is_unsigned \<and> sint val < 0);
            uval = unat (if negative then (- (val + 1)) + 1 else val);
            (ptr, m) = (if uval = 0 then (str + 1, m(str := 0x30)) else emit_digits m str uval (nat base));
            (ptr, m) = (if negative then (ptr + 1, m(ptr := 0x2D)) else (ptr, m));
            m = m(ptr := 0)
        in reverse m str (ptr - str))"

definition itoa :: "mem \<Rightarrow> u32 \<Rightarrow> nat \<Rightarrow> int \<Rightarrow> mem" where
  "itoa m val str base = int_to_str_internal m (scast val) str base False"

definition utoa :: "mem \<Rightarrow> u32 \<Rightarrow> nat \<Rightarrow> int \<Rightarrow> mem" where
  "utoa m val str base = int_to_str_internal m (ucast val) str base True"

definition lltoa :: "mem \<Rightarrow> u64 \<Rightarrow> nat \<Rightarrow> int \<Rightarrow> mem" where
  "lltoa m val str base = int_to_str_internal m val str base False"

definition ulltoa :: "mem \<Rightarrow> u64 \<Rightarrow> nat \<Rightarrow> int \<Rightarrow> mem" where
  "ulltoa m val str base = int_to_str_internal m val str base True"

section \<open>\<^verbatim>\<open>lib/strtol.c\<close>\<close>

definition digit_value :: "u8 \<Rightarrow> int \<Rightarrow> int" where
  "digit_value c base =
     (let v = (if 0x30 \<le> c \<and> c \<le> 0x39 then uint c - 0x30
               else if 0x61 \<le> c \<and> c \<le> 0x7A then uint c - 0x61 + 10
               else if 0x41 \<le> c \<and> c \<le> 0x5A then uint c - 0x41 + 10
               else -1)
      in if 0 \<le> v \<and> v < base then v else -1)"

partial_function (option) skip_space :: "mem \<Rightarrow> nat \<Rightarrow> nat option" where
  "skip_space m str = (if isspace (m str) then skip_space m (str + 1) else Some str)"

partial_function (option) accumulate :: "mem \<Rightarrow> nat \<Rightarrow> int \<Rightarrow> u64 \<Rightarrow> (u64 \<times> nat) option" where
  "accumulate m str base result =
     (if m str \<noteq> 0
      then let digit = digit_value (m str) base in
           if digit < 0 then Some (result, str)
           else accumulate m (str + 1) base (result * word_of_int base + word_of_int digit)
      else Some (result, str))"

text \<open>\<^verbatim>\<open>base == 0\<close>: the prefix decides; the result is the base and the first digit's address.\<close>

definition detect_base :: "mem \<Rightarrow> nat \<Rightarrow> int \<times> nat" where
  "detect_base m str =
     (if m str = 0x30 \<and> (m (str + 1) = 0x78 \<or> m (str + 1) = 0x58) then (16, str + 2)
      else if m str = 0x30 then (8, str + 1)
      else (10, str))"

text \<open>The results are the value and what is stored in \<^verbatim>\<open>*endptr\<close> (nothing for a \<^verbatim>\<open>NULL\<close> string).\<close>

definition strtol :: "mem \<Rightarrow> nat \<Rightarrow> int \<Rightarrow> (u64 \<times> nat option) option" where
  "strtol m str base =
     (if str = 0 then Some (0, None)
      else Option.bind (skip_space m str) (\<lambda>str.
        let negative = (m str = 0x2D);
            str = (if m str = 0x2D \<or> m str = 0x2B then str + 1 else str);
            (base, str) =
              (if base = 0 then detect_base m str
               else if base = 16 \<and> m str = 0x30 \<and> (m (str + 1) = 0x78 \<or> m (str + 1) = 0x58) then (base, str + 2)
               else (base, str))
        in Option.bind (accumulate m str base 0) (\<lambda>(result, str).
             Some (if negative then - result else result, Some str))))"

definition strtoll :: "mem \<Rightarrow> nat \<Rightarrow> int \<Rightarrow> (u64 \<times> nat option) option" where
  "strtoll m str base = strtol m str base"

definition strtoul :: "mem \<Rightarrow> nat \<Rightarrow> int \<Rightarrow> (u64 \<times> nat option) option" where
  "strtoul m str base =
     (if str = 0 then Some (0, None)
      else Option.bind (skip_space m str) (\<lambda>str.
        let str = (if m str = 0x2B then str + 1 else str);
            (base, str) = (if base = 0 then detect_base m str else (base, str))
        in Option.bind (accumulate m str base 0) (\<lambda>(result, str). Some (result, Some str))))"

definition strtoull :: "mem \<Rightarrow> nat \<Rightarrow> int \<Rightarrow> (u64 \<times> nat option) option" where
  "strtoull m str base = strtoul m str base"

declare emit_digits.simps [simp del]

section \<open>What the printers write\<close>

lemma reverse_steps:
  "k \<le> len div 2 \<Longrightarrow> fold (reverse_step str len) [0..<k] m =
    (\<lambda>x. if str \<le> x \<and> x < str + len \<and> (x < str + k \<or> str + (len - k) \<le> x)
         then m (str + (len - 1 - (x - str))) else m x)"
proof (induction k)
  case 0
  then show ?case by (auto simp: fun_eq_iff)
next
  case (Suc k)
  let ?h = "\<lambda>k x. if str \<le> x \<and> x < str + len \<and> (x < str + k \<or> str + (len - k) \<le> x)
         then m (str + (len - 1 - (x - str))) else m x"
  have k: "k < len - 1 - k" "len - 1 - k < len" "k \<le> len div 2" using Suc.prems by auto
  have "fold (reverse_step str len) [0..<Suc k] m = reverse_step str len k (fold (reverse_step str len) [0..<k] m)"
    by simp
  also have "\<dots> = reverse_step str len k (?h k)" by (simp only: Suc.IH[OF k(3)])
  also have "\<dots> = ?h (Suc k)"
  proof
    fix x
    consider "x = str + k" | "x = str + (len - 1 - k)" | "x \<noteq> str + k" "x \<noteq> str + (len - 1 - k)" by blast
    then show "reverse_step str len k (?h k) x = ?h (Suc k) x"
      using k by cases (auto simp: reverse_step_def Let_def)
  qed
  finally show ?case .
qed

lemma reverse_spec:
  "reverse m str len = (\<lambda>x. if str \<le> x \<and> x < str + len then m (str + (len - 1 - (x - str))) else m x)"
proof
  fix x
  let ?P = "str \<le> x \<and> x < str + len" and ?y = "str + (len - 1 - (x - str))"
  have "?P \<Longrightarrow> \<not> (x < str + len div 2 \<or> str + (len - len div 2) \<le> x) \<Longrightarrow> ?y = x" by linarith
  then have "(if str \<le> x \<and> x < str + len \<and> (x < str + len div 2 \<or> str + (len - len div 2) \<le> x) then m ?y else m x)
      = (if ?P then m ?y else m x)" by metis
  then show "reverse m str len x = (if ?P then m ?y else m x)"
    unfolding reverse_def reverse_steps[OF order_refl] .
qed

lemma reverse_store: "reverse (store m str xs) str (length xs) = store m str (rev xs)"
  by (auto simp: reverse_spec store_def fun_eq_iff rev_nth)

text \<open>The digits of a number, least significant first, as the loop emits them.\<close>

function ndigits :: "nat \<Rightarrow> nat \<Rightarrow> nat list" where
  "ndigits base n = (if n \<noteq> 0 \<and> 2 \<le> base then n mod base # ndigits base (n div base) else [])"
  by pat_completeness auto
termination by (relation "measure snd") auto

declare ndigits.simps [simp del]

definition digits :: "nat \<Rightarrow> nat \<Rightarrow> u8 list" where
  "digits base n = map digit_char (ndigits base n)"

lemma emit_digits_spec: "emit_digits m ptr n base = (ptr + length (digits base n), store m ptr (digits base n))"
proof (induction m ptr n base rule: emit_digits.induct)
  case (1 m ptr n base)
  show ?case
  proof (cases "n \<noteq> 0 \<and> 2 \<le> base")
    case True
    then show ?thesis using 1[OF True]
      by (simp add: emit_digits.simps[of m ptr n base] digits_def ndigits.simps[of base n] store_Cons del: fun_upd_apply)
  next
    case False
    then show ?thesis by (subst emit_digits.simps) (auto simp: digits_def ndigits.simps[of base n])
  qed
qed

text \<open>The magnitude and the text of a value.\<close>

definition numeral_text :: "nat \<Rightarrow> nat \<Rightarrow> u8 list" where
  "numeral_text base n = (if n = 0 then [0x30] else rev (digits base n))"

definition magnitude :: "bool \<Rightarrow> u64 \<Rightarrow> nat" where
  "magnitude negative val = unat (if negative then - val else val)"

lemma int_to_str_internal_spec:
  assumes "2 \<le> base" "base \<le> 36"
  shows "int_to_str_internal m val str base u =
    (let neg = (\<not> u \<and> sint val < 0); t = numeral_text (nat base) (magnitude neg val)
     in store m str ((if neg then [0x2D] else []) @ t @ [0]))"
proof -
  define neg where "neg = (\<not> u \<and> sint val < 0)"
  have nb: "(base < 2 \<or> base > 36) = False" using assms by auto
  have mag: "unat (if neg then - (val + 1) + 1 else val) = magnitude neg val" by (simp add: magnitude_def)
  let ?d = "rev (numeral_text (nat base) (magnitude neg val))"
  let ?w = "?d @ (if neg then [0x2D] else [])"
  have first: "(if magnitude neg val = 0 then (str + 1, m(str := 0x30)) else emit_digits m str (magnitude neg val) (nat base))
      = (str + length ?d, store m str ?d)"
    by (simp add: emit_digits_spec numeral_text_def store_Cons)
  have zero: "store m str (?w @ [0]) = (store m str ?w)(str + length ?w := 0)"
    by (simp only: store_append store_Cons store_Nil)
  have rv: "reverse ((store m str ?w)(str + length ?w := 0)) str (length ?w)
          = (reverse (store m str ?w) str (length ?w))(str + length ?w := 0)"
    by (auto simp: reverse_spec fun_eq_iff)
  have "int_to_str_internal m val str base u = reverse ((store m str ?w)(str + length ?w := 0)) str (length ?w)"
    by (simp only: int_to_str_internal_def nb if_False Let_def neg_def[symmetric] mag first prod.case)
      (cases neg; simp add: store_append store_Cons del: fun_upd_apply)
  also have "\<dots> = store m str (rev ?w @ [0])"
    unfolding rv reverse_store by (simp only: store_append store_Cons store_Nil length_rev)
  finally show ?thesis unfolding neg_def[symmetric] Let_def by simp
qed


section \<open>Reading back\<close>

lemma digit_char_cases:
  assumes "d < 36"
  shows "digit_value (digit_char d) 36 = int d" "digit_char d \<noteq> 0" "\<not> isspace (digit_char d)"
    "digit_char d \<noteq> 0x2D" "digit_char d \<noteq> 0x2B" "d < 16 \<Longrightarrow> digit_char d \<noteq> 0x78 \<and> digit_char d \<noteq> 0x58"
proof -
  have "\<forall>d \<in> set [0..<36]. digit_value (digit_char d) 36 = int d \<and> digit_char d \<noteq> 0 \<and> \<not> isspace (digit_char d)
     \<and> digit_char d \<noteq> 0x2D \<and> digit_char d \<noteq> 0x2B \<and> (d < 16 \<longrightarrow> digit_char d \<noteq> 0x78 \<and> digit_char d \<noteq> 0x58)"
    by (simp add: upt_rec digit_char_def digit_value_def isspace_def)
  moreover have "d \<in> set [0..<36]" using assms by simp
  ultimately show "digit_value (digit_char d) 36 = int d" "digit_char d \<noteq> 0" "\<not> isspace (digit_char d)"
    "digit_char d \<noteq> 0x2D" "digit_char d \<noteq> 0x2B" "d < 16 \<Longrightarrow> digit_char d \<noteq> 0x78 \<and> digit_char d \<noteq> 0x58" by blast+
qed

lemma digit_value_char: "int d < base \<Longrightarrow> base \<le> 36 \<Longrightarrow> digit_value (digit_char d) base = int d"
  using digit_char_cases(1)[of d] by (auto simp: digit_value_def Let_def split: if_splits)

lemma ndigits_less: "2 \<le> base \<Longrightarrow> d \<in> set (ndigits base n) \<Longrightarrow> d < base"
proof (induction base n rule: ndigits.induct)
  case (1 base n)
  then show ?case by (cases "n = 0") (auto simp: ndigits.simps[of base n] ndigits.simps[of base 0])
qed

lemma ndigits_value: "2 \<le> base \<Longrightarrow> foldr (\<lambda>d r. r * base + d) (ndigits base n) 0 = n"
proof (induction base n rule: ndigits.induct)
  case (1 base n)
  then show ?case by (cases "n = 0") (auto simp: ndigits.simps[of base n] ndigits.simps[of base 0])
qed

lemma accumulate_digits:
  assumes "base \<le> 36"
  shows "cstr m p (map digit_char ds) \<Longrightarrow> \<forall>d \<in> set ds. int d < base \<Longrightarrow>
    accumulate m p base r = Some (foldl (\<lambda>r d. r * word_of_int base + word_of_nat d) r ds, p + length ds)"
proof (induction ds arbitrary: p r)
  case Nil
  then show ?case by (simp add: accumulate.simps)
next
  case (Cons d ds)
  then have "m p = digit_char d" "digit_char d \<noteq> 0" "digit_value (digit_char d) base = int d"
    using digit_value_char[of d base] assms by auto
  then show ?case using Cons by (subst accumulate.simps) (simp add: Let_def)
qed

lemma foldl_word: "foldl (\<lambda>r d. r * word_of_int (int b) + word_of_nat d) (word_of_nat x) ds = (word_of_nat (foldl (\<lambda>r d. r * b + d) x ds) :: u64)"
  by (induction ds arbitrary: x) (auto simp flip: of_nat_mult of_nat_add)

lemma numeral_text_digits:
  assumes "2 \<le> base"
  obtains ds where "numeral_text base n = map digit_char ds" "ds \<noteq> []" "\<forall>d \<in> set ds. d < base"
    "foldl (\<lambda>r d. r * base + d) 0 ds = n"
proof (cases "n = 0")
  case True
  then show ?thesis using that[of "[0]"] assms by (simp add: numeral_text_def digit_char_def)
next
  case False
  then have "ndigits base n \<noteq> []" using assms by (subst ndigits.simps) simp
  then show ?thesis using that[of "rev (ndigits base n)"] ndigits_less[OF assms, of _ n] ndigits_value[OF assms, of n] False
    by (auto simp: numeral_text_def digits_def rev_map foldl_conv_foldr)
qed

lemma magnitude_value: "(if neg then - word_of_nat (magnitude neg v) else word_of_nat (magnitude neg v)) = v"
  by (simp add: magnitude_def)

lemma strtol_number:
  assumes "str \<noteq> 0" "base \<noteq> 0" "skip_space m str = Some str"
    and p: "p = (if m str = 0x2D \<or> m str = 0x2B then str + 1 else str)"
    and "base = 16 \<Longrightarrow> m (p + 1) \<noteq> 0x78 \<and> m (p + 1) \<noteq> 0x58"
    and "accumulate m p base 0 = Some (r, e)"
  shows "strtol m str base = Some (if m str = 0x2D then - r else r, Some e)"
  using assms unfolding strtol_def by (simp add: p[symmetric] Let_def) blast

text \<open>
  C36 (strtol_lltoa): in every base from 2 to 36, \<^verbatim>\<open>strtol\<close> reads the text \<^verbatim>\<open>lltoa\<close> prints for a
  64-bit value, the most negative one included, back to that value, and leaves \<^verbatim>\<open>*endptr\<close> at the NUL. The accumulator wraps at 64 bits, as the compiled multiplication does.
\<close>

theorem strtol_lltoa:
  assumes "2 \<le> base" "base \<le> 36" "str \<noteq> 0"
  shows "\<exists>e. strtol (lltoa m v str base) str base = Some (v, Some e) \<and> lltoa m v str base e = 0"
proof -
  define neg where "neg = (sint v < 0)"
  obtain ds where ds: "numeral_text (nat base) (magnitude neg v) = map digit_char ds" "ds \<noteq> []" "\<forall>d \<in> set ds. d < nat base"
    "foldl (\<lambda>r d. r * nat base + d) 0 ds = magnitude neg v"
  proof (rule numeral_text_digits[of "nat base"])
    show "2 \<le> nat base" using assms(1) by simp
  qed
  have lt: "\<forall>d \<in> set ds. int d < base" "\<forall>d \<in> set ds. d < 36" using ds(3) assms by auto
  let ?s = "(if neg then [0x2D] else []) @ map digit_char ds"
  let ?m = "store m str (?s @ [0])"
  have m: "lltoa m v str base = ?m"
    unfolding lltoa_def by (simp only: int_to_str_internal_spec[OF assms(1,2)] not_False_eq_True simp_thms neg_def[symmetric] Let_def ds(1) append_assoc)
  have c: "cstr ?m str ?s" using lt(2) digit_char_cases(2) by (intro cstr_store) auto
  define p where "p = (if neg then str + 1 else str)"
  have cp: "cstr ?m p (map digit_char ds)" using c by (cases neg) (simp_all add: p_def)
  obtain d ds' where dd: "ds = d # ds'" using ds(2) by (cases ds) auto
  then have p0: "?m p = digit_char d" using cp by simp
  have d36: "d < 36" using lt dd by simp
  have p1: "base = 16 \<Longrightarrow> ?m (p + 1) \<noteq> 0x78 \<and> ?m (p + 1) \<noteq> 0x58"
    using cp lt digit_char_cases(6) unfolding dd by (cases ds') auto
  have start: "?m str = (if neg then 0x2D else digit_char d)" using p0 c by (cases neg) (auto simp: p_def)
  then have sk: "skip_space ?m str = Some str" using digit_char_cases(3)[OF d36] by (simp add: skip_space.simps isspace_def)
  have sgn: "(?m str = 0x2D) = neg" "(if ?m str = 0x2D \<or> ?m str = 0x2B then str + 1 else str) = p"
    using start digit_char_cases(4,5)[OF d36] by (auto simp: p_def)
  have acc: "accumulate ?m p base 0 = Some (word_of_nat (magnitude neg v), p + length ds)"
    using accumulate_digits[OF assms(2) cp lt(1), of 0] foldl_word[of "nat base" 0 ds] ds(4) assms(1) by simp
  have "strtol ?m str base = Some (v, Some (p + length ds))"
    using strtol_number[OF assms(3) _ sk sgn(2)[symmetric] p1 acc] assms(1) magnitude_value[of neg v] unfolding sgn(1) by simp
  moreover have "?m (p + length ds) = 0" using cp by (simp add: cstr_nth)
  ultimately show ?thesis unfolding m by blast
qed

theorem strtol_lltoa_witness:
  "\<exists>e. strtol (lltoa (\<lambda>_. 0) (- 0x8000000000000000) 100 16) 100 16 = Some (- 0x8000000000000000, Some e)
     \<and> lltoa (\<lambda>_. 0) (- 0x8000000000000000) 100 16 e = 0"
  by (rule strtol_lltoa) simp_all

text \<open>\<^verbatim>\<open>strtoul\<close> in base 16 stops at the \<^verbatim>\<open>x\<close> of a prefix that \<^verbatim>\<open>strtol\<close> skips.\<close>

lemma strtoul_hex_prefix:
  assumes "cstr m p (bytes ''0x10'')" "p \<noteq> 0"
  shows "strtoul m p 16 = Some (0, Some (p + 1))" "strtol m p 16 = Some (16, Some (p + 4))"
proof -
  have m: "m p = 0x30" "m (Suc p) = 0x78" "m (Suc (Suc p)) = 0x31" "m (Suc (Suc (Suc p))) = 0x30" "m (Suc (Suc (Suc (Suc p)))) = 0"
    using assms(1) by (simp_all add: bytes_def)
  have sk: "skip_space m p = Some p" by (simp add: skip_space.simps[of m p] m isspace_def)
  have "accumulate m p 16 0 = Some (0, Suc p)"
    by (simp add: accumulate.simps[of m p] accumulate.simps[of m "Suc p"] m digit_value_def)
  then show "strtoul m p 16 = Some (0, Some (p + 1))" using assms(2) m by (simp add: strtoul_def sk Let_def)
  have "accumulate m (Suc (Suc p)) 16 0 = Some (16, Suc (Suc (Suc (Suc p))))"
    by (simp add: accumulate.simps[of m "Suc (Suc p)"] accumulate.simps[of m "Suc (Suc (Suc p))"]
        accumulate.simps[of m "Suc (Suc (Suc (Suc p)))"] m digit_value_def)
  then show "strtol m p 16 = Some (16, Some (p + 4))" using assms(2) m by (simp add: strtol_def sk Let_def)
qed

end
