(* ===== verification/Gos_Fifo.thy ===== *)
theory Gos_Fifo
  imports Gos_Memory
begin

text \<open>
  Byte queues: the circular buffer of \<^verbatim>\<open>include/gOS/ring_buffer.h\<close> and the pipes of \<^verbatim>\<open>ipc/pipe.c\<close>, with the
  error numbers of \<^verbatim>\<open>include/gOS/errno.h\<close> that the kernel's calls return. Both queues implement the
  contract \<open>bounded_fifo\<close>, whose clients get order and conservation of the data from it.
\<close>

section \<open>\<^verbatim>\<open>include/gOS/errno.h\<close>\<close>

abbreviation "EPERM \<equiv> 1 :: int"
abbreviation "ENOENT \<equiv> 2 :: int"
abbreviation "ESRCH \<equiv> 3 :: int"
abbreviation "EIO \<equiv> 5 :: int"
abbreviation "EBADF \<equiv> 9 :: int"
abbreviation "EAGAIN \<equiv> 11 :: int"
abbreviation "ENOMEM \<equiv> 12 :: int"
abbreviation "EACCES \<equiv> 13 :: int"
abbreviation "EFAULT \<equiv> 14 :: int"
abbreviation "EEXIST \<equiv> 17 :: int"
abbreviation "ENODEV \<equiv> 19 :: int"
abbreviation "EINVAL \<equiv> 22 :: int"
abbreviation "ENFILE \<equiv> 23 :: int"
abbreviation "EMFILE \<equiv> 24 :: int"
abbreviation "ENOSPC \<equiv> 28 :: int"
abbreviation "EROFS \<equiv> 30 :: int"
abbreviation "ENOSYS \<equiv> 38 :: int"

section \<open>The contract of a bounded queue\<close>

text \<open>
  \<open>elems\<close> is the content, oldest first, \<open>room\<close> how many elements fit. A push is refused exactly
  when the queue is full, a pop exactly when it is empty, and a refusal changes nothing.
\<close>

locale bounded_fifo =
  fixes inv :: "'s \<Rightarrow> bool" and elems :: "'s \<Rightarrow> 'a list" and room :: "'s \<Rightarrow> nat"
    and push :: "'s \<Rightarrow> 'a \<Rightarrow> (bool \<times> 's) res" and pop :: "'s \<Rightarrow> ('a option \<times> 's) res"
  assumes push_ok: "inv s \<Longrightarrow> length (elems s) < room s \<Longrightarrow>
      \<exists>s'. push s x = Inr (True, s') \<and> inv s' \<and> elems s' = elems s @ [x] \<and> room s' = room s"
    and push_full: "inv s \<Longrightarrow> \<not> length (elems s) < room s \<Longrightarrow> push s x = Inr (False, s)"
    and pop_ok: "inv s \<Longrightarrow> elems s = x # xs \<Longrightarrow>
      \<exists>s'. pop s = Inr (Some x, s') \<and> inv s' \<and> elems s' = xs \<and> room s' = room s"
    and pop_empty: "inv s \<Longrightarrow> elems s = [] \<Longrightarrow> pop s = Inr (None, s)"
    and elems_room: "inv s \<Longrightarrow> length (elems s) \<le> room s"
begin

text \<open>
  A run of pushes (\<open>Some x\<close>) and pops (\<open>None\<close>), with the elements accepted and the elements
  delivered: whatever the interleaving, what comes out followed by what is left is what
  was inside followed by what went in.
\<close>

fun run :: "'a option list \<Rightarrow> 's \<Rightarrow> ('a list \<times> 'a list \<times> 's) res" where
  "run [] s = Inr ([], [], s)"
| "run (Some x # cs) s = res_bind (push s x) (\<lambda>(ok, s).
     res_bind (run cs s) (\<lambda>(ins, outs, s). Inr (if ok then x # ins else ins, outs, s)))"
| "run (None # cs) s = res_bind (pop s) (\<lambda>(y, s).
     res_bind (run cs s) (\<lambda>(ins, outs, s). Inr (ins, case y of None \<Rightarrow> outs | Some y \<Rightarrow> y # outs, s)))"

lemma run_conserves:
  "inv s \<Longrightarrow> \<exists>ins outs s'. run cs s = Inr (ins, outs, s') \<and> inv s' \<and> room s' = room s \<and> outs @ elems s' = elems s @ ins"
proof (induction cs arbitrary: s)
  case Nil
  then show ?case by simp
next
  case (Cons c cs)
  note inv = Cons.prems and IH = Cons.IH
  show ?case
  proof (cases c)
    case None
    show ?thesis
    proof (cases "elems s")
      case Nil
      then show ?thesis using IH[OF inv] None pop_empty[OF inv] by auto
    next
      case (Cons y ys)
      from pop_ok[OF inv Cons] obtain s1 where s1: "pop s = Inr (Some y, s1)" "inv s1" "elems s1 = ys" "room s1 = room s" by blast
      from IH[OF s1(2)] show ?thesis using None Cons s1 by auto
    qed
  next
    case (Some x)
    show ?thesis
    proof (cases "length (elems s) < room s")
      case True
      from push_ok[OF inv True, of x] obtain s1 where s1: "push s x = Inr (True, s1)" "inv s1" "elems s1 = elems s @ [x]" "room s1 = room s" by blast
      from IH[OF s1(2)] show ?thesis using Some s1 by auto
    next
      case False
      then show ?thesis using IH[OF inv] Some push_full[OF inv] by auto
    qed
  qed
qed

end

section \<open>\<^verbatim>\<open>include/gOS/ring_buffer.h\<close>\<close>

record ring_buffer =
  buffer :: "u8 list"
  capacity :: nat
  head :: nat
  tail :: nat

definition ring_buffer_init :: "u8 list \<Rightarrow> nat \<Rightarrow> ring_buffer" where
  "ring_buffer_init buf cap = \<lparr>buffer = buf, capacity = cap, head = 0, tail = 0\<rparr>"

definition ring_buffer_empty :: "ring_buffer \<Rightarrow> bool" where
  "ring_buffer_empty rb = (head rb = tail rb)"

text \<open>\<^verbatim>\<open>%\<close> by a capacity of 0 traps; the remainder is written with that case out.\<close>

definition rem_of :: "nat \<Rightarrow> nat \<Rightarrow> nat res" where
  "rem_of n d = (if d = 0 then Inl DivideError else Inr (n mod d))"

definition ring_buffer_full :: "ring_buffer \<Rightarrow> bool res" where
  "ring_buffer_full rb = res_bind (rem_of (inc64 (head rb)) (capacity rb)) (\<lambda>n. Inr (n = tail rb))"

definition ring_buffer_size :: "ring_buffer \<Rightarrow> nat" where
  "ring_buffer_size rb =
     (if tail rb \<le> head rb then head rb - tail rb else add64 (sub64 (capacity rb) (tail rb)) (head rb))"

definition ring_buffer_push :: "ring_buffer \<Rightarrow> u8 \<Rightarrow> (bool \<times> ring_buffer) res" where
  "ring_buffer_push rb byte = res_bind (ring_buffer_full rb) (\<lambda>full.
     if full then Inr (False, rb)
     else if length (buffer rb) \<le> head rb then Inl OutOfBounds
     else let rb = rb\<lparr>buffer := (buffer rb)[head rb := byte]\<rparr>
          in res_bind (rem_of (inc64 (head rb)) (capacity rb)) (\<lambda>n. Inr (True, rb\<lparr>head := n\<rparr>)))"

definition ring_buffer_pop :: "ring_buffer \<Rightarrow> (u8 option \<times> ring_buffer) res" where
  "ring_buffer_pop rb =
     (if ring_buffer_empty rb then Inr (None, rb)
      else if length (buffer rb) \<le> tail rb then Inl OutOfBounds
      else let byte = buffer rb ! tail rb
           in res_bind (rem_of (inc64 (tail rb)) (capacity rb)) (\<lambda>n. Inr (Some byte, rb\<lparr>tail := n\<rparr>)))"

definition ring_buffer_clear :: "ring_buffer \<Rightarrow> ring_buffer" where
  "ring_buffer_clear rb = rb\<lparr>head := 0, tail := 0\<rparr>"

section \<open>\<^verbatim>\<open>ipc/pipe.h\<close> and \<^verbatim>\<open>ipc/pipe.c\<close>\<close>

abbreviation "PIPE_BUF_SIZE \<equiv> 4096 :: nat"
abbreviation "PIPE_MAX_PIPES \<equiv> 32 :: nat"

record pipe =
  pbuffer :: "u8 list"
  read_pos :: nat
  write_pos :: nat
  readable :: bool
  writable :: bool
  refcount :: int

text \<open>A zeroed \<^verbatim>\<open>pipe_t\<close>, and \<^verbatim>\<open>g_pipes\<close> as the list of its 32 entries; a \<^verbatim>\<open>pipe_t *\<close> is an index.\<close>

definition pipe_zero :: pipe where
  "pipe_zero = \<lparr>pbuffer = replicate PIPE_BUF_SIZE 0, read_pos = 0, write_pos = 0,
     readable = False, writable = False, refcount = 0\<rparr>"

definition pipe_init :: "pipe list \<Rightarrow> pipe list" where
  "pipe_init ps = map (\<lambda>p. p\<lparr>readable := False, writable := False, refcount := 0\<rparr>) ps"

definition pipe_pick :: "pipe list \<Rightarrow> nat option \<times> nat option" where
  "pipe_pick ps = fold (\<lambda>i (r, w).
     if refcount (ps ! i) = 0
     then (case r of None \<Rightarrow> (Some i, w) | Some _ \<Rightarrow> (case w of None \<Rightarrow> (r, Some i) | Some _ \<Rightarrow> (r, w)))
     else (r, w)) [0..<PIPE_MAX_PIPES] (None, None)"

text \<open>The out pointers are given as whether they are non-\<^verbatim>\<open>NULL\<close>; what is stored through them is a result.\<close>

definition pipe_create :: "bool \<Rightarrow> bool \<Rightarrow> pipe list \<Rightarrow> int \<times> (nat \<times> nat) option \<times> pipe list" where
  "pipe_create read_end write_end ps =
     (if \<not> read_end \<or> \<not> write_end then (- EINVAL, None, ps)
      else case pipe_pick ps of
        (Some r, Some w) \<Rightarrow>
          (0, Some (r, w),
           ps[r := pipe_zero\<lparr>readable := True, refcount := 1\<rparr>, w := pipe_zero\<lparr>writable := True, refcount := 1\<rparr>])
      | _ \<Rightarrow> (- ENFILE, None, ps))"

definition pipe_size :: "pipe \<Rightarrow> nat" where
  "pipe_size p = (if read_pos p \<le> write_pos p then write_pos p - read_pos p else PIPE_BUF_SIZE - read_pos p + write_pos p)"

definition pipe_empty :: "pipe \<Rightarrow> bool" where
  "pipe_empty p = (read_pos p = write_pos p)"

definition pipe_full :: "pipe \<Rightarrow> bool" where
  "pipe_full p = ((write_pos p + 1) mod PIPE_BUF_SIZE = read_pos p)"

text \<open>One round of each loop, then the loops over the caller's buffer.\<close>

definition pipe_get :: "pipe \<Rightarrow> u8 \<times> pipe" where
  "pipe_get p = (pbuffer p ! read_pos p, p\<lparr>read_pos := (read_pos p + 1) mod PIPE_BUF_SIZE\<rparr>)"

definition pipe_put :: "u8 \<Rightarrow> pipe \<Rightarrow> pipe" where
  "pipe_put b p = p\<lparr>pbuffer := (pbuffer p)[write_pos p := b], write_pos := (write_pos p + 1) mod PIPE_BUF_SIZE\<rparr>"

fun pipe_read_loop :: "nat \<Rightarrow> pipe \<Rightarrow> u8 list \<times> pipe" where
  "pipe_read_loop 0 p = ([], p)"
| "pipe_read_loop (Suc n) p =
     (if pipe_empty p then ([], p)
      else let (b, p) = pipe_get p; (bs, p) = pipe_read_loop n p in (b # bs, p))"

fun pipe_write_loop :: "u8 list \<Rightarrow> pipe \<Rightarrow> nat \<times> pipe" where
  "pipe_write_loop [] p = (0, p)"
| "pipe_write_loop (b # bs) p =
     (if pipe_full p then (0, p) else let (n, p) = pipe_write_loop bs (pipe_put b p) in (n + 1, p))"

text \<open>\<^verbatim>\<open>buf\<close> is non-\<^verbatim>\<open>NULL\<close> here; a \<^verbatim>\<open>NULL\<close> pipe is \<open>None\<close>.\<close>

definition pipe_read :: "nat option \<Rightarrow> nat \<Rightarrow> pipe list \<Rightarrow> int \<times> u8 list \<times> pipe list" where
  "pipe_read p count ps =
     (case p of None \<Rightarrow> (- EINVAL, [], ps)
      | Some i \<Rightarrow> if \<not> readable (ps ! i) then (- EINVAL, [], ps)
          else case pipe_read_loop count (ps ! i) of (bs, p) \<Rightarrow> (to_int (length bs), bs, ps[i := p]))"

definition pipe_write :: "nat option \<Rightarrow> u8 list \<Rightarrow> pipe list \<Rightarrow> int \<times> pipe list" where
  "pipe_write p buf ps =
     (case p of None \<Rightarrow> (- EINVAL, ps)
      | Some i \<Rightarrow> if \<not> writable (ps ! i) then (- EINVAL, ps)
          else case pipe_write_loop buf (ps ! i) of (n, p) \<Rightarrow> (to_int n, ps[i := p]))"

definition pipe_close :: "nat option \<Rightarrow> pipe list \<Rightarrow> pipe list" where
  "pipe_close p ps =
     (case p of None \<Rightarrow> ps
      | Some i \<Rightarrow> let q = (ps ! i)\<lparr>refcount := refcount (ps ! i) - 1\<rparr> in
          ps[i := if refcount q \<le> 0 then q\<lparr>readable := False, writable := False, read_pos := 0, write_pos := 0\<rparr> else q])"

section \<open>Circular content\<close>

text \<open>The \<open>n\<close> bytes from position \<open>t\<close> on in a circular buffer of \<open>c\<close> cells.\<close>

definition circ :: "'a list \<Rightarrow> nat \<Rightarrow> nat \<Rightarrow> nat \<Rightarrow> 'a list" where
  "circ xs c t n = map (\<lambda>i. xs ! ((t + i) mod c)) [0..<n]"

definition dist :: "nat \<Rightarrow> nat \<Rightarrow> nat \<Rightarrow> nat" where
  "dist c t h = (if t \<le> h then h - t else c - t + h)"

lemma length_circ [simp]: "length (circ xs c t n) = n"
  by (simp add: circ_def)

lemma next_pos: "h < c \<Longrightarrow> Suc h mod c = (if Suc h = c then 0 else Suc h)"
  by auto

lemma wrap_pos: "t < c \<Longrightarrow> i < c \<Longrightarrow> (t + i) mod c = (if t + i < c then t + i else t + i - c)" for t :: nat
  by (cases "t + i < c") (simp_all add: le_mod_geq not_less)

lemma dist_props:
  assumes "t < c" "h < c"
  shows "dist c t h < c" "dist c t h = 0 \<longleftrightarrow> h = t"
    "Suc h mod c = t \<longleftrightarrow> dist c t h = c - 1"
    "Suc h mod c \<noteq> t \<Longrightarrow> dist c t (Suc h mod c) = dist c t h + 1"
    "h \<noteq> t \<Longrightarrow> dist c t h = dist c (Suc t mod c) h + 1"
    "(t + dist c t h) mod c = h"
proof -
  show "(t + dist c t h) mod c = h" using assms by (cases "t \<le> h") (simp_all add: dist_def)
qed (use assms in \<open>auto simp: dist_def next_pos split: if_splits\<close>)

lemma circ_push:
  assumes "t < c" "h < c" "Suc h mod c \<noteq> t" "length xs = c"
  shows "circ (xs[h := b]) c t (dist c t (Suc h mod c)) = circ xs c t (dist c t h) @ [b]"
proof -
  note d = dist_props[OF assms(1,2)]
  have "xs[h := b] ! ((t + i) mod c) = xs ! ((t + i) mod c)" if "i < dist c t h" for i
  proof -
    have "i < c" using that d(1) by simp
    then have "(t + i) mod c \<noteq> h" using that assms(1,2) wrap_pos[of t c i] by (auto simp: dist_def split: if_splits)
    then show ?thesis by simp
  qed
  then show ?thesis using d(4)[OF assms(3)] d(6) assms(2,4) by (simp add: circ_def)
qed

lemma circ_pop:
  assumes "t < c" "h < c" "h \<noteq> t"
  shows "circ xs c t (dist c t h) = xs ! t # circ xs c (Suc t mod c) (dist c (Suc t mod c) h)"
proof (rule nth_equalityI)
  note d = dist_props(5)[OF assms]
  show "length (circ xs c t (dist c t h)) = length (xs ! t # circ xs c (Suc t mod c) (dist c (Suc t mod c) h))"
    using d by simp
  fix i assume "i < length (circ xs c t (dist c t h))"
  then show "circ xs c t (dist c t h) ! i = (xs ! t # circ xs c (Suc t mod c) (dist c (Suc t mod c) h)) ! i"
    using d assms by (cases i) (simp_all add: circ_def mod_add_left_eq del: upt_Suc)
qed


section \<open>The ring buffer is a bounded queue\<close>

definition rb_inv :: "ring_buffer \<Rightarrow> bool" where
  "rb_inv rb \<longleftrightarrow> 0 < capacity rb \<and> capacity rb < 2 ^ 64 \<and> length (buffer rb) = capacity rb \<and>
     head rb < capacity rb \<and> tail rb < capacity rb"

definition rb_elems :: "ring_buffer \<Rightarrow> u8 list" where
  "rb_elems rb = circ (buffer rb) (capacity rb) (tail rb) (dist (capacity rb) (tail rb) (head rb))"

lemma rb_full: "rb_inv rb \<Longrightarrow> ring_buffer_full rb = Inr (length (rb_elems rb) = capacity rb - 1)"
  using dist_props(3)[of "tail rb" "capacity rb" "head rb"]
  by (simp add: rb_inv_def ring_buffer_full_def rem_of_def rb_elems_def inc64_nowrap)

interpretation rb: bounded_fifo rb_inv rb_elems "\<lambda>rb. capacity rb - 1" ring_buffer_push ring_buffer_pop
proof
  fix s :: ring_buffer and x :: u8
  assume inv: "rb_inv s"
  let ?c = "capacity s" and ?h = "head s" and ?t = "tail s"
  have c: "?t < ?c" "?h < ?c" "length (buffer s) = ?c" "?c \<noteq> 0" using inv by (auto simp: rb_inv_def)
  have inc: "inc64 ?h = Suc ?h" "inc64 ?t = Suc ?t" using inv by (auto simp: rb_inv_def inc64_nowrap)
  show "length (rb_elems s) \<le> ?c - 1" using dist_props(1)[OF c(1,2)] by (simp add: rb_elems_def)
  show "\<not> length (rb_elems s) < ?c - 1 \<Longrightarrow> ring_buffer_push s x = Inr (False, s)"
  proof -
    assume "\<not> length (rb_elems s) < ?c - 1"
    then have "length (rb_elems s) = ?c - 1" using dist_props(1)[OF c(1,2)] by (simp add: rb_elems_def)
    then show ?thesis by (simp add: ring_buffer_push_def rb_full[OF inv])
  qed
  show "\<exists>s'. ring_buffer_push s x = Inr (True, s') \<and> rb_inv s' \<and> rb_elems s' = rb_elems s @ [x] \<and> capacity s' - 1 = ?c - 1"
    if "length (rb_elems s) < ?c - 1"
  proof -
    have ne: "Suc ?h mod ?c \<noteq> ?t" using that dist_props(3)[OF c(1,2)] by (simp add: rb_elems_def)
    let ?s = "s\<lparr>buffer := (buffer s)[?h := x], head := Suc ?h mod ?c\<rparr>"
    have "ring_buffer_push s x = Inr (True, ?s)"
      using that c by (simp add: ring_buffer_push_def rb_full[OF inv] Let_def rem_of_def inc)
    moreover have "rb_inv ?s" using inv by (simp add: rb_inv_def)
    moreover have "rb_elems ?s = rb_elems s @ [x]" using circ_push[OF c(1,2) ne c(3), of x] by (simp add: rb_elems_def)
    ultimately show ?thesis by auto
  qed
next
  fix s :: ring_buffer and x xs
  assume inv: "rb_inv s" and e: "rb_elems s = x # xs"
  let ?c = "capacity s" and ?h = "head s" and ?t = "tail s"
  have c: "?t < ?c" "?h < ?c" "length (buffer s) = ?c" "?c \<noteq> 0" using inv by (auto simp: rb_inv_def)
  have inc: "inc64 ?t = Suc ?t" using inv by (auto simp: rb_inv_def inc64_nowrap)
  have ne: "?h \<noteq> ?t" using e dist_props(2)[OF c(1,2)] by (auto simp: rb_elems_def circ_def)
  let ?s = "s\<lparr>tail := Suc ?t mod ?c\<rparr>"
  have "ring_buffer_pop s = Inr (Some (buffer s ! ?t), ?s)"
    using ne c by (simp add: ring_buffer_pop_def ring_buffer_empty_def rem_of_def inc)
  moreover have "rb_inv ?s" using inv by (simp add: rb_inv_def)
  moreover have "rb_elems s = buffer s ! ?t # rb_elems ?s" using circ_pop[OF c(1,2) ne] by (simp add: rb_elems_def)
  ultimately show "\<exists>s'. ring_buffer_pop s = Inr (Some x, s') \<and> rb_inv s' \<and> rb_elems s' = xs \<and> capacity s' - 1 = ?c - 1"
    using e by auto
next
  fix s :: ring_buffer
  assume "rb_inv s" "rb_elems s = []"
  then show "ring_buffer_pop s = Inr (None, s)"
    using dist_props(2)[of "tail s" "capacity s" "head s"]
    by (auto simp: rb_inv_def rb_elems_def circ_def ring_buffer_pop_def ring_buffer_empty_def)
qed

lemma rb_init: "0 < cap \<Longrightarrow> cap < 2 ^ 64 \<Longrightarrow> length buf = cap \<Longrightarrow>
    rb_inv (ring_buffer_init buf cap) \<and> rb_elems (ring_buffer_init buf cap) = []"
  by (simp add: rb_inv_def rb_elems_def ring_buffer_init_def dist_def circ_def)

lemma rb_size: "rb_inv rb \<Longrightarrow> ring_buffer_size rb = length (rb_elems rb)"
  by (auto simp: rb_inv_def rb_elems_def ring_buffer_size_def dist_def add64_nowrap sub64_nowrap)

text \<open>
  C19 (ring_buffer_fifo): from initialisation, through any interleaving of pushes and pops, no
  access leaves the buffer, the bytes popped are the bytes accepted, in order, followed by
  those still inside, and at most \<^verbatim>\<open>cap - 1\<close> bytes are ever held.
\<close>

theorem ring_buffer_fifo:
  assumes "0 < cap" "cap < 2 ^ 64" "length buf = cap"
  shows "\<exists>ins outs rb. rb.run cs (ring_buffer_init buf cap) = Inr (ins, outs, rb) \<and>
    outs @ rb_elems rb = ins \<and> ring_buffer_size rb = length (rb_elems rb) \<and> ring_buffer_size rb \<le> cap - 1"
proof -
  from rb.run_conserves[of "ring_buffer_init buf cap" cs] rb_init[OF assms]
  obtain ins outs r where r: "rb.run cs (ring_buffer_init buf cap) = Inr (ins, outs, r)" "rb_inv r"
    "capacity r - 1 = capacity (ring_buffer_init buf cap) - 1" "outs @ rb_elems r = ins" by auto
  then show ?thesis using rb.elems_room[OF r(2)] rb_size[OF r(2)] by (auto simp: ring_buffer_init_def)
qed

theorem ring_buffer_fifo_witness:
  "\<exists>ins outs rb. rb.run [Some 7, Some 8, None, Some 9, Some 1] (ring_buffer_init (replicate 3 0) 3) = Inr (ins, outs, rb) \<and>
    outs @ rb_elems rb = ins"
  using ring_buffer_fifo[of 3 "replicate 3 0" "[Some 7, Some 8, None, Some 9, Some 1]"] by auto


section \<open>Pipes\<close>

definition pipe_inv :: "pipe \<Rightarrow> bool" where
  "pipe_inv p \<longleftrightarrow> length (pbuffer p) = PIPE_BUF_SIZE \<and> read_pos p < PIPE_BUF_SIZE \<and> write_pos p < PIPE_BUF_SIZE"

definition pipe_elems :: "pipe \<Rightarrow> u8 list" where
  "pipe_elems p = circ (pbuffer p) PIPE_BUF_SIZE (read_pos p) (dist PIPE_BUF_SIZE (read_pos p) (write_pos p))"

lemma pipe_full_iff: "pipe_inv p \<Longrightarrow> pipe_full p \<longleftrightarrow> length (pipe_elems p) = PIPE_BUF_SIZE - 1"
  using dist_props(3)[of "read_pos p" PIPE_BUF_SIZE "write_pos p"] by (simp add: pipe_inv_def pipe_full_def pipe_elems_def)

lemma pipe_put_ok:
  assumes "pipe_inv p" "\<not> pipe_full p"
  shows "pipe_inv (pipe_put b p)" "pipe_elems (pipe_put b p) = pipe_elems p @ [b]"
proof -
  have c: "read_pos p < PIPE_BUF_SIZE" "write_pos p < PIPE_BUF_SIZE" "length (pbuffer p) = PIPE_BUF_SIZE"
    "Suc (write_pos p) mod PIPE_BUF_SIZE \<noteq> read_pos p"
    using assms by (auto simp: pipe_inv_def pipe_full_def)
  show "pipe_inv (pipe_put b p)" using c by (simp add: pipe_inv_def pipe_put_def)
  show "pipe_elems (pipe_put b p) = pipe_elems p @ [b]"
    using circ_push[OF c(1,2,4,3), of b] by (simp add: pipe_elems_def pipe_put_def)
qed

lemma pipe_get_ok:
  assumes "pipe_inv p" "\<not> pipe_empty p"
  shows "pipe_inv (snd (pipe_get p))" "pipe_elems p = fst (pipe_get p) # pipe_elems (snd (pipe_get p))"
proof -
  have c: "read_pos p < PIPE_BUF_SIZE" "write_pos p < PIPE_BUF_SIZE" "write_pos p \<noteq> read_pos p"
    using assms by (auto simp: pipe_inv_def pipe_empty_def)
  show "pipe_inv (snd (pipe_get p))" using assms(1) by (simp add: pipe_inv_def pipe_get_def)
  show "pipe_elems p = fst (pipe_get p) # pipe_elems (snd (pipe_get p))"
    using circ_pop[OF c, of "pbuffer p"] by (simp add: pipe_elems_def pipe_get_def)
qed

lemma pipe_empty_iff: "pipe_inv p \<Longrightarrow> pipe_empty p \<longleftrightarrow> pipe_elems p = []"
proof -
  assume p: "pipe_inv p"
  have "pipe_elems p = [] \<longleftrightarrow> dist PIPE_BUF_SIZE (read_pos p) (write_pos p) = 0"
    by (metis length_0_conv length_circ pipe_elems_def)
  then show ?thesis using p dist_props(2)[of "read_pos p" PIPE_BUF_SIZE "write_pos p"] by (auto simp: pipe_inv_def pipe_empty_def)
qed

lemma pipe_elems_bound: "pipe_inv p \<Longrightarrow> length (pipe_elems p) < PIPE_BUF_SIZE"
  using dist_props(1)[of "read_pos p" PIPE_BUF_SIZE "write_pos p"] by (simp add: pipe_inv_def pipe_elems_def)

text \<open>The loops' rounds meet the contract too, with room for 4095 bytes.\<close>

interpretation pq: bounded_fifo pipe_inv pipe_elems "\<lambda>_. PIPE_BUF_SIZE - 1"
  "\<lambda>p b. Inr (if pipe_full p then (False, p) else (True, pipe_put b p))"
  "\<lambda>p. Inr (if pipe_empty p then (None, p) else (Some (fst (pipe_get p)), snd (pipe_get p)))"
proof
  fix s :: pipe and x :: u8
  assume inv: "pipe_inv s"
  note b = pipe_elems_bound[OF inv] and f = pipe_full_iff[OF inv] and e = pipe_empty_iff[OF inv]
  show "length (pipe_elems s) \<le> PIPE_BUF_SIZE - 1" using b by simp
  show "\<not> length (pipe_elems s) < PIPE_BUF_SIZE - 1 \<Longrightarrow> Inr (if pipe_full s then (False, s) else (True, pipe_put x s)) = Inr (False, s)"
    using b f by simp
  show "length (pipe_elems s) < PIPE_BUF_SIZE - 1 \<Longrightarrow>
    \<exists>s'. Inr (if pipe_full s then (False, s) else (True, pipe_put x s)) = Inr (True, s') \<and> pipe_inv s' \<and>
      pipe_elems s' = pipe_elems s @ [x] \<and> PIPE_BUF_SIZE - 1 = PIPE_BUF_SIZE - 1"
    using f pipe_put_ok[OF inv] by auto
  show "pipe_elems s = [] \<Longrightarrow>
    Inr (if pipe_empty s then (None, s) else (Some (fst (pipe_get s)), snd (pipe_get s))) = Inr (None, s)" using e by simp
  show "pipe_elems s = y # ys \<Longrightarrow>
    \<exists>s'. Inr (if pipe_empty s then (None, s) else (Some (fst (pipe_get s)), snd (pipe_get s))) = Inr (Some y, s') \<and>
      pipe_inv s' \<and> pipe_elems s' = ys \<and> PIPE_BUF_SIZE - 1 = PIPE_BUF_SIZE - 1" for y ys
    using e pipe_get_ok[OF inv] by auto
qed

lemma pipe_write_loop_ok:
  "pipe_inv p \<Longrightarrow> \<exists>p'. pipe_write_loop bs p = (min (length bs) (PIPE_BUF_SIZE - 1 - length (pipe_elems p)), p') \<and> pipe_inv p' \<and>
     pipe_elems p' = pipe_elems p @ take (PIPE_BUF_SIZE - 1 - length (pipe_elems p)) bs"
proof (induction bs arbitrary: p)
  case Nil
  then show ?case by simp
next
  case (Cons b bs)
  show ?case
  proof (cases "pipe_full p")
    case True
    then show ?thesis using pipe_full_iff[OF Cons.prems] Cons.prems by simp
  next
    case False
    then have "length (pipe_elems p) < PIPE_BUF_SIZE - 1"
      using pipe_full_iff[OF Cons.prems] pipe_elems_bound[OF Cons.prems] by simp
    then obtain k where k: "PIPE_BUF_SIZE - 1 - length (pipe_elems p) = Suc k"
      "PIPE_BUF_SIZE - 1 - length (pipe_elems (pipe_put b p)) = k"
      using pipe_put_ok(2)[OF Cons.prems False] by (cases "PIPE_BUF_SIZE - 1 - length (pipe_elems p)") auto
    then show ?thesis using Cons.IH[OF pipe_put_ok(1)[OF Cons.prems False, of b]] pipe_put_ok(2)[OF Cons.prems False] False by auto
  qed
qed

lemma pipe_read_loop_ok:
  "pipe_inv p \<Longrightarrow> \<exists>p'. pipe_read_loop n p = (take n (pipe_elems p), p') \<and> pipe_inv p' \<and> pipe_elems p' = drop n (pipe_elems p)"
proof (induction n arbitrary: p)
  case 0
  then show ?case by simp
next
  case (Suc n)
  show ?case
  proof (cases "pipe_empty p")
    case True
    then show ?thesis using pipe_empty_iff[OF Suc.prems] Suc.prems by simp
  next
    case False
    note g = pipe_get_ok[OF Suc.prems False]
    obtain b q where bq: "pipe_get p = (b, q)" by fastforce
    then show ?thesis using Suc.IH[of q] g False by auto
  qed
qed

text \<open>
  The two ends \<^verbatim>\<open>pipe_create\<close> returns are separate buffers, so after any
  writes to the write end a read from the read end still returns 0 bytes.
\<close>

lemma pipe_ends_disconnected:
  assumes "pipe_create True True ps = (0, Some (r, w), qs)" "length ps = PIPE_MAX_PIPES"
  shows "case pipe_read (Some r) count (fold (\<lambda>buf ps. snd (pipe_write (Some w) buf ps)) bufs qs)
         of (n, bs, _) \<Rightarrow> n = 0 \<and> bs = []"
proof -
  let ?f = "\<lambda>ps i (r, w).
     if refcount (ps ! i) = 0
     then (case r of None \<Rightarrow> (Some i, w) | Some _ \<Rightarrow> (case w of None \<Rightarrow> (r, Some i) | Some _ \<Rightarrow> (r, w)))
     else (r, w :: nat option)"
  have pick: "\<forall>r w. fold (?f ps) [0..<n] (None, None) = (Some r, Some w) \<longrightarrow> r < w \<and> w < n"
    "\<forall>r. fst (fold (?f ps) [0..<n] (None, None)) = Some r \<longrightarrow> r < n"
    "fst (fold (?f ps) [0..<n] (None, None)) = None \<longrightarrow> snd (fold (?f ps) [0..<n] (None, None)) = None" for n
    by (induction n) (auto split: prod.splits option.splits if_splits simp: less_Suc_eq)
  have p: "pipe_pick ps = (Some r, Some w)"
    "qs = ps[r := pipe_zero\<lparr>readable := True, refcount := 1\<rparr>, w := pipe_zero\<lparr>writable := True, refcount := 1\<rparr>]"
    using assms(1) by (auto simp: pipe_create_def split: prod.splits option.splits)
  then have rw: "r \<noteq> w" "r < length ps" using pick(1)[of PIPE_MAX_PIPES] assms(2) unfolding pipe_pick_def by auto
  have "(fold (\<lambda>buf ps. snd (pipe_write (Some w) buf ps)) bufs qs') ! r = qs' ! r" for qs'
    using rw(1) by (induction bufs arbitrary: qs') (auto simp: pipe_write_def split: prod.splits)
  then have "fold (\<lambda>buf ps. snd (pipe_write (Some w) buf ps)) bufs qs ! r = pipe_zero\<lparr>readable := True, refcount := 1\<rparr>"
    using p(2) rw by simp
  moreover have "pipe_read_loop count (pipe_zero\<lparr>readable := True, refcount := 1\<rparr>) = ([], pipe_zero\<lparr>readable := True, refcount := 1\<rparr>)"
    by (cases count) (simp_all add: pipe_empty_def pipe_zero_def)
  ultimately show ?thesis by (simp add: pipe_read_def to_int_def pipe_zero_def)
qed

end
