(* ===== verification/Gos_List.thy ===== *)
theory Gos_List
  imports Gos_Prelude
begin

text \<open>
  The intrusive doubly linked list of \<^verbatim>\<open>include/gOS/list.h\<close>. The links of all nodes are two maps from
  node addresses; a list is a ring through its head node, and every operation is shown to have
  the list-level effect its name says.
\<close>

section \<open>\<^verbatim>\<open>include/gOS/list.h\<close>\<close>

record list_node =
  nexts :: "nat \<Rightarrow> nat"
  prevs :: "nat \<Rightarrow> nat"

definition set_next :: "nat \<Rightarrow> nat \<Rightarrow> list_node \<Rightarrow> list_node" where
  "set_next n v st = st\<lparr>nexts := (nexts st)(n := v)\<rparr>"

definition set_prev :: "nat \<Rightarrow> nat \<Rightarrow> list_node \<Rightarrow> list_node" where
  "set_prev n v st = st\<lparr>prevs := (prevs st)(n := v)\<rparr>"

definition list_init :: "nat \<Rightarrow> list_node \<Rightarrow> list_node" where
  "list_init node st = set_prev node node (set_next node node st)"

definition list_empty :: "nat \<Rightarrow> list_node \<Rightarrow> bool" where
  "list_empty head st = (nexts st head = head)"

definition list_insert_after :: "nat \<Rightarrow> nat \<Rightarrow> list_node \<Rightarrow> list_node" where
  "list_insert_after pos new_node st =
     (let st = set_next new_node (nexts st pos) st;
          st = set_prev new_node pos st;
          st = set_prev (nexts st pos) new_node st
      in set_next pos new_node st)"

definition list_insert_before :: "nat \<Rightarrow> nat \<Rightarrow> list_node \<Rightarrow> list_node" where
  "list_insert_before pos new_node st =
     (let st = set_next new_node pos st;
          st = set_prev new_node (prevs st pos) st;
          st = set_next (prevs st pos) new_node st
      in set_prev pos new_node st)"

definition list_append :: "nat \<Rightarrow> nat \<Rightarrow> list_node \<Rightarrow> list_node" where
  "list_append head new_node st = list_insert_before head new_node st"

definition list_prepend :: "nat \<Rightarrow> nat \<Rightarrow> list_node \<Rightarrow> list_node" where
  "list_prepend head new_node st = list_insert_after head new_node st"

definition list_remove :: "nat \<Rightarrow> list_node \<Rightarrow> list_node" where
  "list_remove node st =
     (let st = set_next (prevs st node) (nexts st node) st;
          st = set_prev (nexts st node) (prevs st node) st;
          st = set_next node node st
      in set_prev node node st)"

definition list_replace :: "nat \<Rightarrow> nat \<Rightarrow> list_node \<Rightarrow> list_node" where
  "list_replace old_node new_node st =
     (let st = set_next new_node (nexts st old_node) st;
          st = set_prev new_node (prevs st old_node) st;
          st = set_next (prevs st old_node) new_node st
      in set_prev (nexts st old_node) new_node st)"

text \<open>The nodes \<^verbatim>\<open>list_for_each\<close> visits; the loop ends only when the chain comes back to the head.\<close>

partial_function (option) list_walk :: "nat \<Rightarrow> nat \<Rightarrow> list_node \<Rightarrow> nat list option" where
  "list_walk head pos st =
     (if pos \<noteq> head then Option.bind (list_walk head (nexts st pos) st) (\<lambda>xs. Some (pos # xs)) else Some [])"

definition list_for_each :: "nat \<Rightarrow> list_node \<Rightarrow> nat list option" where
  "list_for_each head st = list_walk head (nexts st head) st"

lemma set_simps [simp]:
  "nexts (set_next n v st) = (nexts st)(n := v)" "prevs (set_next n v st) = prevs st"
  "nexts (set_prev n v st) = nexts st" "prevs (set_prev n v st) = (prevs st)(n := v)"
  by (simp_all add: set_next_def set_prev_def)

section \<open>Rings\<close>

text \<open>\<open>linked st a xs b\<close>: the chain from \<open>a\<close> through \<open>xs\<close> to \<open>b\<close>, linked both ways.\<close>

fun linked :: "list_node \<Rightarrow> nat \<Rightarrow> nat list \<Rightarrow> nat \<Rightarrow> bool" where
  "linked st a [] b \<longleftrightarrow> nexts st a = b \<and> prevs st b = a"
| "linked st a (x # xs) b \<longleftrightarrow> nexts st a = x \<and> prevs st x = a \<and> linked st x xs b"

definition ring :: "list_node \<Rightarrow> nat \<Rightarrow> nat list \<Rightarrow> bool" where
  "ring st h xs \<longleftrightarrow> linked st h xs h \<and> distinct (h # xs)"

lemma linked_append: "linked st a (xs @ p # ys) b \<longleftrightarrow> linked st a xs p \<and> linked st p ys b"
  by (induction xs arbitrary: a) auto

lemma linked_cong:
  "(\<forall>x \<in> set (a # xs). nexts st x = nexts st' x) \<Longrightarrow> (\<forall>x \<in> set (xs @ [b]). prevs st x = prevs st' x) \<Longrightarrow>
   linked st a xs b \<longleftrightarrow> linked st' a xs b"
  by (induction xs arbitrary: a) auto

lemma linked_ends:
  assumes "linked st a xs b"
  shows "nexts st a = hd (xs @ [b])" "prevs st b = last (a # xs)"
  using assms by (induction xs arbitrary: a) auto

text \<open>The four link writes that put \<open>n\<close> between two neighbours, and the two that bridge a node.\<close>

definition splice :: "nat \<Rightarrow> nat \<Rightarrow> nat \<Rightarrow> list_node \<Rightarrow> list_node" where
  "splice p n q st = st\<lparr>nexts := (nexts st)(n := q, p := n), prevs := (prevs st)(n := p, q := n)\<rparr>"

lemma linked_splice:
  assumes "linked st a (us @ vs) b" "n \<notin> set (a # us @ vs @ [b])" "distinct (a # us @ vs)" "b \<notin> set (us @ vs)"
    "p = last (a # us)" "q = hd (vs @ [b])"
  shows "linked (splice p n q st) a (us @ n # vs) b"
  using assms
proof (induction us arbitrary: a)
  case Nil
  show ?case
  proof (cases vs)
    case Nil
    then show ?thesis using \<open>linked st a ([] @ vs) b\<close> Nil.prems by (auto simp: splice_def)
  next
    case (Cons v ws)
    have "linked (splice p n q st) v ws b \<longleftrightarrow> linked st v ws b"
      using Nil.prems Cons by (intro linked_cong) (auto simp: splice_def)
    then show ?thesis using Nil.prems Cons by (auto simp: splice_def)
  qed
next
  case (Cons u us)
  have pu: "p = last (u # us)" using Cons.prems(5) by simp
  then have pin: "p \<in> set (u # us)" by (metis last_in_set list.distinct(1))
  have qin: "q \<in> set vs \<or> q = b" using Cons.prems(6) by (cases vs) auto
  have "linked (splice p n q st) u (us @ n # vs) b"
    using Cons.prems pu by (intro Cons.IH) auto
  moreover have "nexts (splice p n q st) a = u" "prevs (splice p n q st) u = a"
    using Cons.prems pin qin by (auto simp: splice_def)
  ultimately show ?case by simp
qed

lemma ring_splice:
  assumes "ring st h (us @ vs)" "n \<notin> set (h # us @ vs)" "p = last (h # us)" "q = hd (vs @ [h])"
  shows "ring (splice p n q st) h (us @ n # vs)"
  using linked_splice[of st h us vs h n p q] assms by (auto simp: ring_def)

lemma ring_neighbours:
  assumes "ring st h (us @ vs)"
  shows "nexts st (last (h # us)) = hd (vs @ [h])" "prevs st (hd (vs @ [h])) = last (h # us)"
proof -
  have "nexts st (last (h # us)) = hd (vs @ [h]) \<and> prevs st (hd (vs @ [h])) = last (h # us)"
  proof (cases vs)
    case Nil
    then show ?thesis using assms by (cases us rule: rev_cases) (auto simp: ring_def linked_append)
  next
    case (Cons v ws)
    then have "linked st h us v" using assms by (simp add: ring_def linked_append)
    then show ?thesis using Cons by (cases us rule: rev_cases) (auto simp: linked_append)
  qed
  then show "nexts st (last (h # us)) = hd (vs @ [h])" "prevs st (hd (vs @ [h])) = last (h # us)" by auto
qed

lemma insert_after_splice:
  "new \<noteq> pos \<Longrightarrow> new \<noteq> nexts st pos \<Longrightarrow> list_insert_after pos new st = splice pos new (nexts st pos) st"
  by (simp add: list_insert_after_def splice_def Let_def set_next_def set_prev_def fun_upd_twist)

lemma insert_before_splice:
  "new \<noteq> pos \<Longrightarrow> new \<noteq> prevs st pos \<Longrightarrow> list_insert_before pos new st = splice (prevs st pos) new pos st"
  by (simp add: list_insert_before_def splice_def Let_def set_next_def set_prev_def fun_upd_twist)

lemma list_insert_after_ring:
  assumes "ring st h (us @ vs)" "new \<notin> set (h # us @ vs)"
  shows "ring (list_insert_after (last (h # us)) new st) h (us @ new # vs)"
proof -
  have "hd (vs @ [h]) \<in> set (h # us @ vs)" "last (h # us) \<in> set (h # us @ vs)"
    by (cases vs; simp) (cases us rule: rev_cases; simp)
  then show ?thesis
    using ring_splice[OF assms refl refl] ring_neighbours[OF assms(1)] assms(2)
    by (subst insert_after_splice) (auto simp del: last.simps)
qed

lemma list_insert_before_ring:
  assumes "ring st h (us @ vs)" "new \<notin> set (h # us @ vs)"
  shows "ring (list_insert_before (hd (vs @ [h])) new st) h (us @ new # vs)"
proof -
  have "hd (vs @ [h]) \<in> set (h # us @ vs)" "last (h # us) \<in> set (h # us @ vs)"
    by (cases vs; simp) (cases us rule: rev_cases; simp)
  then show ?thesis
    using ring_splice[OF assms refl refl] ring_neighbours[OF assms(1)] assms(2)
    by (subst insert_before_splice) (auto simp del: last.simps)
qed

lemma list_init_ring: "ring (list_init h st) h []"
  by (simp add: ring_def list_init_def)

lemma list_empty_ring: "ring st h xs \<Longrightarrow> list_empty h st \<longleftrightarrow> xs = []"
  by (cases xs) (auto simp: ring_def list_empty_def)

lemma list_walk_linked: "linked st a xs h \<Longrightarrow> h \<notin> set xs \<Longrightarrow> list_walk h (nexts st a) st = Some xs"
  by (induction xs arbitrary: a) (auto simp: list_walk.simps)

lemma list_for_each_ring: "ring st h xs \<Longrightarrow> list_for_each h st = Some xs"
  using list_walk_linked[of st h xs h] by (simp add: ring_def list_for_each_def)

definition bridge :: "nat \<Rightarrow> nat \<Rightarrow> nat \<Rightarrow> list_node \<Rightarrow> list_node" where
  "bridge p x q st = st\<lparr>nexts := (nexts st)(p := q, x := x), prevs := (prevs st)(q := p, x := x)\<rparr>"

lemma linked_bridge:
  assumes "linked st a (us @ x # vs) b" "distinct (a # us @ x # vs)" "b \<notin> set (us @ x # vs)"
    "p = last (a # us)" "q = hd (vs @ [b])"
  shows "linked (bridge p x q st) a (us @ vs) b"
  using assms
proof (induction us arbitrary: a)
  case Nil
  show ?case
  proof (cases vs)
    case Nil
    then show ?thesis using \<open>linked st a ([] @ x # vs) b\<close> Nil.prems by (auto simp: bridge_def)
  next
    case (Cons v ws)
    have "linked (bridge p x q st) v ws b \<longleftrightarrow> linked st v ws b"
      using Nil.prems Cons by (intro linked_cong) (auto simp: bridge_def)
    then show ?thesis using Nil.prems Cons by (auto simp: bridge_def)
  qed
next
  case (Cons u us)
  have pu: "p = last (u # us)" using Cons.prems(4) by simp
  then have pin: "p \<in> set (u # us)" by (metis last_in_set list.distinct(1))
  have qin: "q \<in> set vs \<or> q = b" using Cons.prems(5) by (cases vs) auto
  have "linked (bridge p x q st) u (us @ vs) b"
    using Cons.prems pu by (intro Cons.IH) auto
  moreover have "nexts (bridge p x q st) a = u" "prevs (bridge p x q st) u = a"
    using Cons.prems pin qin by (auto simp: bridge_def)
  ultimately show ?case by simp
qed

lemma list_remove_ring:
  assumes "ring st h (us @ x # vs)"
  shows "ring (list_remove x st) h (us @ vs)" "ring (list_remove x st) x []"
proof -
  let ?p = "last (h # us)" and ?q = "hd (vs @ [h])"
  have x: "prevs st x = ?p" "nexts st x = ?q"
    using ring_neighbours[of st h us "x # vs"] ring_neighbours[of st h "us @ [x]" vs] assms by auto
  have d: "distinct (h # us @ x # vs)" using assms by (simp add: ring_def)
  have "?q \<in> set (h # vs)" "?p \<in> set (h # us)" by (cases vs; simp) (cases us rule: rev_cases; simp)
  then have xne: "x \<noteq> ?p" "x \<noteq> ?q" using d by auto
  have r: "list_remove x st = bridge ?p x ?q st"
    using xne by (simp add: list_remove_def bridge_def Let_def x set_next_def set_prev_def del: last.simps)
  show "ring (list_remove x st) x []" by (simp add: r ring_def bridge_def)
  show "ring (list_remove x st) h (us @ vs)"
    using linked_bridge[of st h us x vs h ?p ?q] assms d unfolding r by (simp add: ring_def del: last.simps)
qed

text \<open>A replacement is a removal of the old node's links with the new one put in its place.\<close>

lemma list_replace_ring:
  assumes "ring st h (us @ x # vs)" "new \<notin> set (h # us @ x # vs)"
  shows "ring (list_replace x new st) h (us @ new # vs)"
proof -
  let ?p = "last (h # us)" and ?q = "hd (vs @ [h])"
  have x: "prevs st x = ?p" "nexts st x = ?q"
    using ring_neighbours[of st h us "x # vs"] ring_neighbours[of st h "us @ [x]" vs] assms by auto
  have d: "distinct (h # us @ x # vs)" using assms by (simp add: ring_def)
  have i: "?q \<in> set (h # vs)" "?p \<in> set (h # us)" by (cases vs; simp) (cases us rule: rev_cases; simp)
  then have xne: "x \<noteq> ?p" "x \<noteq> ?q" "new \<noteq> ?p" "new \<noteq> ?q" "new \<noteq> x" using d assms(2) by auto
  have sp: "ring (splice ?p new ?q (list_remove x st)) h (us @ new # vs)"
    using ring_splice[OF list_remove_ring(1)[OF assms(1)], of new ?p ?q] assms(2) by auto
  have "linked (list_replace x new st) h (us @ new # vs) h \<longleftrightarrow>
        linked (splice ?p new ?q (list_remove x st)) h (us @ new # vs) h"
    using d xne i by (intro linked_cong)
      (auto simp: list_replace_def splice_def list_remove_def Let_def x simp del: last.simps)
  then show ?thesis using sp by (simp add: ring_def)
qed

text \<open>
  C23 (list_ops_refine): on a list holding the nodes \<open>xs\<close>, appending, prepending, removing and
  replacing a node change the sequence \<^verbatim>\<open>list_for_each\<close> visits to exactly the expected one, links in both
  directions staying consistent.
\<close>

theorem list_ops_refine:
  assumes "ring st h (us @ x # vs)" "new \<notin> set (h # us @ x # vs)"
  shows "list_for_each h st = Some (us @ x # vs) \<and>
     ring (list_append h new st) h (us @ x # vs @ [new]) \<and> ring (list_prepend h new st) h (new # us @ x # vs) \<and>
     ring (list_insert_after x new st) h (us @ x # new # vs) \<and> ring (list_insert_before x new st) h (us @ new # x # vs) \<and>
     ring (list_remove x st) h (us @ vs) \<and> list_for_each h (list_remove x st) = Some (us @ vs) \<and>
     ring (list_replace x new st) h (us @ new # vs)"
proof (intro conjI)
  show "list_for_each h st = Some (us @ x # vs)" by (rule list_for_each_ring[OF assms(1)])
  show "ring (list_append h new st) h (us @ x # vs @ [new])"
    using list_insert_before_ring[of st h "us @ x # vs" "[]" new] assms by (simp add: list_append_def)
  show "ring (list_prepend h new st) h (new # us @ x # vs)"
    using list_insert_after_ring[of st h "[]" "us @ x # vs" new] assms by (simp add: list_prepend_def)
  show "ring (list_insert_after x new st) h (us @ x # new # vs)"
    using list_insert_after_ring[of st h "us @ [x]" vs new] assms by simp
  show "ring (list_insert_before x new st) h (us @ new # x # vs)"
    using list_insert_before_ring[of st h us "x # vs" new] assms by simp
  show r: "ring (list_remove x st) h (us @ vs)" by (rule list_remove_ring(1)[OF assms(1)])
  show "list_for_each h (list_remove x st) = Some (us @ vs)" by (rule list_for_each_ring[OF r])
  show "ring (list_replace x new st) h (us @ new # vs)" by (rule list_replace_ring[OF assms])
qed

theorem list_ops_refine_witness:
  "list_for_each 1 (list_remove 2 (list_append 1 2 (list_append 1 3 (list_init 1 \<lparr>nexts = id, prevs = id\<rparr>)))) = Some [3]"
proof -
  let ?s = "list_append 1 2 (list_append 1 3 (list_init 1 \<lparr>nexts = id, prevs = id\<rparr>))"
  have "ring ?s 1 ([3] @ 2 # [])" by (simp add: ring_def list_append_def list_init_def list_insert_before_def Let_def)
  from list_ops_refine[OF this, of 4] show ?thesis by simp
qed

end
