(* ===== verification/Gos_Tree.thy ===== *)
theory Gos_Tree
  imports Gos_Prelude
begin

text \<open>
  The red-black tree of \<^verbatim>\<open>lib/rbtree.c\<close>: intrusive nodes with parent, left and right
  pointers in a store, the insertion with its rotations and recolourings, searching and
  in-order stepping. The functional tree a store holds and the context of a node in it (the
  path to the root with the siblings on it) give the specification.
\<close>

section \<open>Nodes, rotations and insertion\<close>

record rb_node =
  parent :: nat
  left :: nat
  right :: nat
  color :: u8

record rb_tree =
  nodes :: "nat \<Rightarrow> rb_node"
  root :: nat
  count :: nat

abbreviation RBTREE_RED :: u8 where "RBTREE_RED \<equiv> 0"
abbreviation RBTREE_BLACK :: u8 where "RBTREE_BLACK \<equiv> 1"

definition rb_upd :: "nat \<Rightarrow> (rb_node \<Rightarrow> rb_node) \<Rightarrow> rb_tree \<Rightarrow> rb_tree" where
  "rb_upd a f s = s\<lparr>nodes := (nodes s)(a := f (nodes s a))\<rparr>"

definition rb_is_red :: "rb_tree \<Rightarrow> nat \<Rightarrow> bool" where
  "rb_is_red s n \<longleftrightarrow> n \<noteq> 0 \<and> color (nodes s n) = RBTREE_RED"

definition rb_set_red :: "nat \<Rightarrow> rb_tree \<Rightarrow> rb_tree" where
  "rb_set_red n s = (if n \<noteq> 0 then rb_upd n (\<lambda>x. x\<lparr>color := RBTREE_RED\<rparr>) s else s)"

definition rb_set_black :: "nat \<Rightarrow> rb_tree \<Rightarrow> rb_tree" where
  "rb_set_black n s = (if n \<noteq> 0 then rb_upd n (\<lambda>x. x\<lparr>color := RBTREE_BLACK\<rparr>) s else s)"

definition rb_rotate_left :: "nat \<Rightarrow> rb_tree \<Rightarrow> rb_tree res" where
  "rb_rotate_left x s =
     (if x = 0 then Inl NullDeref else
      let y = right (nodes s x) in
      if y = 0 then Inl NullDeref else
      let s = rb_upd x (\<lambda>n. n\<lparr>right := left (nodes s y)\<rparr>) s;
          s = (if left (nodes s y) \<noteq> 0 then rb_upd (left (nodes s y)) (\<lambda>n. n\<lparr>parent := x\<rparr>) s else s);
          s = rb_upd y (\<lambda>n. n\<lparr>parent := parent (nodes s x)\<rparr>) s;
          q = parent (nodes s x);
          s = (if q = 0 then s\<lparr>root := y\<rparr>
               else if x = left (nodes s q) then rb_upd q (\<lambda>n. n\<lparr>left := y\<rparr>) s
               else rb_upd q (\<lambda>n. n\<lparr>right := y\<rparr>) s);
          s = rb_upd y (\<lambda>n. n\<lparr>left := x\<rparr>) s
      in Inr (rb_upd x (\<lambda>n. n\<lparr>parent := y\<rparr>) s))"

definition rb_rotate_right :: "nat \<Rightarrow> rb_tree \<Rightarrow> rb_tree res" where
  "rb_rotate_right y s =
     (if y = 0 then Inl NullDeref else
      let x = left (nodes s y) in
      if x = 0 then Inl NullDeref else
      let s = rb_upd y (\<lambda>n. n\<lparr>left := right (nodes s x)\<rparr>) s;
          s = (if right (nodes s x) \<noteq> 0 then rb_upd (right (nodes s x)) (\<lambda>n. n\<lparr>parent := y\<rparr>) s else s);
          s = rb_upd x (\<lambda>n. n\<lparr>parent := parent (nodes s y)\<rparr>) s;
          q = parent (nodes s y);
          s = (if q = 0 then s\<lparr>root := x\<rparr>
               else if y = right (nodes s q) then rb_upd q (\<lambda>n. n\<lparr>right := x\<rparr>) s
               else rb_upd q (\<lambda>n. n\<lparr>left := x\<rparr>) s);
          s = rb_upd x (\<lambda>n. n\<lparr>right := y\<rparr>) s
      in Inr (rb_upd y (\<lambda>n. n\<lparr>parent := x\<rparr>) s))"

definition rb_tree_init :: "rb_tree \<Rightarrow> rb_tree" where
  "rb_tree_init s = s\<lparr>root := 0, count := 0\<rparr>"

text \<open>
  The loops walk pointers, so they are partial: \<^const>\<open>None\<close> is a loop that does not end.
  The comparison of two nodes is a parameter, as in the source.
\<close>

partial_function (option) rb_descend :: "(nat \<Rightarrow> nat \<Rightarrow> int) \<Rightarrow> nat \<Rightarrow> rb_tree \<Rightarrow> nat \<Rightarrow> nat \<Rightarrow> nat option" where
  "rb_descend cmp n s y x =
     (if x = 0 then Some y
      else rb_descend cmp n s x (if cmp n x < 0 then left (nodes s x) else right (nodes s x)))"

text \<open>One pass of the loop that restores the colours.\<close>

definition rb_fix_step :: "nat \<Rightarrow> rb_tree \<Rightarrow> (nat \<times> rb_tree) res" where
  "rb_fix_step n s =
     (let p = parent (nodes s n); g = parent (nodes s p) in
      if g = 0 then Inl NullDeref
      else if p = left (nodes s g) then
        (let y = right (nodes s g) in
         if rb_is_red s y then Inr (g, rb_set_red g (rb_set_black y (rb_set_black p s)))
         else
           res_bind (if n = right (nodes s p) then res_bind (rb_rotate_left p s) (\<lambda>s. Inr (p, s)) else Inr (n, s)) (\<lambda>(n, s).
           let p = parent (nodes s n) in
           if p = 0 then Inl NullDeref else
           let g = parent (nodes s p) in
           res_bind (rb_rotate_right g (rb_set_red g (rb_set_black p s))) (\<lambda>s. Inr (n, s))))
      else
        (let y = left (nodes s g) in
         if rb_is_red s y then Inr (g, rb_set_red g (rb_set_black y (rb_set_black p s)))
         else
           res_bind (if n = left (nodes s p) then res_bind (rb_rotate_right p s) (\<lambda>s. Inr (p, s)) else Inr (n, s)) (\<lambda>(n, s).
           let p = parent (nodes s n) in
           if p = 0 then Inl NullDeref else
           let g = parent (nodes s p) in
           res_bind (rb_rotate_left g (rb_set_red g (rb_set_black p s))) (\<lambda>s. Inr (n, s)))))"

partial_function (option) rb_fixup :: "nat \<Rightarrow> rb_tree \<Rightarrow> rb_tree res option" where
  "rb_fixup n s =
     (if n = root s then Some (Inr s)
      else if n = 0 then Some (Inl NullDeref)
      else if \<not> rb_is_red s (parent (nodes s n)) then Some (Inr s)
      else case rb_fix_step n s of Inl e \<Rightarrow> Some (Inl e) | Inr r \<Rightarrow> rb_fixup (fst r) (snd r))"

definition rb_insert :: "(nat \<Rightarrow> nat \<Rightarrow> int) \<Rightarrow> nat \<Rightarrow> rb_tree \<Rightarrow> rb_tree res option" where
  "rb_insert cmp n s =
     (if n = 0 then Some (Inl NullDeref) else
      let s = rb_upd n (\<lambda>x. x\<lparr>left := 0, right := 0, color := RBTREE_RED\<rparr>) s in
      case rb_descend cmp n s 0 (root s) of None \<Rightarrow> None
      | Some y \<Rightarrow>
          (let s = rb_upd n (\<lambda>x. x\<lparr>parent := y\<rparr>) s;
               s = (if y = 0 then s\<lparr>root := n\<rparr>
                    else if cmp n y < 0 then rb_upd y (\<lambda>x. x\<lparr>left := n\<rparr>) s
                    else rb_upd y (\<lambda>x. x\<lparr>right := n\<rparr>) s);
               s = s\<lparr>count := inc64 (count s)\<rparr>
           in map_option (\<lambda>r. res_bind r (\<lambda>s. Inr (rb_set_black (root s) s))) (rb_fixup n s)))"

definition rb_remove :: "nat \<Rightarrow> rb_tree \<Rightarrow> rb_tree" where
  "rb_remove z s = s\<lparr>count := dec64 (count s)\<rparr>"

section \<open>Searching and stepping\<close>

partial_function (option) rb_search_from :: "(nat \<Rightarrow> nat \<Rightarrow> int) \<Rightarrow> nat \<Rightarrow> rb_tree \<Rightarrow> nat \<Rightarrow> nat option" where
  "rb_search_from cmp key s x =
     (if x = 0 then Some 0
      else let c = cmp key x in
        if c = 0 then Some x
        else rb_search_from cmp key s (if c < 0 then left (nodes s x) else right (nodes s x)))"

definition rb_search :: "(nat \<Rightarrow> nat \<Rightarrow> int) \<Rightarrow> nat \<Rightarrow> rb_tree \<Rightarrow> nat option" where
  "rb_search cmp key s = rb_search_from cmp key s (root s)"

partial_function (option) rb_leftmost :: "rb_tree \<Rightarrow> nat \<Rightarrow> nat option" where
  "rb_leftmost s x = (if x \<noteq> 0 \<and> left (nodes s x) \<noteq> 0 then rb_leftmost s (left (nodes s x)) else Some x)"

partial_function (option) rb_rightmost :: "rb_tree \<Rightarrow> nat \<Rightarrow> nat option" where
  "rb_rightmost s x = (if x \<noteq> 0 \<and> right (nodes s x) \<noteq> 0 then rb_rightmost s (right (nodes s x)) else Some x)"

definition rb_min :: "rb_tree \<Rightarrow> nat option" where
  "rb_min s = rb_leftmost s (root s)"

definition rb_max :: "rb_tree \<Rightarrow> nat option" where
  "rb_max s = rb_rightmost s (root s)"

partial_function (option) rb_climb_right :: "rb_tree \<Rightarrow> nat \<Rightarrow> nat \<Rightarrow> nat option" where
  "rb_climb_right s x y = (if y \<noteq> 0 \<and> x = right (nodes s y) then rb_climb_right s y (parent (nodes s y)) else Some y)"

partial_function (option) rb_climb_left :: "rb_tree \<Rightarrow> nat \<Rightarrow> nat \<Rightarrow> nat option" where
  "rb_climb_left s x y = (if y \<noteq> 0 \<and> x = left (nodes s y) then rb_climb_left s y (parent (nodes s y)) else Some y)"

text \<open>The argument of the two steps is a node, not \<^verbatim>\<open>NULL\<close>.\<close>

definition rb_next :: "rb_tree \<Rightarrow> nat \<Rightarrow> nat res option" where
  "rb_next s x =
     (if x = 0 then Some (Inl NullDeref)
      else map_option Inr (if right (nodes s x) \<noteq> 0 then rb_leftmost s (right (nodes s x))
                           else rb_climb_right s x (parent (nodes s x))))"

definition rb_prev :: "rb_tree \<Rightarrow> nat \<Rightarrow> nat res option" where
  "rb_prev s x =
     (if x = 0 then Some (Inl NullDeref)
      else map_option Inr (if left (nodes s x) \<noteq> 0 then rb_rightmost s (left (nodes s x))
                           else rb_climb_left s x (parent (nodes s x))))"

section \<open>The tree a store holds\<close>

datatype rbt = Lf | Nd rbt nat u8 rbt

fun inord :: "rbt \<Rightarrow> nat list" where
  "inord Lf = []"
| "inord (Nd l a c r) = inord l @ a # inord r"

text \<open>\<open>tree_at h q p t\<close>: the pointer \<open>p\<close>, held by the node \<open>q\<close>, points to the tree \<open>t\<close>.\<close>

fun tree_at :: "(nat \<Rightarrow> rb_node) \<Rightarrow> nat \<Rightarrow> nat \<Rightarrow> rbt \<Rightarrow> bool" where
  "tree_at h q p Lf \<longleftrightarrow> p = 0"
| "tree_at h q p (Nd l a c r) \<longleftrightarrow> p = a \<and> a \<noteq> 0 \<and> parent (h a) = q \<and> color (h a) = c \<and>
     tree_at h a (left (h a)) l \<and> tree_at h a (right (h a)) r"

text \<open>The context of a subtree: the nodes above it with their other subtree, innermost first.\<close>

datatype frame = LF nat u8 rbt | RF rbt nat u8

fun up :: "frame list \<Rightarrow> nat" where
  "up [] = 0"
| "up (LF a c r # fs) = a"
| "up (RF l a c # fs) = a"

fun ctx_at :: "(nat \<Rightarrow> rb_node) \<Rightarrow> nat \<Rightarrow> nat \<Rightarrow> frame list \<Rightarrow> bool" where
  "ctx_at h rt p [] \<longleftrightarrow> rt = p"
| "ctx_at h rt p (LF a c r # fs) \<longleftrightarrow> a \<noteq> 0 \<and> left (h a) = p \<and> parent (h a) = up fs \<and> color (h a) = c \<and>
     tree_at h a (right (h a)) r \<and> ctx_at h rt a fs"
| "ctx_at h rt p (RF l a c # fs) \<longleftrightarrow> a \<noteq> 0 \<and> right (h a) = p \<and> parent (h a) = up fs \<and> color (h a) = c \<and>
     tree_at h a (left (h a)) l \<and> ctx_at h rt a fs"

fun plug :: "rbt \<Rightarrow> frame list \<Rightarrow> rbt" where
  "plug t [] = t"
| "plug t (LF a c r # fs) = plug (Nd t a c r) fs"
| "plug t (RF l a c # fs) = plug (Nd l a c t) fs"

text \<open>The nodes before and after the hole.\<close>

fun before :: "frame list \<Rightarrow> nat list" where
  "before [] = []"
| "before (LF a c r # fs) = before fs"
| "before (RF l a c # fs) = before fs @ inord l @ [a]"

fun after :: "frame list \<Rightarrow> nat list" where
  "after [] = []"
| "after (LF a c r # fs) = a # inord r @ after fs"
| "after (RF l a c # fs) = after fs"

definition focus :: "rb_tree \<Rightarrow> nat \<Rightarrow> rbt \<Rightarrow> frame list \<Rightarrow> bool" where
  "focus s p t fs \<longleftrightarrow> tree_at (nodes s) (up fs) p t \<and> ctx_at (nodes s) (root s) p fs \<and>
     distinct (before fs @ inord t @ after fs)"

definition rb_holds :: "rb_tree \<Rightarrow> rbt \<Rightarrow> bool" where
  "rb_holds s t \<longleftrightarrow> tree_at (nodes s) 0 (root s) t \<and> distinct (inord t)"

lemma inord_plug: "inord (plug t fs) = before fs @ inord t @ after fs"
  by (induction t fs rule: plug.induct) auto

lemma tree_at_root: "tree_at h q p t \<Longrightarrow> p \<noteq> 0 \<Longrightarrow> p \<in> set (inord t)"
  by (cases t) auto

lemma tree_at_pos: "tree_at h q p t \<Longrightarrow> 0 \<notin> set (inord t)"
  by (induction t arbitrary: q p) auto

lemma up_in: "fs \<noteq> [] \<Longrightarrow> up fs \<in> set (before fs @ after fs)"
  by (cases fs rule: up.cases) auto

lemma ctx_at_pos: "ctx_at h rt p fs \<Longrightarrow> 0 \<notin> set (before fs @ after fs)"
  by (induction h rt p fs rule: ctx_at.induct) (auto dest: tree_at_pos)

lemma tree_at_upd [simp]: "z \<notin> set (inord t) \<Longrightarrow> tree_at (h(z := v)) q p t = tree_at h q p t"
  by (induction t arbitrary: q p) auto

lemma ctx_at_upd [simp]: "z \<notin> set (before fs) \<Longrightarrow> z \<notin> set (after fs) \<Longrightarrow> ctx_at (h(z := v)) rt p fs = ctx_at h rt p fs"
  by (induction h rt p fs rule: ctx_at.induct) auto

lemma focus_LF: "focus s p t (LF a c r # fs) \<longleftrightarrow> focus s a (Nd t a c r) fs \<and> left (nodes s a) = p"
  by (auto simp: focus_def)

lemma focus_RF: "focus s p t (RF l a c # fs) \<longleftrightarrow> focus s a (Nd l a c t) fs \<and> right (nodes s a) = p"
  by (auto simp: focus_def)

lemma focus_holds: "focus s p t [] \<longleftrightarrow> rb_holds s t \<and> root s = p"
  by (auto simp: focus_def rb_holds_def)

lemma focus_plug: "focus s p t fs \<Longrightarrow> rb_holds s (plug t fs)"
  by (induction t fs arbitrary: p rule: plug.induct) (auto simp: focus_LF focus_RF focus_holds)

section \<open>Rotations\<close>

text \<open>The two pointer updates a rotation shares: a subtree gets a new parent, and its parent a new child.\<close>

definition reparent :: "nat \<Rightarrow> nat \<Rightarrow> (nat \<Rightarrow> rb_node) \<Rightarrow> nat \<Rightarrow> rb_node" where
  "reparent p q h = (if p \<noteq> 0 then h(p := (h p)\<lparr>parent := q\<rparr>) else h)"

definition relink :: "nat \<Rightarrow> nat \<Rightarrow> nat \<Rightarrow> (nat \<Rightarrow> rb_node) \<Rightarrow> nat \<Rightarrow> rb_node" where
  "relink q x y h = (if q = 0 then h else if x = left (h q) then h(q := (h q)\<lparr>left := y\<rparr>) else h(q := (h q)\<lparr>right := y\<rparr>))"

lemma reparent_other [simp]: "z \<noteq> p \<or> p = 0 \<Longrightarrow> reparent p q h z = h z"
  by (auto simp: reparent_def)

lemma reparent_sel [simp]: "left (reparent p q h z) = left (h z)" "right (reparent p q h z) = right (h z)"
  "color (reparent p q h z) = color (h z)"
  by (auto simp: reparent_def)

lemma relink_other [simp]: "z \<noteq> q \<or> q = 0 \<Longrightarrow> relink q x y h z = h z"
  by (auto simp: relink_def)

lemma tree_at_other [simp]: "p \<notin> set (inord t) \<or> p = 0 \<Longrightarrow> tree_at (reparent p q h) q' p' t = tree_at h q' p' t"
  "q \<notin> set (inord t) \<or> q = 0 \<Longrightarrow> tree_at (relink q x y h) q' p' t = tree_at h q' p' t"
  by (auto simp: reparent_def relink_def)

lemma ctx_at_other [simp]: "p \<notin> set (before fs) \<and> p \<notin> set (after fs) \<or> p = 0 \<Longrightarrow> ctx_at (reparent p q h) rt p' fs = ctx_at h rt p' fs"
  by (auto simp: reparent_def)

lemma tree_at_reparent: "tree_at h q p t \<Longrightarrow> distinct (inord t) \<Longrightarrow> tree_at (reparent p q' h) q' p t"
  by (cases t) (auto simp: reparent_def)

lemma ctx_at_relink:
  assumes "ctx_at h rt x fs" "distinct (before fs @ after fs)" "x \<noteq> 0" "x \<notin> set (before fs @ after fs)"
  shows "ctx_at (relink (up fs) x y h) (if up fs = 0 then y else rt) y fs"
proof (cases fs rule: up.cases)
  case (3 l a c gs)
  then have "x \<noteq> left (h a)" using assms tree_at_root by fastforce
  then show ?thesis using 3 assms by (auto simp: relink_def)
qed (use assms in \<open>auto simp: relink_def\<close>)

lemma rotate_left_eq:
  assumes "x \<noteq> 0" "right (nodes s x) = y" "y \<noteq> 0" "y \<noteq> x" "left (nodes s y) = b" "b \<noteq> x"
    "parent (nodes s x) = q"
  and h: "h1 = (nodes s)(x := (nodes s x)\<lparr>right := b\<rparr>)" "h2 = reparent b x h1" "h3 = h2(y := (h2 y)\<lparr>parent := q\<rparr>)"
    "h4 = relink q x y h3" "h5 = h4(y := (h4 y)\<lparr>left := x\<rparr>)" "h6 = h5(x := (h5 x)\<lparr>parent := y\<rparr>)"
  shows "rb_rotate_left x s = Inr (s\<lparr>nodes := h6, root := if q = 0 then y else root s\<rparr>)"
proof -
  define s1 where "s1 = rb_upd x (\<lambda>n. n\<lparr>right := left (nodes s y)\<rparr>) s"
  define s2 where "s2 = (if left (nodes s1 y) \<noteq> 0 then rb_upd (left (nodes s1 y)) (\<lambda>n. n\<lparr>parent := x\<rparr>) s1 else s1)"
  define s3 where "s3 = rb_upd y (\<lambda>n. n\<lparr>parent := parent (nodes s2 x)\<rparr>) s2"
  define s4 where "s4 = (if parent (nodes s3 x) = 0 then s3\<lparr>root := y\<rparr>
    else if x = left (nodes s3 (parent (nodes s3 x))) then rb_upd (parent (nodes s3 x)) (\<lambda>n. n\<lparr>left := y\<rparr>) s3
    else rb_upd (parent (nodes s3 x)) (\<lambda>n. n\<lparr>right := y\<rparr>) s3)"
  define s5 where "s5 = rb_upd y (\<lambda>n. n\<lparr>left := x\<rparr>) s4"
  have "rb_rotate_left x s = Inr (rb_upd x (\<lambda>n. n\<lparr>parent := y\<rparr>) s5)"
    using assms(1,3) unfolding rb_rotate_left_def assms(2) s5_def s4_def s3_def s2_def s1_def by (simp only: Let_def if_False)
  moreover have 1: "s1 = s\<lparr>nodes := h1\<rparr>" using assms(5) by (simp add: s1_def h(1) rb_upd_def)
  then have 2: "s2 = s\<lparr>nodes := h2\<rparr>" using assms(4,5) by (simp add: s2_def h(1,2) rb_upd_def reparent_def)
  then have 3: "s3 = s\<lparr>nodes := h3\<rparr>" using assms(6,7) by (simp add: s3_def h(1-3) rb_upd_def)
  then have p: "parent (nodes s3 x) = q" using assms(4,6,7) by (simp add: h(1-3))
  have "s4 = s\<lparr>nodes := h4, root := if q = 0 then y else root s\<rparr>" unfolding s4_def p h(4) by (auto simp: 3 rb_upd_def relink_def)
  then have "s5 = s\<lparr>nodes := h5, root := if q = 0 then y else root s\<rparr>" by (simp add: s5_def h(5) rb_upd_def)
  ultimately show ?thesis by (simp add: h(6) rb_upd_def)
qed

lemma rotate_left_focus:
  assumes "focus s x (Nd a x cx (Nd b y cy c)) fs"
  shows "\<exists>s'. rb_rotate_left x s = Inr s' \<and> focus s' y (Nd (Nd a x cx b) y cy c) fs \<and> count s' = count s"
proof -
  let ?h = "nodes s" let ?b = "left (nodes s y)" let ?q = "up fs"
  have t: "x \<noteq> 0" "y \<noteq> 0" "right (?h x) = y" "parent (?h x) = ?q" "color (?h x) = cx" "color (?h y) = cy" "parent (?h y) = x"
      "tree_at ?h x (left (?h x)) a" "tree_at ?h y ?b b" "tree_at ?h y (right (?h y)) c" "ctx_at ?h (root s) x fs"
    and d: "distinct (before fs @ inord (Nd a x cx (Nd b y cy c)) @ after fs)"
    using assms by (auto simp: focus_def)
  have z: "0 \<notin> set (before fs)" "0 \<notin> set (after fs)" using ctx_at_pos[OF t(11)] by auto
  have b: "?b = 0 \<or> ?b \<in> set (inord b)" using tree_at_root[OF t(9)] by blast
  have q: "?q = 0 \<or> ?q \<in> set (before fs @ after fs)" using up_in[of fs] by (cases fs) auto
  have ne: "y \<noteq> x" "?b \<noteq> x" "?b \<noteq> y" "?q \<noteq> x" "?q \<noteq> y" "?q = 0 \<or> ?q \<noteq> ?b" using b q d t(1,2) by auto
  note o = ctx_at_relink[where x = x and y = y]
  let ?h2 = "reparent ?b x (?h(x := (?h x)\<lparr>right := ?b\<rparr>))"
  let ?h3 = "?h2(y := (?h2 y)\<lparr>parent := ?q\<rparr>)"
  let ?h4 = "relink ?q x y ?h3"
  let ?h5 = "?h4(y := (?h4 y)\<lparr>left := x\<rparr>)"
  let ?h6 = "?h5(x := (?h5 x)\<lparr>parent := y\<rparr>)"
  let ?s = "s\<lparr>nodes := ?h6, root := if ?q = 0 then y else root s\<rparr>"
  have r: "rb_rotate_left x s = Inr ?s"
    by (rule rotate_left_eq[OF t(1,3,2) ne(1) refl ne(2) t(4) refl refl refl refl refl refl])
  have tb: "tree_at ?h2 x ?b b" using t(9) d b by (intro tree_at_reparent) auto
  have R: "ctx_at (reparent ?b x h) rt p fs = ctx_at h rt p fs" "tree_at (reparent ?b x h) q p a = tree_at h q p a"
    "tree_at (reparent ?b x h) q p c = tree_at h q p c" for h rt q p
    using b d by (intro ctx_at_other tree_at_other(1); auto)+
  have Q: "tree_at (relink ?q x y h) q p a = tree_at h q p a" "tree_at (relink ?q x y h) q p b = tree_at h q p b"
    "tree_at (relink ?q x y h) q p c = tree_at h q p c" for h q p
    using q d by (intro tree_at_other(2); auto)+
  have m: "x \<notin> set (before fs)" "x \<notin> set (after fs)" "y \<notin> set (before fs)" "y \<notin> set (after fs)"
    "x \<notin> set (inord a)" "x \<notin> set (inord b)" "x \<notin> set (inord c)" "y \<notin> set (inord a)" "y \<notin> set (inord b)" "y \<notin> set (inord c)"
    using d by auto
  have c3: "ctx_at ?h3 (root s) x fs" using t(11) m by (simp add: R del: reparent_other)
  have c4: "ctx_at ?h4 (if ?q = 0 then y else root s) y fs" by (rule o[OF c3]) (use d t(1) in auto)
  have "tree_at ?h6 ?q y (Nd (Nd a x cx b) y cy c)"
    using tb t(1-10) ne m by (simp add: R Q)
  moreover have "ctx_at ?h6 (if ?q = 0 then y else root s) y fs" using c4 m by simp
  ultimately have "focus ?s y (Nd (Nd a x cx b) y cy c) fs" using d by (simp add: focus_def)
  then show ?thesis using r by auto
qed

section \<open>Symmetry\<close>

text \<open>The right-handed code is the left-handed code with the two sides of every node exchanged.\<close>

definition flip :: "rb_node \<Rightarrow> rb_node" where
  "flip n = n\<lparr>left := right n, right := left n\<rparr>"

definition mirror :: "rb_tree \<Rightarrow> rb_tree" where
  "mirror s = s\<lparr>nodes := flip \<circ> nodes s\<rparr>"

fun mir :: "rbt \<Rightarrow> rbt" where
  "mir Lf = Lf"
| "mir (Nd l a c r) = Nd (mir r) a c (mir l)"

fun mirf :: "frame \<Rightarrow> frame" where
  "mirf (LF a c r) = RF (mir r) a c"
| "mirf (RF l a c) = LF a c (mir l)"

lemma flip_sel [simp]: "left (flip n) = right n" "right (flip n) = left n" "parent (flip n) = parent n" "color (flip n) = color n"
  "flip (flip n) = n"
  by (simp_all add: flip_def)

lemma mirror_sel [simp]: "nodes (mirror s) a = flip (nodes s a)" "root (mirror s) = root s" "count (mirror s) = count s"
  by (simp_all add: mirror_def)

lemma mirror_mirror [simp]: "mirror (mirror s) = s"
  by (simp add: mirror_def comp_def)

lemma mir_mir [simp]: "mir (mir t) = t"
  by (induction t) simp_all

lemma mirf_mirf [simp]: "mirf (mirf f) = f"
  by (cases f) simp_all

lemma inord_mir [simp]: "inord (mir t) = rev (inord t)"
  by (induction t) simp_all

lemma up_mir [simp]: "up (map mirf fs) = up fs"
  by (cases fs rule: up.cases) simp_all

lemma before_mir [simp]: "before (map mirf fs) = rev (after fs)" "after (map mirf fs) = rev (before fs)"
  by (induction fs rule: before.induct) simp_all

lemma tree_at_mir [simp]: "tree_at (\<lambda>a. flip (h a)) q p (mir t) = tree_at h q p t"
  by (induction t arbitrary: q p) auto

lemma ctx_at_mir [simp]: "ctx_at (\<lambda>a. flip (h a)) rt p (map mirf fs) = ctx_at h rt p fs"
  by (induction h rt p fs rule: ctx_at.induct) auto

lemma focus_mir: "focus (mirror s) p (mir t) (map mirf fs) = focus s p t fs"
proof -
  have "nodes (mirror s) = (\<lambda>a. flip (nodes s a))" by (simp add: fun_eq_iff)
  moreover have "distinct (rev (after fs) @ rev (inord t) @ rev (before fs)) = distinct (before fs @ inord t @ after fs)" by auto
  ultimately show ?thesis by (simp add: focus_def)
qed

lemma mirror_upd:
  "rb_upd a (\<lambda>n. n\<lparr>left := v\<rparr>) (mirror s) = mirror (rb_upd a (\<lambda>n. n\<lparr>right := v\<rparr>) s)"
  "rb_upd a (\<lambda>n. n\<lparr>right := v\<rparr>) (mirror s) = mirror (rb_upd a (\<lambda>n. n\<lparr>left := v\<rparr>) s)"
  "rb_upd a (\<lambda>n. n\<lparr>parent := v\<rparr>) (mirror s) = mirror (rb_upd a (\<lambda>n. n\<lparr>parent := v\<rparr>) s)"
  "rb_upd a (\<lambda>n. n\<lparr>color := c\<rparr>) (mirror s) = mirror (rb_upd a (\<lambda>n. n\<lparr>color := c\<rparr>) s)"
  "(mirror s)\<lparr>root := v\<rparr> = mirror (s\<lparr>root := v\<rparr>)"
  by (simp_all add: rb_upd_def mirror_def fun_eq_iff flip_def)

lemma mirror_colour: "rb_set_red a (mirror s) = mirror (rb_set_red a s)" "rb_set_black a (mirror s) = mirror (rb_set_black a s)"
  "rb_is_red (mirror s) a = rb_is_red s a"
  by (simp_all add: rb_set_red_def rb_set_black_def rb_is_red_def mirror_upd)

lemma let_mirror: "a' = mirror a \<Longrightarrow> (\<And>s. g (mirror s) = M (f s)) \<Longrightarrow> Let a' g = M (Let a f)"
  by (simp add: Let_def)

lemma let_same: "a' = a \<Longrightarrow> (\<And>v. g v = M (f v)) \<Longrightarrow> Let a' g = M (Let a (f :: nat \<Rightarrow> 'b))"
  by (simp add: Let_def)

lemma if_same: "(\<not> b \<Longrightarrow> g = M f) \<Longrightarrow> e = M e' \<Longrightarrow> (if b then e else g) = M (if b then e' else f)"
  by simp

lemma rotate_mirror: "rb_rotate_left y (mirror s) = map_sum id mirror (rb_rotate_right y s)"
  unfolding rb_rotate_left_def rb_rotate_right_def
  by (rule if_same[where M = "map_sum id mirror"] let_same let_mirror | (auto simp: mirror_upd; fail))+

lemma rotate_right_focus:
  assumes "focus s y (Nd (Nd a x cx b) y cy c) fs"
  shows "\<exists>s'. rb_rotate_right y s = Inr s' \<and> focus s' x (Nd a x cx (Nd b y cy c)) fs \<and> count s' = count s"
proof -
  have "focus (mirror s) y (Nd (mir c) y cy (Nd (mir b) x cx (mir a))) (map mirf fs)"
    using assms focus_mir[of s y "Nd (Nd a x cx b) y cy c" fs] by simp
  from rotate_left_focus[OF this] obtain s' where
    s': "rb_rotate_left y (mirror s) = Inr s'" "focus s' x (Nd (Nd (mir c) y cy (mir b)) x cx (mir a)) (map mirf fs)"
      "count s' = count s" by auto
  then have "rb_rotate_right y s = Inr (mirror s')" using rotate_mirror[of y s] by (cases "rb_rotate_right y s") auto
  moreover have "focus (mirror s') x (Nd a x cx (Nd b y cy c)) fs"
    using s'(2) focus_mir[of "mirror s'" x "Nd a x cx (Nd b y cy c)" fs] by simp
  ultimately show ?thesis using s'(3) by simp
qed

section \<open>Colours\<close>

fun recol :: "nat \<Rightarrow> u8 \<Rightarrow> rbt \<Rightarrow> rbt" where
  "recol a c Lf = Lf"
| "recol a c (Nd l x d r) = Nd (recol a c l) x (if x = a then c else d) (recol a c r)"

definition redt :: "rbt \<Rightarrow> bool" where
  "redt t \<longleftrightarrow> (case t of Lf \<Rightarrow> False | Nd l a c r \<Rightarrow> c = RBTREE_RED)"

lemma redt_simps [simp]: "\<not> redt Lf" "redt (Nd l a c r) \<longleftrightarrow> c = RBTREE_RED"
  by (simp_all add: redt_def)

lemma recol_id [simp]: "a \<notin> set (inord t) \<Longrightarrow> recol a c t = t"
  by (induction t) auto

lemma inord_recol [simp]: "inord (recol a c t) = inord t"
  by (induction t) auto

lemma tree_at_recol: "tree_at h q p t \<Longrightarrow> tree_at (h(a := (h a)\<lparr>color := c\<rparr>)) q p (recol a c t)"
  by (induction t arbitrary: q p) auto

lemma focus_recol:
  assumes "focus s p t fs" "a \<in> set (inord t)"
  shows "focus (rb_set_black a s) p (recol a RBTREE_BLACK t) fs" "focus (rb_set_red a s) p (recol a RBTREE_RED t) fs"
proof -
  have "a \<noteq> 0" "a \<notin> set (before fs)" "a \<notin> set (after fs)" using assms tree_at_pos by (fastforce simp: focus_def)+
  then show "focus (rb_set_black a s) p (recol a RBTREE_BLACK t) fs" "focus (rb_set_red a s) p (recol a RBTREE_RED t) fs"
    using assms(1) by (auto simp: focus_def rb_set_black_def rb_set_red_def rb_upd_def tree_at_recol)
qed

lemma focus_red: "focus s p t fs \<Longrightarrow> rb_is_red s p = redt t"
  by (cases t) (auto simp: focus_def rb_is_red_def)

lemma focus_distinct: "focus s p t fs \<Longrightarrow> distinct (inord t)"
  by (simp add: focus_def)

lemma focus_self: "focus s p (Nd l a c r) fs \<Longrightarrow> p = a \<and> a \<noteq> 0 \<and> parent (nodes s a) = up fs \<and>
    focus s (left (nodes s a)) l (LF a c r # fs) \<and> focus s (right (nodes s a)) r (RF l a c # fs)"
  by (auto simp: focus_def)

lemma count_colour [simp]: "count (rb_set_red a s) = count s" "count (rb_set_black a s) = count s"
  by (simp_all add: rb_set_red_def rb_set_black_def rb_upd_def)

section \<open>One pass of the loop\<close>

lemma step_recolour:
  assumes F: "focus s g (Nd P g cg (Nd ul y RBTREE_RED ur)) fs" "P = Nd l p RBTREE_RED r"
    and n: "parent (nodes s n) = p"
  shows "\<exists>s'. rb_fix_step n s = Inr (g, s') \<and> focus s' g (Nd (Nd l p RBTREE_BLACK r) g RBTREE_RED (Nd ul y RBTREE_BLACK ur)) fs \<and> count s' = count s"
proof -
  have d: "distinct (inord (Nd P g cg (Nd ul y RBTREE_RED ur)))" by (rule focus_distinct[OF F(1)])
  let ?s = "rb_set_red g (rb_set_black y (rb_set_black p s))"
  have "focus ?s g (recol g RBTREE_RED (recol y RBTREE_BLACK (recol p RBTREE_BLACK (Nd P g cg (Nd ul y RBTREE_RED ur))))) fs"
    by (intro focus_recol F) (simp_all add: F(2))
  moreover have "recol g RBTREE_RED (recol y RBTREE_BLACK (recol p RBTREE_BLACK (Nd P g cg (Nd ul y RBTREE_RED ur)))) =
      Nd (Nd l p RBTREE_BLACK r) g RBTREE_RED (Nd ul y RBTREE_BLACK ur)" using d F(2) by auto
  moreover have "rb_fix_step n s = Inr (g, ?s)"
    using focus_self[OF F(1)] F n by (auto simp: rb_fix_step_def Let_def focus_def rb_is_red_def)
  ultimately show ?thesis by simp
qed

lemma step_outer:
  assumes F: "focus s g (Nd (Nd t p RBTREE_RED r) g cg u) fs" and u: "\<not> redt u"
    and n: "n = left (nodes s p)" "parent (nodes s n) = p" "n \<noteq> 0"
  shows "\<exists>s'. rb_fix_step n s = Inr (n, s') \<and> focus s' p (Nd t p RBTREE_BLACK (Nd r g RBTREE_RED u)) fs \<and> count s' = count s"
proof -
  have d: "distinct (inord (Nd (Nd t p RBTREE_RED r) g cg u))" by (rule focus_distinct[OF F])
  let ?s = "rb_set_red g (rb_set_black p s)"
  have "focus ?s g (recol g RBTREE_RED (recol p RBTREE_BLACK (Nd (Nd t p RBTREE_RED r) g cg u))) fs"
    by (intro focus_recol F) simp_all
  moreover have "recol g RBTREE_RED (recol p RBTREE_BLACK (Nd (Nd t p RBTREE_RED r) g cg u)) =
      Nd (Nd t p RBTREE_BLACK r) g RBTREE_RED u" using d by auto
  ultimately obtain s' where s': "rb_rotate_right g ?s = Inr s'" "focus s' p (Nd t p RBTREE_BLACK (Nd r g RBTREE_RED u)) fs" "count s' = count s"
    using rotate_right_focus[of ?s g t p RBTREE_BLACK r RBTREE_RED u fs] by auto
  have g: "g \<noteq> 0" "p \<noteq> 0" "parent (nodes s p) = g" "left (nodes s g) = p" "focus s (right (nodes s g)) u (RF (Nd t p RBTREE_RED r) g cg # fs)"
    using F focus_self[OF F] by (auto simp: focus_def)
  have "n \<noteq> right (nodes s p)"
  proof
    assume e: "n = right (nodes s p)"
    have "tree_at (nodes s) p n t" "tree_at (nodes s) p n r" using F n(1) e by (auto simp: focus_def)
    then have "n \<in> set (inord t)" "n \<in> set (inord r)" using tree_at_root n(3) by blast+
    then show False using d by auto
  qed
  then have "rb_fix_step n s = Inr (n, s')"
    using g n s'(1) u focus_red[OF g(5)] by (simp add: rb_fix_step_def Let_def)
  then show ?thesis using s' by auto
qed

lemma step_inner:
  assumes F: "focus s g (Nd (Nd l p RBTREE_RED (Nd a n cn b)) g cg u) fs" and u: "\<not> redt u"
  shows "\<exists>s'. rb_fix_step n s = Inr (p, s') \<and>
    focus s' n (Nd (Nd l p RBTREE_RED a) n RBTREE_BLACK (Nd b g RBTREE_RED u)) fs \<and> count s' = count s"
proof -
  have g: "g \<noteq> 0" "p \<noteq> 0" "parent (nodes s p) = g" "left (nodes s g) = p" "parent (nodes s n) = p" "right (nodes s p) = n"
    "focus s (right (nodes s g)) u (RF (Nd l p RBTREE_RED (Nd a n cn b)) g cg # fs)"
    and P: "focus s p (Nd l p RBTREE_RED (Nd a n cn b)) (LF g cg u # fs)"
    using F focus_self[OF F] by (auto simp: focus_def)
  from rotate_left_focus[OF P] obtain s1 where s1: "rb_rotate_left p s = Inr s1"
    "focus s1 n (Nd (Nd l p RBTREE_RED a) n cn b) (LF g cg u # fs)" "count s1 = count s" by blast
  then have G: "focus s1 g (Nd (Nd (Nd l p RBTREE_RED a) n cn b) g cg u) fs" by (simp add: focus_LF)
  have n: "parent (nodes s1 p) = n" "parent (nodes s1 n) = g" "n \<noteq> 0" using s1(2) by (auto simp: focus_def)
  have d: "distinct (inord (Nd (Nd (Nd l p RBTREE_RED a) n cn b) g cg u))" by (rule focus_distinct[OF G])
  let ?s = "rb_set_red g (rb_set_black n s1)"
  have "focus ?s g (recol g RBTREE_RED (recol n RBTREE_BLACK (Nd (Nd (Nd l p RBTREE_RED a) n cn b) g cg u))) fs"
    by (intro focus_recol G) simp_all
  moreover have "recol g RBTREE_RED (recol n RBTREE_BLACK (Nd (Nd (Nd l p RBTREE_RED a) n cn b) g cg u)) =
      Nd (Nd (Nd l p RBTREE_RED a) n RBTREE_BLACK b) g RBTREE_RED u" using d by auto
  ultimately obtain s' where s': "rb_rotate_right g ?s = Inr s'"
    "focus s' n (Nd (Nd l p RBTREE_RED a) n RBTREE_BLACK (Nd b g RBTREE_RED u)) fs" "count s' = count s"
    using rotate_right_focus[of ?s g "Nd l p RBTREE_RED a" n RBTREE_BLACK b RBTREE_RED u fs] s1(3) by auto
  have "rb_fix_step n s = Inr (p, s')"
    using g n s'(1) s1(1) u focus_red[OF g(7)] by (simp add: rb_fix_step_def Let_def)
  then show ?thesis using s' by auto
qed

text \<open>The pass on the right-hand side, from its mirror image.\<close>

lemma rotate_mirror': "rb_rotate_right y (mirror s) = map_sum id mirror (rb_rotate_left y s)"
  using rotate_mirror[of y "mirror s"] by (cases "rb_rotate_right y (mirror s)") auto

lemma bind_mirror:
  assumes "\<And>s. k' (mirror s) = map_sum id f (k s)"
  shows "res_bind (map_sum id mirror r) k' = map_sum id f (res_bind r k)"
  by (cases r) (simp_all add: assms)

lemma step_mirror:
  assumes "parent (nodes s (parent (nodes s n))) = g" "right (nodes s g) = parent (nodes s n)" "left (nodes s g) \<noteq> right (nodes s g)"
  shows "rb_fix_step n (mirror s) = map_sum id (\<lambda>(n, s). (n, mirror s)) (rb_fix_step n s)"
proof -
  let ?f = "\<lambda>(n, s). (n, mirror s)" let ?p = "parent (nodes s n)"
  define k' where "k' = (\<lambda>(n, s). let p = parent (nodes s n) in if p = 0 then Inl NullDeref else let g = parent (nodes s p) in
      res_bind (rb_rotate_right g (rb_set_red g (rb_set_black p s))) (\<lambda>s. Inr (n, s)))"
  define k where "k = (\<lambda>(n, s). let p = parent (nodes s n) in if p = 0 then Inl NullDeref else let g = parent (nodes s p) in
      res_bind (rb_rotate_left g (rb_set_red g (rb_set_black p s))) (\<lambda>s. Inr (n, s)))"
  have k: "k' (m, mirror u) = map_sum id ?f (k (m, u))" for m u
    by (simp add: k_def k'_def Let_def mirror_colour rotate_mirror') (intro impI bind_mirror, simp)
  have e: "res_bind (rb_rotate_left ?p (mirror s)) (\<lambda>s. k' (?p, s)) = map_sum id ?f (res_bind (rb_rotate_right ?p s) (\<lambda>s. k (?p, s)))"
    by (simp add: rotate_mirror bind_mirror k)
  have b: "res_bind (res_bind r (\<lambda>s. Inr (q, s))) h = res_bind r (\<lambda>s. h (q, s))" for r q h by (cases r) simp_all
  show ?thesis
    using assms e k unfolding rb_fix_step_def k_def[symmetric] k'_def[symmetric]
    by (auto simp add: Let_def mirror_colour b)
qed

section \<open>The invariant\<close>

text \<open>Equal black height on both sides and no red node with a red child; a context is good for a hole of black height \<open>k\<close>.\<close>

fun bh :: "rbt \<Rightarrow> nat" where
  "bh Lf = 0"
| "bh (Nd l a c r) = bh l + (if c = RBTREE_RED then 0 else 1)"

fun rb_ok :: "rbt \<Rightarrow> bool" where
  "rb_ok Lf \<longleftrightarrow> True"
| "rb_ok (Nd l a c r) \<longleftrightarrow> rb_ok l \<and> rb_ok r \<and> bh l = bh r \<and> (c = RBTREE_RED \<longrightarrow> \<not> redt l \<and> \<not> redt r)"

fun blackf :: "frame list \<Rightarrow> bool" where
  "blackf [] \<longleftrightarrow> False"
| "blackf (LF a c r # fs) \<longleftrightarrow> c \<noteq> RBTREE_RED"
| "blackf (RF l a c # fs) \<longleftrightarrow> c \<noteq> RBTREE_RED"

fun ctx_ok :: "nat \<Rightarrow> frame list \<Rightarrow> bool" where
  "ctx_ok k [] \<longleftrightarrow> True"
| "ctx_ok k (LF a c r # fs) \<longleftrightarrow> rb_ok r \<and> bh r = k \<and>
     (if c = RBTREE_RED then \<not> redt r \<and> blackf fs \<and> ctx_ok k fs else ctx_ok (k + 1) fs)"
| "ctx_ok k (RF l a c # fs) \<longleftrightarrow> rb_ok l \<and> bh l = k \<and>
     (if c = RBTREE_RED then \<not> redt l \<and> blackf fs \<and> ctx_ok k fs else ctx_ok (k + 1) fs)"

lemma plug_ok: "rb_ok t \<Longrightarrow> ctx_ok (bh t) fs \<Longrightarrow> (redt t \<longrightarrow> fs = [] \<or> blackf fs) \<Longrightarrow> rb_ok (plug t fs)"
  by (induction t fs rule: plug.induct) (auto split: if_splits)

lemma blackf_ne: "blackf fs \<Longrightarrow> fs \<noteq> []"
  by auto

lemma plug_black: "ctx_ok k fs \<Longrightarrow> (fs = [] \<Longrightarrow> \<not> redt t) \<Longrightarrow> \<not> redt (plug t fs)"
  by (induction t fs arbitrary: k rule: plug.induct) (auto split: if_splits dest: blackf_ne)

lemma redt_mir [simp]: "redt (mir t) = redt t"
  by (cases t) simp_all

lemma mir_ok: "rb_ok t \<Longrightarrow> rb_ok (mir t) \<and> bh (mir t) = bh t"
  by (induction t) auto

lemma rb_ok_mir [simp]: "rb_ok (mir t) = rb_ok t"
  using mir_ok[of t] mir_ok[of "mir t"] by auto

lemma blackf_mir [simp]: "blackf (map mirf fs) = blackf fs"
  by (cases fs rule: up.cases) auto

lemma ctx_ok_mir: "ctx_ok k fs \<Longrightarrow> ctx_ok k (map mirf fs)"
  by (induction k fs rule: ctx_ok.induct) (auto split: if_splits dest: mir_ok)

lemma plug_mir: "plug (mir t) (map mirf fs) = mir (plug t fs)"
  by (induction t fs rule: plug.induct) auto

text \<open>
  What a pass of the loop reaches: either the same situation closer to the root, or a tree that needs no
  more passes.
\<close>

definition pass_ok :: "nat \<Rightarrow> nat list \<Rightarrow> nat \<Rightarrow> rb_tree \<Rightarrow> bool" where
  "pass_ok k xs n s \<longleftrightarrow> (\<exists>t fs. focus s n t fs \<and> t \<noteq> Lf \<and> inord (plug t fs) = xs \<and>
     (length fs < k \<and> rb_ok t \<and> redt t \<and> ctx_ok (bh t) fs \<or> blackf fs \<and> rb_ok (plug t fs) \<and> \<not> redt (plug t fs)))"

lemma pass_ok_mir: "pass_ok k (rev xs) n (mirror s) \<Longrightarrow> pass_ok k xs n s"
proof -
  assume "pass_ok k (rev xs) n (mirror s)"
  then obtain t fs where t: "focus (mirror s) n t fs" "inord (plug t fs) = rev xs" and l: "t \<noteq> Lf" and
     c: "length fs < k \<and> rb_ok t \<and> redt t \<and> ctx_ok (bh t) fs \<or> blackf fs \<and> rb_ok (plug t fs) \<and> \<not> redt (plug t fs)"
    unfolding pass_ok_def by blast
  have "focus s n (mir t) (map mirf fs)" using t(1) focus_mir[of s n "mir t" "map mirf fs"] by (simp add: comp_def)
  moreover have "inord (plug (mir t) (map mirf fs)) = xs" using t(2) by (simp add: plug_mir)
  ultimately show ?thesis
    unfolding pass_ok_def using c l ctx_ok_mir[of "bh t" fs] mir_ok[of t] plug_mir[of t fs]
    by (intro exI[of _ "mir t"] exI[of _ "map mirf fs"]) (cases t; auto)
qed

lemma pass_more: "focus s n t fs \<Longrightarrow> inord (plug t fs) = xs \<Longrightarrow> length fs < k \<Longrightarrow> rb_ok t \<Longrightarrow> redt t \<Longrightarrow> ctx_ok (bh t) fs \<Longrightarrow>
    pass_ok k xs n s"
  unfolding pass_ok_def by (metis redt_simps(1))

lemma pass_done:
  assumes "focus s q (Nd t q RBTREE_BLACK r) fs" "inord (plug (Nd t q RBTREE_BLACK r) fs) = xs"
    "rb_ok (Nd t q RBTREE_BLACK r)" "ctx_ok (bh (Nd t q RBTREE_BLACK r)) fs" "n = left (nodes s q)" "t \<noteq> Lf"
  shows "pass_ok k xs n s"
proof -
  have "focus s n t (LF q RBTREE_BLACK r # fs)" using assms(1,5) by (simp add: focus_LF)
  moreover have "rb_ok (plug (Nd t q RBTREE_BLACK r) fs)" "\<not> redt (plug (Nd t q RBTREE_BLACK r) fs)"
    using plug_ok[OF assms(3,4)] plug_black[OF assms(4)] by simp_all
  ultimately show ?thesis unfolding pass_ok_def using assms(2,6) by (intro exI[of _ t] exI[of _ "LF q RBTREE_BLACK r # fs"]) simp
qed

lemma plug_Cons: "plug t (f # fs) = plug (plug t [f]) fs"
  by (cases f) simp_all

lemma pass_left:
  assumes F: "focus s n t (f # LF g cg u # fs)" and ok: "rb_ok t" "redt t" "ctx_ok (bh t) (f # LF g cg u # fs)" "\<not> blackf (f # LF g cg u # fs)"
  shows "\<exists>n' s'. rb_fix_step n s = Inr (n', s') \<and> count s' = count s \<and>
    pass_ok (Suc (Suc (length fs))) (inord (plug t (f # LF g cg u # fs))) n' s'"
proof -
  obtain a b where t: "t = Nd a n RBTREE_RED b" using ok(2) F by (cases t) (auto simp: focus_def)
  have n: "n \<noteq> 0" "bh a = bh t" "bh b = bh t" "\<not> redt a" "\<not> redt b" "rb_ok a" "rb_ok b" using F t ok(1) by (auto simp: focus_def)
  have cg: "cg \<noteq> RBTREE_RED" "ctx_ok (bh t + 1) fs" "rb_ok u" "bh u = bh t" using ok(3,4) by (cases f; auto)+
  obtain l p r where P: "plug t [f] = Nd l p RBTREE_RED r" "parent (nodes s n) = p"
    using ok(4) F t by (cases f) (auto simp: focus_def)
  have G: "focus s g (Nd (Nd l p RBTREE_RED r) g cg u) fs" using F P(1) by (cases f) (auto simp: focus_LF focus_RF)
  have lr: "rb_ok l" "rb_ok r" "bh l = bh t" "bh r = bh t" using P ok by (cases f; auto)+
  have xs: "inord (plug t (f # LF g cg u # fs)) = before fs @ inord l @ p # inord r @ g # inord u @ after fs"
    using plug_Cons[of t f "LF g cg u # fs"] P(1) by (simp add: inord_plug)
  show ?thesis
  proof (cases "redt u")
    case True
    then obtain ul y ur where u: "u = Nd ul y RBTREE_RED ur" by (cases u) auto
    from step_recolour[OF G[unfolded u] refl P(2)] obtain s' where
      s': "rb_fix_step n s = Inr (g, s')" "focus s' g (Nd (Nd l p RBTREE_BLACK r) g RBTREE_RED (Nd ul y RBTREE_BLACK ur)) fs" "count s' = count s"
      by blast
    have "pass_ok (Suc (Suc (length fs))) (inord (plug t (f # LF g cg u # fs))) g s'"
      unfolding xs by (rule pass_more[OF s'(2)]) (use cg u lr in \<open>auto simp: inord_plug\<close>)
    then show ?thesis using s'(1,3) by blast
  next
    case False
    show ?thesis
    proof (cases f)
      case (LF p' c r')
      then have e: "l = t" "p' = p" "r' = r" "\<not> redt r" using P(1) ok(3,4) by auto
      have nl: "n = left (nodes s p)" using F LF e by (simp add: focus_def)
      from step_outer[OF G False nl P(2) n(1)] e obtain s' where
        s': "rb_fix_step n s = Inr (n, s')" "focus s' p (Nd t p RBTREE_BLACK (Nd r g RBTREE_RED u)) fs" "count s' = count s" by blast
      have "pass_ok (Suc (Suc (length fs))) (inord (plug t (f # LF g cg u # fs))) n s'"
        unfolding xs by (rule pass_done[OF s'(2)]) (use cg(2-4) e(1,4) t lr False ok(1) s'(2) in \<open>simp_all add: inord_plug focus_def\<close>)
      then show ?thesis using s'(1,3) by blast
    next
      case (RF l' p' c)
      then have e: "l' = l" "p' = p" "r = t" "\<not> redt l" using P(1) ok(3,4) by auto
      from step_inner[OF G[unfolded e(3) t] False] obtain s' where
        s': "rb_fix_step n s = Inr (p, s')" "focus s' n (Nd (Nd l p RBTREE_RED a) n RBTREE_BLACK (Nd b g RBTREE_RED u)) fs"
          "count s' = count s" by blast
      have lp: "p = left (nodes s' n)" using s'(2) by (simp add: focus_def)
      have "rb_ok (Nd (Nd l p RBTREE_RED a) n RBTREE_BLACK (Nd b g RBTREE_RED u))"
        using n(2-7) e(4) lr(1,3) cg(3,4) False by simp
      moreover have "ctx_ok (bh (Nd (Nd l p RBTREE_RED a) n RBTREE_BLACK (Nd b g RBTREE_RED u))) fs" using cg(2) lr(3) by simp
      ultimately have "pass_ok (Suc (Suc (length fs))) (inord (plug t (f # LF g cg u # fs))) p s'"
        unfolding xs using lp by (intro pass_done[OF s'(2)]) (simp_all add: inord_plug e(3) t)
      then show ?thesis using s'(1,3) by blast
    qed
  qed
qed

lemma pass_step:
  assumes F: "focus s n t fs" and ok: "rb_ok t" "redt t" "ctx_ok (bh t) fs" "fs \<noteq> []" "\<not> blackf fs"
  shows "\<exists>n' s'. rb_fix_step n s = Inr (n', s') \<and> count s' = count s \<and> pass_ok (length fs) (inord (plug t fs)) n' s'"
proof -
  obtain f gs where f: "fs = f # gs" using ok(4) by (cases fs) auto
  then have "blackf gs" using ok(3,5) by (cases f) (auto split: if_splits)
  then obtain f2 hs where gs: "gs = f2 # hs" by (cases gs) auto
  show ?thesis
  proof (cases f2)
    case (LF g cg u)
    then show ?thesis using pass_left[of s n t f g cg u hs] F ok f gs by simp
  next
    case (RF l g cg)
    have m: "map mirf fs = mirf f # LF g cg (mir l) # map mirf hs" using f gs RF by simp
    have "\<exists>n' s'. rb_fix_step n (mirror s) = Inr (n', s') \<and> count s' = count (mirror s) \<and>
        pass_ok (Suc (Suc (length (map mirf hs)))) (inord (plug (mir t) (map mirf fs))) n' s'"
      unfolding m by (rule pass_left) (use F ok focus_mir[of s n t fs] mir_ok[of t] ctx_ok_mir[of "bh t" fs] in \<open>auto simp: m[symmetric]\<close>)
    then obtain n' s' where s': "rb_fix_step n (mirror s) = Inr (n', s')" "count s' = count s"
      "pass_ok (length fs) (rev (inord (plug t fs))) n' (mirror (mirror s'))" using f gs by (auto simp: plug_mir simp del: list.map)
    have p: "parent (nodes s n) = up fs" using F ok(2) by (cases t) (auto simp: focus_def)
    have q: "up fs \<noteq> 0" "parent (nodes s (up fs)) = g" "right (nodes s g) = up fs" "tree_at (nodes s) g (left (nodes s g)) l"
      "up fs \<notin> set (inord l)" using F f gs RF by (cases f; auto simp: focus_def)+
    then have "left (nodes s g) \<noteq> right (nodes s g)" using tree_at_root[OF q(4)] by auto
    then have "rb_fix_step n (mirror s) = map_sum id (\<lambda>(n, s). (n, mirror s)) (rb_fix_step n s)"
      using step_mirror[of s n g] p q by simp
    then have "rb_fix_step n s = Inr (n', mirror s')" using s'(1) by (cases "rb_fix_step n s") auto
    then show ?thesis using s'(2) pass_ok_mir[OF s'(3)] by auto
  qed
qed

section \<open>The loop\<close>

lemma ctx_root: "ctx_at h rt p fs \<Longrightarrow> fs \<noteq> [] \<Longrightarrow> rt \<in> set (before fs @ after fs)"
proof (induction h rt p fs rule: ctx_at.induct)
  case (2 h rt p a c r fs) then show ?case by (cases fs) auto
next
  case (3 h rt p l a c fs) then show ?case by (cases fs) auto
qed simp

lemma focus_not_root: "focus s p t fs \<Longrightarrow> t \<noteq> Lf \<Longrightarrow> fs \<noteq> [] \<Longrightarrow> p \<noteq> root s \<and> p \<noteq> 0 \<and> parent (nodes s p) = up fs"
  using ctx_root[of "nodes s" "root s" p fs] by (cases t) (auto simp: focus_def)

lemma red_up: "focus s p t fs \<Longrightarrow> fs \<noteq> [] \<Longrightarrow> rb_is_red s (up fs) \<longleftrightarrow> \<not> blackf fs"
  by (cases fs rule: up.cases) (auto simp: focus_def rb_is_red_def)

lemma fixup_ok:
  assumes "focus s n t fs" "rb_ok t" "redt t" "ctx_ok (bh t) fs"
  shows "\<exists>s' t'. rb_fixup n s = Some (Inr s') \<and> rb_holds s' t' \<and> rb_ok t' \<and> inord t' = inord (plug t fs) \<and> count s' = count s"
  using assms
proof (induction "length fs" arbitrary: s n t fs rule: less_induct)
  case less
  note F = less.prems(1) and ok = less.prems(2-4)
  have t: "t \<noteq> Lf" using ok(2) by auto
  consider "fs = []" | "fs \<noteq> []" "blackf fs" | "fs \<noteq> []" "\<not> blackf fs" by blast
  then show ?case
  proof cases
    case 1
    then have "rb_fixup n s = Some (Inr s)" using F by (subst rb_fixup.simps) (simp add: focus_def)
    then show ?thesis using F ok 1 by (auto simp: focus_holds)
  next
    case 2
    then have "rb_fixup n s = Some (Inr s)"
      using focus_not_root[OF F t 2(1)] red_up[OF F 2(1)] by (subst rb_fixup.simps) simp
    then show ?thesis using focus_plug[OF F] plug_ok[of t fs] ok 2 by auto
  next
    case 3
    from pass_step[OF F ok 3] obtain n' s' where
      s': "rb_fix_step n s = Inr (n', s')" "count s' = count s" "pass_ok (length fs) (inord (plug t fs)) n' s'" by blast
    have r: "rb_fixup n s = rb_fixup n' s'"
      using focus_not_root[OF F t 3(1)] red_up[OF F 3(1)] 3 s'(1) by (subst rb_fixup.simps) simp
    from s'(3) obtain t' gs where G: "focus s' n' t' gs" "inord (plug t' gs) = inord (plug t fs)" and t': "t' \<noteq> Lf" and D:
      "length gs < length fs \<and> rb_ok t' \<and> redt t' \<and> ctx_ok (bh t') gs \<or> blackf gs \<and> rb_ok (plug t' gs) \<and> \<not> redt (plug t' gs)"
      unfolding pass_ok_def by blast
    from D show ?thesis
    proof
      assume "length gs < length fs \<and> rb_ok t' \<and> redt t' \<and> ctx_ok (bh t') gs"
      then show ?thesis using less.hyps[of gs s' n' t'] G r s'(2) by auto
    next
      assume b: "blackf gs \<and> rb_ok (plug t' gs) \<and> \<not> redt (plug t' gs)"
      then have g: "gs \<noteq> []" by auto
      have "rb_fixup n' s' = Some (Inr s')"
        using focus_not_root[OF G(1) t' g] red_up[OF G(1) g] b by (subst rb_fixup.simps) simp
      then show ?thesis using focus_plug[OF G(1)] b G(2) r s'(2) by auto
    qed
  qed
qed

section \<open>Insertion\<close>

text \<open>The place a new node goes to.\<close>

fun place :: "(nat \<Rightarrow> bool) \<Rightarrow> rbt \<Rightarrow> frame list \<Rightarrow> frame list" where
  "place lt Lf fs = fs"
| "place lt (Nd l a c r) fs = (if lt a then place lt l (LF a c r # fs) else place lt r (RF l a c # fs))"

fun turned :: "(nat \<Rightarrow> bool) \<Rightarrow> frame list \<Rightarrow> bool" where
  "turned lt [] \<longleftrightarrow> True"
| "turned lt (LF a c r # fs) \<longleftrightarrow> lt a"
| "turned lt (RF l a c # fs) \<longleftrightarrow> \<not> lt a"

lemma turned_place: "turned lt fs \<Longrightarrow> turned lt (place lt t fs)"
  by (induction t arbitrary: fs) auto

lemma plug_place: "plug Lf (place lt t fs) = plug t fs"
  by (induction t arbitrary: fs) auto

lemma place_ok: "rb_ok t \<Longrightarrow> ctx_ok (bh t) fs \<Longrightarrow> (redt t \<longrightarrow> blackf fs) \<Longrightarrow> ctx_ok 0 (place lt t fs)"
  by (induction t arbitrary: fs) (auto split: if_splits)

lemma descend_place:
  "focus s x t fs \<Longrightarrow> rb_descend cmp n s (up fs) x = Some (up (place (\<lambda>a. cmp n a < 0) t fs)) \<and>
     focus s 0 Lf (place (\<lambda>a. cmp n a < 0) t fs)"
proof (induction t arbitrary: x fs)
  case Lf
  then show ?case by (subst rb_descend.simps) (auto simp: focus_def)
next
  case (Nd l a c r)
  note F = focus_self[OF Nd.prems]
  show ?case
    using Nd.IH(1)[of "left (nodes s a)" "LF a c r # fs"] Nd.IH(2)[of "right (nodes s a)" "RF l a c # fs"] F
    by (subst rb_descend.simps) simp
qed

lemma place_sorted:
  assumes "sorted (map key (inord t))" "\<And>a. lt a \<longleftrightarrow> k < key a"
    "\<forall>a\<in>set (before fs). key a \<le> k" "\<forall>a\<in>set (after fs). k < key a"
  shows "(\<forall>a\<in>set (before (place lt t fs)). key a \<le> k) \<and> (\<forall>a\<in>set (after (place lt t fs)). (k :: 'k::linorder) < key a)"
  using assms
proof (induction t arbitrary: fs)
  case (Nd l a c r)
  have S: "sorted (map key (inord l))" "sorted (map key (inord r))" "\<forall>b\<in>set (inord l). key b \<le> key a" "\<forall>b\<in>set (inord r). key a \<le> key b"
    using Nd.prems(1) by (auto simp: sorted_append)
  show ?case
  proof (cases "k < key a")
    case True
    then have A: "\<forall>b\<in>set (after (LF a c r # fs)). k < key b" using S(4) Nd.prems(4) by fastforce
    have B: "\<forall>b\<in>set (before (LF a c r # fs)). key b \<le> k" using Nd.prems(3) by simp
    have "place lt (Nd l a c r) fs = place lt l (LF a c r # fs)" using True Nd.prems(2)[of a] by simp
    then show ?thesis using Nd.IH(1)[OF S(1) Nd.prems(2) B A] by (simp only:)
  next
    case False
    then have B: "\<forall>b\<in>set (before (RF l a c # fs)). key b \<le> k" using S(3) Nd.prems(3) by fastforce
    have A: "\<forall>b\<in>set (after (RF l a c # fs)). k < key b" using Nd.prems(4) by simp
    have "place lt (Nd l a c r) fs = place lt r (RF l a c # fs)" using False Nd.prems(2)[of a] by simp
    then show ?thesis using Nd.IH(2)[OF S(2) Nd.prems(2) B A] by (simp only:)
  qed
qed simp

text \<open>Linking the new node into the hole.\<close>

lemma link_focus:
  assumes F: "focus s 0 Lf fs" and n: "n \<noteq> 0" "n \<notin> set (before fs)" "n \<notin> set (after fs)" "turned lt fs"
    and nd: "nodes s n = \<lparr>parent = q, left = 0, right = 0, color = RBTREE_RED\<rparr>"
  shows "focus (let s = rb_upd n (\<lambda>x. x\<lparr>parent := up fs\<rparr>) s in
     if up fs = 0 then s\<lparr>root := n\<rparr> else if lt (up fs) then rb_upd (up fs) (\<lambda>x. x\<lparr>left := n\<rparr>) s
     else rb_upd (up fs) (\<lambda>x. x\<lparr>right := n\<rparr>) s) n (Nd Lf n RBTREE_RED Lf) fs"
  using F n nd by (cases fs rule: up.cases) (auto simp: focus_def rb_upd_def Let_def)

definition rb_valid :: "rb_tree \<Rightarrow> rbt \<Rightarrow> bool" where
  "rb_valid s t \<longleftrightarrow> rb_holds s t \<and> rb_ok t \<and> \<not> redt t"

lemma black_root:
  assumes "rb_holds s t" "rb_ok t" "t \<noteq> Lf"
  shows "\<exists>t'. rb_valid (rb_set_black (root s) s) t' \<and> inord t' = inord t"
proof -
  obtain l a c r where t: "t = Nd l a c r" using assms(3) by (cases t) auto
  have F: "focus s (root s) t []" "root s = a" using assms(1) t by (auto simp: focus_holds rb_holds_def)
  have "focus (rb_set_black a s) a (recol a RBTREE_BLACK t) []" using focus_recol(1)[OF F(1), of a] t F(2) by simp
  moreover have "recol a RBTREE_BLACK t = Nd l a RBTREE_BLACK r" using focus_distinct[OF F(1)] t by simp
  ultimately show ?thesis using assms(2) t F(2) by (intro exI[of _ "Nd l a RBTREE_BLACK r"]) (simp add: rb_valid_def focus_holds)
qed

lemma rb_insert_ok:
  assumes v: "rb_valid s t" and n: "n \<noteq> 0" "n \<notin> set (inord t)"
  shows "\<exists>s' t' fs. rb_insert cmp n s = Some (Inr s') \<and> rb_valid s' t' \<and> fs = place (\<lambda>a. cmp n a < 0) t [] \<and>
    inord t' = before fs @ n # after fs \<and> count s' = inc64 (count s)"
proof -
  let ?s1 = "rb_upd n (\<lambda>x. x\<lparr>left := 0, right := 0, color := RBTREE_RED\<rparr>) s" and ?lt = "\<lambda>a. cmp n a < 0"
  let ?fs = "place ?lt t []"
  have "focus ?s1 (root s) t []" using v n by (auto simp: focus_holds rb_valid_def rb_holds_def rb_upd_def)
  note D = descend_place[OF this, of cmp n]
  have ins: "inord t = before ?fs @ after ?fs" using plug_place[of ?lt t "[]"] inord_plug[of Lf ?fs] by simp
  have c: "ctx_ok 0 ?fs" using place_ok[of t "[]" ?lt] v by (simp add: rb_valid_def)
  define s2 where "s2 = (let s = rb_upd n (\<lambda>x. x\<lparr>parent := up ?fs\<rparr>) ?s1 in
     if up ?fs = 0 then s\<lparr>root := n\<rparr> else if ?lt (up ?fs) then rb_upd (up ?fs) (\<lambda>x. x\<lparr>left := n\<rparr>) s
     else rb_upd (up ?fs) (\<lambda>x. x\<lparr>right := n\<rparr>) s)"
  have "focus s2 n (Nd Lf n RBTREE_RED Lf) ?fs" unfolding s2_def
    by (rule link_focus[where q = "parent (nodes s n)"]) (use D n ins turned_place[of ?lt "[]" t] in \<open>auto simp: rb_upd_def\<close>)
  then have "focus (s2\<lparr>count := inc64 (count s2)\<rparr>) n (Nd Lf n RBTREE_RED Lf) ?fs" by (simp add: focus_def)
  from fixup_ok[OF this] c obtain s3 t3 where F: "rb_fixup n (s2\<lparr>count := inc64 (count s2)\<rparr>) = Some (Inr s3)"
    "rb_holds s3 t3" "rb_ok t3" "inord t3 = before ?fs @ n # after ?fs" "count s3 = inc64 (count s2)"
    by (auto simp: inord_plug)
  have "t3 \<noteq> Lf" using F(4) by auto
  from black_root[OF F(2,3) this] obtain t4 where t4: "rb_valid (rb_set_black (root s3) s3) t4" "inord t4 = inord t3" by blast
  have cnt: "count s2 = count s" by (simp add: s2_def Let_def rb_upd_def)
  have d: "rb_descend cmp n ?s1 0 (root ?s1) = Some (up ?fs)" using D by (simp add: rb_upd_def)
  have "rb_insert cmp n s = map_option (\<lambda>r. res_bind r (\<lambda>s. Inr (rb_set_black (root s) s))) (rb_fixup n (s2\<lparr>count := inc64 (count s2)\<rparr>))"
    using n(1) by (simp only: rb_insert_def s2_def Let_def if_False option.case d)
  then have "rb_insert cmp n s = Some (Inr (rb_set_black (root s3) s3))" by (simp add: F(1))
  then show ?thesis using t4 F(4,5) cnt by auto
qed

lemma filter_split:
  assumes "xs = ys @ zs" "\<forall>a\<in>set ys. P a" "\<forall>a\<in>set zs. \<not> P a"
  shows "ys = filter P xs" "zs = filter (\<lambda>a. \<not> P a) xs"
  using assms by (simp_all add: filter_empty_conv filter_id_conv)

fun ht :: "rbt \<Rightarrow> nat" where
  "ht Lf = 0"
| "ht (Nd l a c r) = Suc (max (ht l) (ht r))"

lemma ht_bound: "rb_ok t \<Longrightarrow> ht t \<le> 2 * bh t + (if redt t then 1 else 0) \<and> 2 ^ bh t \<le> Suc (length (inord t))"
proof (induction t)
  case (Nd l a c r)
  then have "ht l \<le> 2 * bh l + (if redt l then 1 else 0)" "ht r \<le> 2 * bh l + (if redt r then 1 else 0)"
    "2 ^ bh l \<le> Suc (length (inord l))" "2 ^ bh l \<le> Suc (length (inord r))" by simp_all
  then show ?case using Nd.prems by (cases "c = RBTREE_RED") (auto split: if_splits)
qed simp

lemma rb_depth: "rb_valid s t \<Longrightarrow> 2 ^ (ht t div 2) \<le> Suc (length (inord t))"
proof -
  assume "rb_valid s t"
  then have h: "ht t \<le> 2 * bh t" "2 ^ bh t \<le> Suc (length (inord t))" using ht_bound[of t] by (auto simp: rb_valid_def)
  have "(2::nat) ^ (ht t div 2) \<le> 2 ^ bh t" using h(1) by (intro power_increasing) auto
  then show ?thesis using h(2) by linarith
qed

text \<open>C6 (rb_insert_correct): \<^verbatim>\<open>rb_insert\<close> returns without following a null pointer, and leaves a
  red-black tree (black root, no red node with a red child, equal black heights, so its height is logarithmic) whose
  in-order sequence is the old one with the new node placed after the nodes that do not compare above it.\<close>

theorem rb_insert_correct:
  fixes key :: "nat \<Rightarrow> 'k::linorder"
  assumes "rb_valid s t" "n \<noteq> 0" "n \<notin> set (inord t)"
    and "\<And>a. cmp n a < 0 \<longleftrightarrow> key n < key a" "sorted (map key (inord t))"
  shows "\<exists>s' t'. rb_insert cmp n s = Some (Inr s') \<and> rb_valid s' t' \<and> sorted (map key (inord t')) \<and>
    inord t' = filter (\<lambda>a. key a \<le> key n) (inord t) @ n # filter (\<lambda>a. key n < key a) (inord t) \<and>
    2 ^ (ht t' div 2) \<le> Suc (length (inord t')) \<and> count s' = inc64 (count s)"
proof -
  let ?fs = "place (\<lambda>a. cmp n a < 0) t []"
  from rb_insert_ok[OF assms(1-3), of cmp] obtain s' t' where
    s': "rb_insert cmp n s = Some (Inr s')" "rb_valid s' t'" "inord t' = before ?fs @ n # after ?fs" "count s' = inc64 (count s)" by blast
  have P: "(\<forall>a\<in>set (before ?fs). key a \<le> key n) \<and> (\<forall>a\<in>set (after ?fs). key n < key a)"
    by (rule place_sorted[OF assms(5,4)]) simp_all
  have e: "inord t = before ?fs @ after ?fs"
    using plug_place[of "\<lambda>a. cmp n a < 0" t "[]"] inord_plug[of Lf ?fs] by simp
  have "before ?fs = filter (\<lambda>a. key a \<le> key n) (inord t)" "after ?fs = filter (\<lambda>a. \<not> key a \<le> key n) (inord t)"
    by (rule filter_split[OF e]; use P in \<open>auto simp: not_le\<close>)+
  moreover have "sorted (map key (inord t'))"
    using assms(5) P unfolding s'(3) e by (auto simp: sorted_append intro: less_imp_le)
  ultimately show ?thesis using s' rb_depth[OF s'(2)] by (auto simp: not_le)
qed

section \<open>Searching and stepping in order\<close>

lemma leftmost_hd: "tree_at (nodes s) q p t \<Longrightarrow> t \<noteq> Lf \<Longrightarrow> rb_leftmost s p = Some (hd (inord t))"
proof (induction t arbitrary: q p)
  case (Nd l a c r)
  show ?case
  proof (cases l)
    case Lf then show ?thesis using Nd.prems by (subst rb_leftmost.simps) simp
  next
    case (Nd l' b d r')
    then have "left (nodes s a) \<noteq> 0" using Nd.prems by simp
    then show ?thesis using Nd.IH(1)[of a "left (nodes s a)"] Nd.prems Nd by (subst rb_leftmost.simps) (simp add: hd_append)
  qed
qed simp

lemma rightmost_last: "tree_at (nodes s) q p t \<Longrightarrow> t \<noteq> Lf \<Longrightarrow> rb_rightmost s p = Some (last (inord t))"
proof (induction t arbitrary: q p)
  case (Nd l a c r)
  show ?case
  proof (cases r)
    case Lf then show ?thesis using Nd.prems by (subst rb_rightmost.simps) simp
  next
    case (Nd l' b d r')
    then have "right (nodes s a) \<noteq> 0" using Nd.prems by simp
    then show ?thesis using Nd.IH(2)[of a "right (nodes s a)"] Nd.prems Nd by (subst rb_rightmost.simps) simp
  qed
qed simp

definition hd0 :: "nat list \<Rightarrow> nat" where
  "hd0 xs = (case xs of [] \<Rightarrow> 0 | x # _ \<Rightarrow> x)"

lemma hd0_simps [simp]: "hd0 [] = 0" "hd0 (x # xs) = x" "xs \<noteq> [] \<Longrightarrow> hd0 (xs @ ys) = hd xs"
  by (simp_all add: hd0_def split: list.split) (metis hd_append list.sel(1))

lemma climb_right_after: "focus s x t fs \<Longrightarrow> t \<noteq> Lf \<Longrightarrow> rb_climb_right s x (up fs) = Some (hd0 (after fs))"
proof (induction fs arbitrary: x t)
  case Nil then show ?case by (subst rb_climb_right.simps) simp
next
  case (Cons f fs)
  show ?case
  proof (cases f)
    case (LF a c r)
    then have "tree_at (nodes s) a x t" "tree_at (nodes s) a (right (nodes s a)) r" "set (inord t) \<inter> set (inord r) = {}" "x \<noteq> 0"
      using Cons.prems by (auto simp: focus_def) (cases t; simp)
    then have "x \<noteq> right (nodes s a)" using tree_at_root by blast
    then show ?thesis using LF by (subst rb_climb_right.simps) simp
  next
    case (RF l a c)
    then have "focus s a (Nd l a c t) fs" "right (nodes s a) = x" "a \<noteq> 0" "parent (nodes s a) = up fs"
      using Cons.prems by (auto simp: focus_def)
    then show ?thesis using Cons.IH[of a "Nd l a c t"] RF by (subst rb_climb_right.simps) simp
  qed
qed

lemma climb_left_before: "focus s x t fs \<Longrightarrow> t \<noteq> Lf \<Longrightarrow> rb_climb_left s x (up fs) = Some (hd0 (rev (before fs)))"
proof (induction fs arbitrary: x t)
  case Nil then show ?case by (subst rb_climb_left.simps) simp
next
  case (Cons f fs)
  show ?case
  proof (cases f)
    case (RF l a c)
    then have "tree_at (nodes s) a x t" "tree_at (nodes s) a (left (nodes s a)) l" "set (inord t) \<inter> set (inord l) = {}" "x \<noteq> 0"
      using Cons.prems by (auto simp: focus_def) (cases t; simp)
    then have "x \<noteq> left (nodes s a)" using tree_at_root by blast
    then show ?thesis using RF by (subst rb_climb_left.simps) simp
  next
    case (LF a c r)
    then have "focus s a (Nd t a c r) fs" "left (nodes s a) = x" "a \<noteq> 0" "parent (nodes s a) = up fs"
      using Cons.prems by (auto simp: focus_def)
    then show ?thesis using Cons.IH[of a "Nd t a c r"] LF by (subst rb_climb_left.simps) simp
  qed
qed

lemma focus_find: "focus s p t fs \<Longrightarrow> x \<in> set (inord t) \<Longrightarrow> \<exists>l c r gs. focus s x (Nd l x c r) gs \<and> plug (Nd l x c r) gs = plug t fs"
proof (induction t arbitrary: p fs)
  case (Nd l a c r)
  note F = focus_self[OF Nd.prems(1)]
  from Nd.prems(2) consider "x = a" | "x \<in> set (inord l)" | "x \<in> set (inord r)" by auto
  then show ?case
  proof cases
    case 1 then show ?thesis using Nd.prems(1) F by auto
  next
    case 2 then show ?thesis using Nd.IH(1)[of "left (nodes s a)" "LF a c r # fs"] F by simp
  next
    case 3 then show ?thesis using Nd.IH(2)[of "right (nodes s a)" "RF l a c # fs"] F by simp
  qed
qed simp

text \<open>C21 (rb_steps_in_order): \<^verbatim>\<open>rb_min\<close> and \<^verbatim>\<open>rb_max\<close> return the ends of the in-order sequence, and
  \<^verbatim>\<open>rb_next\<close> and \<^verbatim>\<open>rb_prev\<close> the neighbours of a node in it, \<^verbatim>\<open>NULL\<close> past an end.\<close>

theorem rb_steps_in_order:
  assumes "rb_holds s t" "inord t = xs @ x # ys"
  shows "rb_next s x = Some (Inr (hd0 ys)) \<and> rb_prev s x = Some (Inr (hd0 (rev xs))) \<and>
    rb_min s = Some (hd (inord t)) \<and> rb_max s = Some (last (inord t))"
proof -
  have F0: "focus s (root s) t []" using assms(1) by (simp add: focus_holds)
  have t: "tree_at (nodes s) 0 (root s) t" "t \<noteq> Lf" using assms by (auto simp: rb_holds_def)
  obtain l c r gs where F: "focus s x (Nd l x c r) gs" "plug (Nd l x c r) gs = t" using focus_find[OF F0, of x] assms(2) by auto
  have i: "(before gs @ inord l) @ x # (inord r @ after gs) = xs @ x # ys"
    using F(2) assms(2) inord_plug[of "Nd l x c r" gs] by simp
  have d: "distinct ((before gs @ inord l) @ x # (inord r @ after gs))" using F(1) by (simp add: focus_def)
  then have e: "before gs @ inord l = xs" "inord r @ after gs = ys"
    using i append_Cons_eq_iff[of x "before gs @ inord l" "inord r @ after gs" xs ys] by auto
  have x: "x \<noteq> 0" "parent (nodes s x) = up gs" "tree_at (nodes s) x (left (nodes s x)) l" "tree_at (nodes s) x (right (nodes s x)) r"
    using F(1) by (auto simp: focus_def)
  have "rb_next s x = Some (Inr (hd0 ys))"
  proof (cases r)
    case Lf
    then show ?thesis using x climb_right_after[OF F(1)] e(2) by (simp add: rb_next_def)
  next
    case (Nd r1 b d r2)
    then have "hd0 ys = hd (inord r)" using hd0_simps(3)[of "inord r" "after gs"] e(2) by auto
    then show ?thesis using x leftmost_hd[OF x(4)] Nd by (simp add: rb_next_def)
  qed
  moreover have "rb_prev s x = Some (Inr (hd0 (rev xs)))"
  proof (cases l)
    case Lf
    then show ?thesis using x climb_left_before[OF F(1)] e(1) by (simp add: rb_prev_def)
  next
    case (Nd l1 b d l2)
    then have "hd0 (rev xs) = last (inord l)" using hd0_simps(3)[of "rev (inord l)" "rev (before gs)"] e(1)[symmetric] by (simp add: hd_rev)
    then show ?thesis using x rightmost_last[OF x(3)] Nd by (simp add: rb_prev_def)
  qed
  ultimately show ?thesis using leftmost_hd[OF t] rightmost_last[OF t] by (simp add: rb_min_def rb_max_def)
qed

lemma rb_search_from_ok:
  fixes key :: "nat \<Rightarrow> 'k::linorder"
  assumes "tree_at (nodes s) q p t" "sorted (map key (inord t))" "\<And>a. cmp n a < 0 \<longleftrightarrow> k < key a" "\<And>a. cmp n a = 0 \<longleftrightarrow> k = key a"
  shows "\<exists>r. rb_search_from cmp n s p = Some r \<and>
    (if r = 0 then k \<notin> key ` set (inord t) else r \<in> set (inord t) \<and> key r = k)"
  using assms(1,2)
proof (induction t arbitrary: q p)
  case Lf then show ?case by (subst rb_search_from.simps) simp
next
  case (Nd l a c r)
  have T: "p = a" "a \<noteq> 0" "tree_at (nodes s) a (left (nodes s a)) l" "tree_at (nodes s) a (right (nodes s a)) r"
    "sorted (map key (inord l))" "sorted (map key (inord r))" "\<forall>b\<in>set (inord l). key b \<le> key a" "\<forall>b\<in>set (inord r). key a \<le> key b"
    using Nd.prems by (auto simp: sorted_append)
  consider "k = key a" | "k < key a" | "key a < k" by fastforce
  then show ?case
  proof cases
    case 1 then show ?thesis using T assms(3,4)[of a] by (subst rb_search_from.simps) simp
  next
    case 2
    have "rb_search_from cmp n s p = rb_search_from cmp n s (left (nodes s a))"
      using T(1,2) 2 assms(3,4)[of a] by (subst rb_search_from.simps) simp
    moreover have "k \<notin> key ` set (inord r)" using T(8) 2 by auto
    moreover obtain m where "rb_search_from cmp n s (left (nodes s a)) = Some m" "if m = 0 then k \<notin> key ` set (inord l) else m \<in> set (inord l) \<and> key m = k"
      using Nd.IH(1)[OF T(3,5)] by blast
    ultimately show ?thesis using 2 by (cases "m = 0") (simp_all add: image_Un)
  next
    case 3
    have "rb_search_from cmp n s p = rb_search_from cmp n s (right (nodes s a))"
      using T(1,2) 3 assms(3,4)[of a] by (subst rb_search_from.simps) auto
    moreover have "k \<notin> key ` set (inord l)" using T(7) 3 by auto
    moreover obtain m where "rb_search_from cmp n s (right (nodes s a)) = Some m" "if m = 0 then k \<notin> key ` set (inord r) else m \<in> set (inord r) \<and> key m = k"
      using Nd.IH(2)[OF T(4,6)] by blast
    ultimately show ?thesis using 3 by (cases "m = 0") (simp_all add: image_Un)
  qed
qed

lemma rb_search_ok:
  fixes key :: "nat \<Rightarrow> 'k::linorder"
  assumes "rb_holds s t" "sorted (map key (inord t))" "\<And>a. cmp n a < 0 \<longleftrightarrow> k < key a" "\<And>a. cmp n a = 0 \<longleftrightarrow> k = key a"
  shows "\<exists>r. rb_search cmp n s = Some r \<and> (if r = 0 then k \<notin> key ` set (inord t) else r \<in> set (inord t) \<and> key r = k)"
  unfolding rb_search_def using assms by (intro rb_search_from_ok[where q = 0]) (auto simp: rb_holds_def)

text \<open>An empty tree is valid; \<^verbatim>\<open>rb_remove\<close> takes nothing out: the node stays in the tree and only the count changes.\<close>

lemma rb_init_valid: "rb_valid (rb_tree_init s) Lf"
  by (simp add: rb_valid_def rb_holds_def rb_tree_init_def)

lemma rb_remove_keeps: "rb_valid (rb_remove z s) t = rb_valid s t"
  by (simp add: rb_valid_def rb_holds_def rb_remove_def)

definition rb_example :: rb_tree where
  "rb_example = \<lparr>nodes = (\<lambda>_. \<lparr>parent = 0, left = 0, right = 0, color = 0\<rparr>)
     (5 := \<lparr>parent = 0, left = 3, right = 0, color = 1\<rparr>, 3 := \<lparr>parent = 5, left = 0, right = 0, color = 0\<rparr>), root = 5, count = 2\<rparr>"

lemma rb_example_valid: "rb_valid rb_example (Nd (Nd Lf 3 0 Lf) 5 1 Lf)"
  by (simp add: rb_valid_def rb_holds_def rb_example_def)

theorem rb_insert_correct_witness:
  "\<exists>s' t'. rb_insert (\<lambda>a b. int a - int b) 4 rb_example = Some (Inr s') \<and> rb_valid s' t' \<and> inord t' = [3, 4, 5] \<and> count s' = 3"
proof -
  have "sorted (map (\<lambda>a. a) (inord (Nd (Nd Lf 3 0 Lf) 5 1 Lf)))" by simp
  from rb_insert_correct[OF rb_example_valid _ _ _ this, of 4 "\<lambda>a b. int a - int b"] show ?thesis
    by (auto simp: rb_example_def inc64_def)
qed

theorem rb_steps_in_order_witness:
  "rb_next rb_example 3 = Some (Inr 5) \<and> rb_min rb_example = Some 3"
  using rb_steps_in_order[of rb_example "Nd (Nd Lf 3 0 Lf) 5 1 Lf" "[]" 3 "[5]"] rb_example_valid
  by (simp add: rb_valid_def)

end
