(* ===== verification/Gos_Proc.thy ===== *)
theory Gos_Proc
  imports Gos_Heap
begin

text \<open>
  Processes: the table and its operations (\<^verbatim>\<open>proc/proc.c\<close>), the ready queue and the round-robin
  scheduler (\<^verbatim>\<open>proc/scheduler.c\<close>), the context switch (\<^verbatim>\<open>proc/context.c\<close>) and signals (\<^verbatim>\<open>proc/signal.c\<close>).
  A \<^verbatim>\<open>process_t *\<close> is an index into \<^verbatim>\<open>g_process_table\<close>, \<open>None\<close> is \<^verbatim>\<open>NULL\<close>. Kernel stacks are blocks of the heap;
  the registers the switch saves are part of the state.
\<close>

section \<open>The context switch\<close>

record cpu =
  rsp :: nat
  rip :: nat
  rbx :: nat
  rbp :: nat
  r12 :: nat
  r13 :: nat
  r14 :: nat
  r15 :: nat
  rax :: nat
  rcx :: nat
  rdx :: nat
  rsi :: nat
  rdi :: nat
  r8 :: nat
  r9 :: nat
  r10 :: nat
  r11 :: nat

definition pushq :: "nat \<Rightarrow> mem \<times> cpu \<Rightarrow> mem \<times> cpu" where
  "pushq v s = (case s of (m, c) \<Rightarrow> let sp = sub64 (rsp c) 8 in (write64 sp v m, c\<lparr>rsp := sp\<rparr>))"

definition popq :: "(nat \<Rightarrow> cpu \<Rightarrow> cpu) \<Rightarrow> mem \<times> cpu \<Rightarrow> mem \<times> cpu" where
  "popq f s = (case s of (m, c) \<Rightarrow> (m, (f (read64 m (rsp c)) c)\<lparr>rsp := add64 (rsp c) 8\<rparr>))"

text \<open>
  \<^verbatim>\<open>context_switch\<close> from its first instruction: six pushes, the store of the stack pointer through
  \<^verbatim>\<open>old_rsp\<close>, the new stack pointer, six pops and the return. The first component of the result is the
  value stored through \<^verbatim>\<open>old_rsp\<close>, which the caller finds in the field it passed; a null \<^verbatim>\<open>old_rsp\<close> is
  not tested, and the store goes to address 0.
\<close>

definition save_regs :: "mem \<times> cpu \<Rightarrow> mem \<times> cpu" where
  "save_regs s = (let c = snd s in
     pushq (rbp c) (pushq (r15 c) (pushq (r14 c) (pushq (r13 c) (pushq (r12 c) (pushq (rbx c) s))))))"

definition load_regs :: "mem \<times> cpu \<Rightarrow> mem \<times> cpu" where
  "load_regs s =
     popq (\<lambda>v c. c\<lparr>rip := v\<rparr>) (popq (\<lambda>v c. c\<lparr>rbx := v\<rparr>) (popq (\<lambda>v c. c\<lparr>r12 := v\<rparr>) (popq (\<lambda>v c. c\<lparr>r13 := v\<rparr>)
       (popq (\<lambda>v c. c\<lparr>r14 := v\<rparr>) (popq (\<lambda>v c. c\<lparr>r15 := v\<rparr>) (popq (\<lambda>v c. c\<lparr>rbp := v\<rparr>) s))))))"

definition context_switch :: "bool \<Rightarrow> nat \<Rightarrow> mem \<times> cpu \<Rightarrow> nat \<times> mem \<times> cpu" where
  "context_switch null new_rsp s =
     (case save_regs s of (m, c) \<Rightarrow>
        let m = (if null then write64 0 (rsp c) m else m) in (rsp c, load_regs (m, c\<lparr>rsp := new_rsp\<rparr>)))"

section \<open>State of \<^verbatim>\<open>proc.h\<close> and \<^verbatim>\<open>scheduler.c\<close>\<close>

abbreviation "PROC_MAX_PROCESSES \<equiv> 256 :: nat"
abbreviation "PROC_NAME_MAX \<equiv> 64 :: nat"
abbreviation "PROC_STACK_SIZE \<equiv> 16384 :: nat"

datatype pstate = Unused | Ready | Running | Blocked | Zombie

record process =
  pid :: nat
  ppid :: nat
  pname :: "u8 list"
  state :: pstate
  prsp :: nat
  prip :: nat
  pcr3 :: nat
  stack :: nat
  wake_time :: nat
  exit_code :: int
  pnext :: "nat option"
  pprev :: "nat option"

record sched =
  table :: "process list"
  current :: "nat option"
  next_pid :: nat
  ready_head :: "nat option"
  ready_tail :: "nat option"
  sched_ticks :: nat
  pit_ticks :: nat
  pit_hz :: nat
  tss_rsp0 :: nat
  kheap :: heap
  cpu_regs :: cpu
  cpu_cr3 :: nat

abbreviation proc_at :: "sched \<Rightarrow> nat \<Rightarrow> process" where
  "proc_at st i \<equiv> table st ! i"

definition upd_proc :: "nat \<Rightarrow> (process \<Rightarrow> process) \<Rightarrow> sched \<Rightarrow> sched" where
  "upd_proc i f st = st\<lparr>table := (table st)[i := f (table st ! i)]\<rparr>"

text \<open>
  What \<^verbatim>\<open>strncpy(f, s, n - 1)\<close> and \<^verbatim>\<open>f[n - 1] = 0\<close> leave in a field of \<^verbatim>\<open>n\<close> bytes; the copy stops at the
  first zero byte of the source and pads with zeros.
\<close>

definition strn_field :: "nat \<Rightarrow> u8 list \<Rightarrow> u8 list" where
  "strn_field n s = (let t = take (n - 1) (takeWhile (\<lambda>c. c \<noteq> 0) s) in t @ replicate (n - length t) 0)"

section \<open>\<^verbatim>\<open>proc/scheduler.c\<close>\<close>

definition scheduler_init :: "sched \<Rightarrow> sched" where
  "scheduler_init st = st\<lparr>ready_head := None, ready_tail := None, sched_ticks := 0\<rparr>"

definition scheduler_add :: "nat option \<Rightarrow> sched \<Rightarrow> sched" where
  "scheduler_add p st =
     (case p of None \<Rightarrow> st
      | Some i \<Rightarrow>
          if state (proc_at st i) \<noteq> Ready then st
          else let st = upd_proc i (\<lambda>p. p\<lparr>pnext := None, pprev := ready_tail st\<rparr>) st;
                   st = (case ready_tail st of
                           Some t \<Rightarrow> upd_proc t (\<lambda>p. p\<lparr>pnext := Some i\<rparr>) st
                         | None \<Rightarrow> st\<lparr>ready_head := Some i\<rparr>)
               in st\<lparr>ready_tail := Some i\<rparr>)"

definition scheduler_remove :: "nat option \<Rightarrow> sched \<Rightarrow> sched" where
  "scheduler_remove p st =
     (case p of None \<Rightarrow> st
      | Some i \<Rightarrow>
          let st = (case pprev (proc_at st i) of
                      Some q \<Rightarrow> upd_proc q (\<lambda>p. p\<lparr>pnext := pnext (proc_at st i)\<rparr>) st
                    | None \<Rightarrow> st\<lparr>ready_head := pnext (proc_at st i)\<rparr>);
              st = (case pnext (proc_at st i) of
                      Some q \<Rightarrow> upd_proc q (\<lambda>p. p\<lparr>pprev := pprev (proc_at st i)\<rparr>) st
                    | None \<Rightarrow> st\<lparr>ready_tail := pprev (proc_at st i)\<rparr>)
          in upd_proc i (\<lambda>p. p\<lparr>pnext := None, pprev := None\<rparr>) st)"

definition tss_set_rsp0 :: "nat \<Rightarrow> sched \<Rightarrow> sched" where
  "tss_set_rsp0 v st = st\<lparr>tss_rsp0 := v\<rparr>"

text \<open>
  The call pushes the return address. With a previous process the saved stack pointer goes to its
  \<^verbatim>\<open>rsp\<close> field; without one \<^verbatim>\<open>old_rsp\<close> is \<^verbatim>\<open>NULL\<close> and the store goes to address 0.
\<close>

definition scheduler_switch_to :: "nat option \<Rightarrow> sched \<Rightarrow> sched" where
  "scheduler_switch_to next st =
     (case next of None \<Rightarrow> st
      | Some n \<Rightarrow>
          if next = current st then st
          else let prev = current st;
                   st = st\<lparr>current := next\<rparr>;
                   st = (if stack (proc_at st n) \<noteq> 0 then tss_set_rsp0 (add64 (stack (proc_at st n)) PROC_STACK_SIZE) st else st);
                   new = prsp (proc_at st n);
                   called = pushq (rip (cpu_regs st)) (hmem (kheap st), cpu_regs st)
               in case prev of
                    Some p \<Rightarrow>
                      (if state (proc_at st p) \<noteq> Unused
                       then let (saved, m, c) = context_switch False new called;
                                st = upd_proc p (\<lambda>q. q\<lparr>prsp := saved\<rparr>) st
                            in st\<lparr>kheap := (kheap st)\<lparr>hmem := m\<rparr>, cpu_regs := c\<rparr>
                       else let (_, m, c) = context_switch True new called
                            in st\<lparr>kheap := (kheap st)\<lparr>hmem := m\<rparr>, cpu_regs := c\<rparr>)
                  | None \<Rightarrow> let (_, m, c) = context_switch True new called
                            in st\<lparr>kheap := (kheap st)\<lparr>hmem := m\<rparr>, cpu_regs := c\<rparr>)"

text \<open>The loop that drops processes that are not ready from the head of the queue.\<close>

partial_function (option) drop_unready :: "nat option \<Rightarrow> sched \<Rightarrow> (nat option \<times> sched) option" where
  "drop_unready next st =
     (case next of None \<Rightarrow> Some (None, st)
      | Some n \<Rightarrow>
          if state (proc_at st n) \<noteq> Ready
          then drop_unready (pnext (proc_at st n)) (scheduler_remove (Some n) st)
          else Some (next, st))"

definition yield_requeue :: "sched \<Rightarrow> sched" where
  "yield_requeue st =
     (case current st of None \<Rightarrow> st
      | Some c \<Rightarrow>
          if state (proc_at st c) = Running
          then let st = upd_proc c (\<lambda>p. p\<lparr>state := Ready\<rparr>) st;
                   st = scheduler_remove (Some c) st
               in scheduler_add (Some c) st
          else st)"

definition scheduler_yield :: "sched \<Rightarrow> sched option" where
  "scheduler_yield st =
     (if ready_head st = None then Some st
      else let cur = current st;
               st = yield_requeue st
           in Option.bind (drop_unready (ready_head st) st) (\<lambda>(next, st).
                let n = (case next of Some n \<Rightarrow> n | None \<Rightarrow> 0);
                    st = upd_proc n (\<lambda>p. p\<lparr>state := Running\<rparr>) st
                in Some (if Some n \<noteq> cur then scheduler_switch_to (Some n) st else st)))"

definition wake_one :: "nat \<Rightarrow> sched \<Rightarrow> sched" where
  "wake_one i st =
     (let p = proc_at st i in
      if state p = Blocked \<and> wake_time p > 0 \<and> wake_time p \<le> sched_ticks st
      then scheduler_add (Some i) (upd_proc i (\<lambda>p. p\<lparr>state := Ready, wake_time := 0\<rparr>) st)
      else st)"

definition scheduler_tick :: "sched \<Rightarrow> sched option" where
  "scheduler_tick st =
     (let st = st\<lparr>sched_ticks := inc64 (sched_ticks st)\<rparr>;
          st = fold wake_one [1..<PROC_MAX_PROCESSES] st
      in case current st of
           Some c \<Rightarrow> if ready_head st \<noteq> None \<and> pid (proc_at st c) \<noteq> 0 then scheduler_yield st else Some st
         | None \<Rightarrow> Some st)"

section \<open>\<^verbatim>\<open>proc/proc.c\<close>\<close>

definition proc_init :: "sched \<Rightarrow> sched" where
  "proc_init st =
     (let st = st\<lparr>table := map (\<lambda>p. p\<lparr>state := Unused, pid := 0, pnext := None, pprev := None\<rparr>) (table st)\<rparr>;
          st = upd_proc 0 (\<lambda>p. p\<lparr>pid := 0, ppid := 0, pname := bytes ''idle'' @ 0 # drop 5 (pname p), state := Ready,
                                  prsp := rsp (cpu_regs st), prip := 0, pcr3 := cpu_cr3 st, stack := 0\<rparr>) st
      in st\<lparr>current := Some 0\<rparr>)"

definition find_slot :: "sched \<Rightarrow> nat option" where
  "find_slot st = find (\<lambda>i. state (proc_at st i) = Unused) [1..<PROC_MAX_PROCESSES]"

text \<open>The initial stack: fifteen zero words below the top and the entry point below them.\<close>

definition init_stack :: "nat \<Rightarrow> nat \<Rightarrow> mem \<Rightarrow> nat \<times> mem" where
  "init_stack base entry m =
     (let sp = sub64 (add64 base PROC_STACK_SIZE) (15 * 8);
          m = fold (\<lambda>i m. write64 (sp + i * 8) 0 m) [0..<15] m;
          sp = sub64 sp 8
      in (sp, write64 sp entry m))"

definition proc_create :: "u8 list \<Rightarrow> nat \<Rightarrow> sched \<Rightarrow> (nat option \<times> sched) res option" where
  "proc_create name entry st =
     (case find_slot st of None \<Rightarrow> Some (Inr (None, st))
      | Some slot \<Rightarrow>
          let new_pid = next_pid st;
              st = st\<lparr>next_pid := (next_pid st + 1) mod 2 ^ 32\<rparr>;
              st = upd_proc slot (\<lambda>p. p\<lparr>pid := new_pid,
                     ppid := (case current st of Some c \<Rightarrow> (if c = slot then new_pid else pid (proc_at st c)) | None \<Rightarrow> 0),
                     pname := strn_field PROC_NAME_MAX name, state := Ready\<rparr>) st
          in Option.bind (kmalloc PROC_STACK_SIZE (kheap st)) (\<lambda>r. case r of
               Inl f \<Rightarrow> Some (Inl f)
             | Inr (base, h) \<Rightarrow>
                 let st = upd_proc slot (\<lambda>p. p\<lparr>stack := base\<rparr>) (st\<lparr>kheap := h\<rparr>) in
                 if base = 0 then Some (Inr (None, upd_proc slot (\<lambda>p. p\<lparr>state := Unused\<rparr>) st))
                 else case init_stack base entry (hmem (kheap st)) of (sp, m) \<Rightarrow>
                   let st = st\<lparr>kheap := (kheap st)\<lparr>hmem := m\<rparr>\<rparr>;
                       st = upd_proc slot (\<lambda>p. p\<lparr>prsp := sp, prip := entry, pcr3 := cpu_cr3 st, wake_time := 0, exit_code := 0,
                              pnext := None, pprev := None\<rparr>) st
                   in Some (Inr (Some slot, scheduler_add (Some slot) st))))"

definition proc_destroy :: "nat option \<Rightarrow> sched \<Rightarrow> sched" where
  "proc_destroy p st =
     (case p of None \<Rightarrow> st
      | Some i \<Rightarrow>
          if pid (proc_at st i) = 0 then st
          else let st = scheduler_remove (Some i) st;
                   st = (if stack (proc_at st i) \<noteq> 0
                         then upd_proc i (\<lambda>p. p\<lparr>stack := 0\<rparr>) (st\<lparr>kheap := kfree (stack (proc_at st i)) (kheap st)\<rparr>)
                         else st)
               in upd_proc i (\<lambda>p. p\<lparr>state := Unused, pid := 0\<rparr>) st)"

definition proc_yield :: "sched \<Rightarrow> sched option" where
  "proc_yield st = scheduler_yield st"

definition proc_get_current :: "sched \<Rightarrow> nat option" where
  "proc_get_current st = current st"

definition proc_get_by_pid :: "nat \<Rightarrow> sched \<Rightarrow> nat option" where
  "proc_get_by_pid p st = find (\<lambda>i. pid (proc_at st i) = p \<and> state (proc_at st i) \<noteq> Unused) [0..<PROC_MAX_PROCESSES]"

definition proc_exit :: "int \<Rightarrow> sched \<Rightarrow> sched option" where
  "proc_exit code st =
     (case current st of None \<Rightarrow> Some st
      | Some c \<Rightarrow> if pid (proc_at st c) = 0 then Some st
          else scheduler_yield (upd_proc c (\<lambda>p. p\<lparr>exit_code := code, state := Zombie\<rparr>) st))"

definition proc_sleep :: "nat \<Rightarrow> sched \<Rightarrow> sched option" where
  "proc_sleep ms st =
     (case current st of None \<Rightarrow> Some st
      | Some c \<Rightarrow> if pid (proc_at st c) = 0 then Some st
          else scheduler_yield (upd_proc c (\<lambda>p. p\<lparr>
                 wake_time := add64 (pit_ticks st) ((ms * pit_hz st) mod 2 ^ 64 div 1000), state := Blocked\<rparr>) st))"

section \<open>\<^verbatim>\<open>proc/signal.c\<close>\<close>

abbreviation "SIGKILL \<equiv> 9 :: int"
abbreviation "SIGSEGV \<equiv> 11 :: int"
abbreviation "SIGTERM \<equiv> 15 :: int"

definition signal_send :: "nat option \<Rightarrow> int \<Rightarrow> sched \<Rightarrow> sched option" where
  "signal_send p sig st =
     (case p of None \<Rightarrow> Some st
      | Some i \<Rightarrow>
          if sig < 0 \<or> sig \<ge> 64 then Some st
          else if state (proc_at st i) = Unused then Some st
          else if sig = SIGKILL \<or> sig = SIGSEGV \<or> sig = SIGTERM then proc_exit sig st else Some st)"

text \<open>The rest of the signal interface is stubs: nothing is recorded, no handler is ever installed.\<close>

definition signal_deliver_pending :: "sched \<Rightarrow> sched" where
  "signal_deliver_pending st = (case proc_get_current st of None \<Rightarrow> st | Some _ \<Rightarrow> st)"

definition signal_set_handler :: "int \<Rightarrow> nat \<Rightarrow> sched \<Rightarrow> nat \<times> sched" where
  "signal_set_handler sig handler st = (0, st)"

section \<open>\<^verbatim>\<open>proc/proc_dump.c\<close> and \<^verbatim>\<open>scheduler_dump\<close>: the lines logged\<close>

fun state_str :: "pstate \<Rightarrow> string" where
  "state_str Ready = ''ready''"
| "state_str Running = ''running''"
| "state_str Blocked = ''blocked''"
| "state_str Zombie = ''zombie''"
| "state_str Unused = ''unknown''"

definition proc_dump_all :: "sched \<Rightarrow> (nat \<times> u8 list \<times> string) list" where
  "proc_dump_all st =
     map (\<lambda>i. (pid (proc_at st i), pname (proc_at st i), state_str (state (proc_at st i))))
       (filter (\<lambda>i. state (proc_at st i) \<noteq> Unused) [0..<PROC_MAX_PROCESSES])"

partial_function (option) dump_queue :: "sched \<Rightarrow> nat option \<Rightarrow> (nat \<times> u8 list \<times> pstate) list option" where
  "dump_queue st p =
     (case p of None \<Rightarrow> Some []
      | Some i \<Rightarrow> Option.bind (dump_queue st (pnext (proc_at st i)))
          (\<lambda>ls. Some ((pid (proc_at st i), pname (proc_at st i), state (proc_at st i)) # ls)))"

definition scheduler_dump :: "sched \<Rightarrow> (nat \<times> (nat \<times> u8 list \<times> pstate) list) option" where
  "scheduler_dump st = Option.bind (dump_queue st (ready_head st)) (\<lambda>ls. Some (sched_ticks st, ls))"

section \<open>\<^verbatim>\<open>drivers/pit/pit.c\<close>, the tick and the wait\<close>

abbreviation "PIT_HZ \<equiv> 100 :: nat"

definition pit_handle_tick :: "sched \<Rightarrow> sched option" where
  "pit_handle_tick st = scheduler_tick (st\<lparr>pit_ticks := inc64 (pit_ticks st)\<rparr>)"

definition pit_get_ticks :: "sched \<Rightarrow> nat" where
  "pit_get_ticks st = pit_ticks st"

text \<open>
  \<^verbatim>\<open>ms * PIT_HZ / 1000\<close> is computed in 32 bits. \<open>irq\<close> is what happens while the processor is halted.
\<close>

definition pit_sleep_target :: "nat \<Rightarrow> nat \<Rightarrow> nat" where
  "pit_sleep_target ticks ms = add64 (add64 ticks (ms * PIT_HZ mod 2 ^ 32 div 1000)) 1"

partial_function (option) pit_sleep_loop :: "(sched \<Rightarrow> sched option) \<Rightarrow> nat \<Rightarrow> sched \<Rightarrow> sched option" where
  "pit_sleep_loop irq target st =
     (if pit_ticks st < target then Option.bind (irq st) (pit_sleep_loop irq target) else Some st)"

definition pit_sleep_ms :: "(sched \<Rightarrow> sched option) \<Rightarrow> nat \<Rightarrow> sched \<Rightarrow> sched option" where
  "pit_sleep_ms irq ms st = pit_sleep_loop irq (pit_sleep_target (pit_ticks st) ms) st"

definition pit_wait :: "(sched \<Rightarrow> sched option) \<Rightarrow> nat \<Rightarrow> sched \<Rightarrow> sched option" where
  "pit_wait irq ms st = pit_sleep_ms irq ms st"

section \<open>The ready queue as a list\<close>

definition hdo :: "'a list \<Rightarrow> 'a option \<Rightarrow> 'a option" where
  "hdo xs e = (case xs of [] \<Rightarrow> e | x # _ \<Rightarrow> Some x)"

definition lasto :: "'a option \<Rightarrow> 'a list \<Rightarrow> 'a option" where
  "lasto p xs = (if xs = [] then p else Some (last xs))"

lemma hdo_simps [simp]: "hdo [] e = e" "hdo (x # xs) e = Some x" "hdo (xs @ ys) e = hdo xs (hdo ys e)"
  by (auto simp: hdo_def split: list.splits)

lemma lasto_simps [simp]: "lasto p [] = p" "lasto p (x # xs) = lasto (Some x) xs" "lasto p (xs @ ys) = lasto (lasto p xs) ys"
  by (auto simp: lasto_def)

fun dll :: "process list \<Rightarrow> nat option \<Rightarrow> nat list \<Rightarrow> nat option \<Rightarrow> bool" where
  "dll T p [] e = True"
| "dll T p (x # xs) e = (x < length T \<and> pprev (T ! x) = p \<and> pnext (T ! x) = hdo xs e \<and> dll T (Some x) xs e)"

lemma dll_append [simp]: "dll T p (xs @ ys) e \<longleftrightarrow> dll T p xs (hdo ys e) \<and> dll T (lasto p xs) ys e"
  by (induction xs arbitrary: p) auto

lemma dll_cong:
  assumes "dll T p xs e" "length T' = length T"
    "\<And>x. x \<in> set xs \<Longrightarrow> pnext (T' ! x) = pnext (T ! x) \<and> pprev (T' ! x) = pprev (T ! x)"
  shows "dll T' p xs e"
  using assms by (induction xs arbitrary: p) auto

lemma dll_upd [simp]: "i \<notin> set xs \<Longrightarrow> dll (T[i := q]) p xs e = dll T p xs e"
  by (induction xs arbitrary: p) auto

lemma dll_bound: "dll T p xs e \<Longrightarrow> x \<in> set xs \<Longrightarrow> x < length T"
  by (induction xs arbitrary: p) auto

definition ready_queue :: "sched \<Rightarrow> nat list \<Rightarrow> bool" where
  "ready_queue st xs \<longleftrightarrow> distinct xs \<and> ready_head st = hdo xs None \<and> ready_tail st = lasto None xs \<and> dll (table st) None xs None"

lemma upd_proc_sel [simp]:
  "current (upd_proc i f st) = current st" "ready_head (upd_proc i f st) = ready_head st"
  "ready_tail (upd_proc i f st) = ready_tail st" "table (upd_proc i f st) = (table st)[i := f (table st ! i)]"
  "kheap (upd_proc i f st) = kheap st" "cpu_regs (upd_proc i f st) = cpu_regs st" "next_pid (upd_proc i f st) = next_pid st"
  "sched_ticks (upd_proc i f st) = sched_ticks st" "pit_ticks (upd_proc i f st) = pit_ticks st" "pit_hz (upd_proc i f st) = pit_hz st"
  "cpu_cr3 (upd_proc i f st) = cpu_cr3 st" "tss_rsp0 (upd_proc i f st) = tss_rsp0 st"
  by (simp_all add: upd_proc_def)

lemma lasto_None [simp]: "lasto None xs = None \<longleftrightarrow> xs = []"
  by (simp add: lasto_def)

lemma ready_queue_add:
  assumes "ready_queue st xs" "i \<notin> set xs" "i < length (table st)" "state (proc_at st i) = Ready"
  shows "ready_queue (scheduler_add (Some i) st) (xs @ [i])"
proof (cases xs rule: rev_cases)
  case Nil
  then show ?thesis using assms by (simp add: ready_queue_def scheduler_add_def Let_def)
next
  case (snoc ys y)
  then show ?thesis using assms by (auto simp: ready_queue_def scheduler_add_def Let_def nth_list_update)
qed

lemma ready_queue_remove:
  assumes "ready_queue st (xs @ i # ys)"
  shows "ready_queue (scheduler_remove (Some i) st) (xs @ ys)"
proof (cases xs rule: rev_cases; cases ys)
  assume "xs = []" "ys = []"
  then show ?thesis using assms by (simp add: ready_queue_def scheduler_remove_def Let_def)
next
  fix z zs assume "xs = []" "ys = z # zs"
  then show ?thesis using assms by (auto simp: ready_queue_def scheduler_remove_def Let_def nth_list_update)
next
  fix ws w assume "xs = ws @ [w]" "ys = []"
  then show ?thesis using assms by (auto simp: ready_queue_def scheduler_remove_def Let_def nth_list_update)
next
  fix ws w z zs assume "xs = ws @ [w]" "ys = z # zs"
  then show ?thesis using assms by (auto simp: ready_queue_def scheduler_remove_def Let_def nth_list_update)
qed

lemma scheduler_add_keeps [simp]:
  "current (scheduler_add p st) = current st" "length (table (scheduler_add p st)) = length (table st)"
  "kheap (scheduler_add p st) = kheap st" "cpu_regs (scheduler_add p st) = cpu_regs st" "next_pid (scheduler_add p st) = next_pid st"
  "sched_ticks (scheduler_add p st) = sched_ticks st" "pit_ticks (scheduler_add p st) = pit_ticks st"
  by (auto simp: scheduler_add_def Let_def split: option.splits)

lemma scheduler_remove_keeps [simp]:
  "current (scheduler_remove p st) = current st" "length (table (scheduler_remove p st)) = length (table st)"
  "kheap (scheduler_remove p st) = kheap st" "cpu_regs (scheduler_remove p st) = cpu_regs st" "next_pid (scheduler_remove p st) = next_pid st"
  "sched_ticks (scheduler_remove p st) = sched_ticks st" "pit_ticks (scheduler_remove p st) = pit_ticks st"
  by (auto simp: scheduler_remove_def Let_def split: option.splits)

lemma upd_nth_keep: "g v = g (T ! i) \<Longrightarrow> g (T[i := v] ! j) = g (T ! j)"
  by (cases "i < length T") (auto simp: nth_list_update list_update_beyond)

lemmas upd_fields = upd_nth_keep[where g = state] upd_nth_keep[where g = pid] upd_nth_keep[where g = stack]
  upd_nth_keep[where g = prsp] upd_nth_keep[where g = wake_time] upd_nth_keep[where g = exit_code]
  upd_nth_keep[where g = pnext] upd_nth_keep[where g = pprev]
  upd_nth_keep[where g = pname]

lemma scheduler_add_fields [simp]:
  "state (proc_at (scheduler_add p st) j) = state (proc_at st j)" "pid (proc_at (scheduler_add p st) j) = pid (proc_at st j)"
  "stack (proc_at (scheduler_add p st) j) = stack (proc_at st j)" "prsp (proc_at (scheduler_add p st) j) = prsp (proc_at st j)"
  "wake_time (proc_at (scheduler_add p st) j) = wake_time (proc_at st j)" "exit_code (proc_at (scheduler_add p st) j) = exit_code (proc_at st j)"
  "pname (proc_at (scheduler_add p st) j) = pname (proc_at st j)"
  by (auto simp: scheduler_add_def Let_def upd_fields split: option.splits)

lemma scheduler_remove_fields [simp]:
  "state (proc_at (scheduler_remove p st) j) = state (proc_at st j)" "pid (proc_at (scheduler_remove p st) j) = pid (proc_at st j)"
  "stack (proc_at (scheduler_remove p st) j) = stack (proc_at st j)" "prsp (proc_at (scheduler_remove p st) j) = prsp (proc_at st j)"
  "wake_time (proc_at (scheduler_remove p st) j) = wake_time (proc_at st j)" "exit_code (proc_at (scheduler_remove p st) j) = exit_code (proc_at st j)"
  "pname (proc_at (scheduler_remove p st) j) = pname (proc_at st j)"
  by (auto simp: scheduler_remove_def Let_def upd_fields split: option.splits)

section \<open>Operations on the queue as one contract\<close>

datatype qop = Add nat | Remove nat

fun run_qop :: "qop \<Rightarrow> sched \<Rightarrow> sched" where
  "run_qop (Add i) st = scheduler_add (Some i) st"
| "run_qop (Remove i) st = scheduler_remove (Some i) st"

fun spec_qop :: "qop \<Rightarrow> nat list \<Rightarrow> nat list" where
  "spec_qop (Add i) xs = xs @ [i]"
| "spec_qop (Remove i) xs = remove1 i xs"

text \<open>An addition is of a ready process that is not queued, a removal of one that is.\<close>

fun qops_ok :: "sched \<Rightarrow> nat list \<Rightarrow> qop list \<Rightarrow> bool" where
  "qops_ok st xs [] = True"
| "qops_ok st xs (Add i # os) = (i \<notin> set xs \<and> i < length (table st) \<and> state (proc_at st i) = Ready \<and> qops_ok st (xs @ [i]) os)"
| "qops_ok st xs (Remove i # os) = (i \<in> set xs \<and> qops_ok st (remove1 i xs) os)"

lemma ready_queue_remove1:
  assumes "ready_queue st xs" "i \<in> set xs"
  shows "ready_queue (scheduler_remove (Some i) st) (remove1 i xs)"
proof -
  obtain as bs where "xs = as @ i # bs" "i \<notin> set as" using assms(2) split_list_first by metis
  then show ?thesis using ready_queue_remove assms(1) by (simp add: remove1_append)
qed

lemma qops_ok_cong:
  "length (table st') = length (table st) \<Longrightarrow> (\<And>i. state (proc_at st' i) = state (proc_at st i)) \<Longrightarrow> qops_ok st' xs os = qops_ok st xs os"
  by (induction st xs os rule: qops_ok.induct) auto

text \<open>C13 (ready_queue_refines): the linked ready queue behaves as a list: any sequence of \<^verbatim>\<open>scheduler_add\<close> of unqueued ready
  processes and \<^verbatim>\<open>scheduler_remove\<close> of queued ones leaves head, tail and all links representing the list that the
  same appends and deletions give.\<close>

theorem ready_queue_refines:
  assumes "ready_queue st xs" "qops_ok st xs os"
  shows "ready_queue (fold run_qop os st) (fold spec_qop os xs)"
  using assms
proof (induction os arbitrary: st xs)
  case (Cons a os)
  show ?case
  proof (cases a)
    case (Add i)
    then have "ready_queue (scheduler_add (Some i) st) (xs @ [i])" using Cons.prems ready_queue_add by simp
    moreover have "qops_ok (scheduler_add (Some i) st) (xs @ [i]) os"
      using Cons.prems(2) Add qops_ok_cong[of "scheduler_add (Some i) st" st "xs @ [i]" os] by simp
    ultimately show ?thesis using Cons.IH Add by simp
  next
    case (Remove i)
    then have "ready_queue (scheduler_remove (Some i) st) (remove1 i xs)" using Cons.prems ready_queue_remove1 by simp
    moreover have "qops_ok (scheduler_remove (Some i) st) (remove1 i xs) os"
      using Cons.prems(2) Remove qops_ok_cong[of "scheduler_remove (Some i) st" st "remove1 i xs" os] by simp
    ultimately show ?thesis using Cons.IH Remove by simp
  qed
qed simp

section \<open>Round robin\<close>

text \<open>
  The running process stays at the head of the queue while it runs. \<open>round_robin st xs\<close>: \<open>xs\<close> is the
  queue, its head is current and running and the others are ready.
\<close>

definition round_robin :: "sched \<Rightarrow> nat list \<Rightarrow> bool" where
  "round_robin st xs \<longleftrightarrow> ready_queue st xs \<and> xs \<noteq> [] \<and> current st = Some (hd xs)
     \<and> state (proc_at st (hd xs)) = Running \<and> (\<forall>i \<in> set (tl xs). state (proc_at st i) = Ready)"

lemma ready_queue_cong:
  assumes "ready_queue st xs" "ready_head st' = ready_head st" "ready_tail st' = ready_tail st" "length (table st') = length (table st)"
    "\<And>x. x \<in> set xs \<Longrightarrow> pnext (table st' ! x) = pnext (table st ! x) \<and> pprev (table st' ! x) = pprev (table st ! x)"
  shows "ready_queue st' xs"
  using assms dll_cong[of "table st" None xs None "table st'"] by (auto simp: ready_queue_def)

lemma switch_to_keeps [simp]:
  "ready_head (scheduler_switch_to p st) = ready_head st" "ready_tail (scheduler_switch_to p st) = ready_tail st"
  "length (table (scheduler_switch_to p st)) = length (table st)"
  "pnext (proc_at (scheduler_switch_to p st) i) = pnext (proc_at st i)"
  "pprev (proc_at (scheduler_switch_to p st) i) = pprev (proc_at st i)"
  "state (proc_at (scheduler_switch_to p st) i) = state (proc_at st i)"
  "pid (proc_at (scheduler_switch_to p st) i) = pid (proc_at st i)"
  "stack (proc_at (scheduler_switch_to p st) i) = stack (proc_at st i)"
  "wake_time (proc_at (scheduler_switch_to p st) i) = wake_time (proc_at st i)"
  "exit_code (proc_at (scheduler_switch_to p st) i) = exit_code (proc_at st i)"
  "pname (proc_at (scheduler_switch_to p st) i) = pname (proc_at st i)"
  "next_pid (scheduler_switch_to p st) = next_pid st"
  "sched_ticks (scheduler_switch_to p st) = sched_ticks st"
  by (auto simp: scheduler_switch_to_def Let_def tss_set_rsp0_def upd_fields split: option.splits prod.splits)

lemma switch_to_current: "current (scheduler_switch_to (Some n) st) = Some n"
  by (auto simp: scheduler_switch_to_def Let_def tss_set_rsp0_def split: option.splits prod.splits)

lemma upd_state_queue:
  "ready_queue st xs \<Longrightarrow> ready_queue (upd_proc i (\<lambda>p. p\<lparr>state := s\<rparr>) st) xs"
  by (erule ready_queue_cong) (auto simp: upd_fields)

lemma yield_rotates:
  assumes "round_robin st xs"
  shows "\<exists>st'. scheduler_yield st = Some st' \<and> round_robin st' (rotate1 xs) \<and> sched_ticks st' = sched_ticks st
    \<and> (\<forall>i. wake_time (proc_at st' i) = wake_time (proc_at st i))
    \<and> (\<forall>i. i \<notin> set xs \<longrightarrow> state (proc_at st' i) = state (proc_at st i))"
proof -
  obtain c ys where xs: "xs = c # ys" using assms by (cases xs) (auto simp: round_robin_def)
  let ?s0 = "upd_proc c (\<lambda>p. p\<lparr>state := Ready\<rparr>) st"
  let ?s1 = "scheduler_remove (Some c) ?s0" and ?s2 = "scheduler_add (Some c) (scheduler_remove (Some c) ?s0)"
  have A: "ready_queue st (c # ys)" "current st = Some c" "state (proc_at st c) = Running" "\<forall>i\<in>set ys. state (proc_at st i) = Ready"
    using assms xs by (auto simp: round_robin_def)
  have c: "c < length (table st)" "c \<notin> set ys" "ready_head st = Some c" using A(1) by (auto simp: ready_queue_def)
  have st0: "state (proc_at ?s0 c) = Ready" using c by simp
  have "ready_queue ?s0 (c # ys)" using A(1) by (rule upd_state_queue)
  then have Q1: "ready_queue ?s1 ys" using ready_queue_remove[of ?s0 "[]" c ys] by simp
  then have Q2: "ready_queue ?s2 (ys @ [c])" using c st0 by (intro ready_queue_add) auto
  have R: "yield_requeue st = ?s2" using A(2,3) by (simp add: yield_requeue_def)
  obtain n zs where nz: "ys @ [c] = n # zs" by (cases ys) auto
  have sn: "i \<in> set (ys @ [c]) \<Longrightarrow> state (proc_at ?s2 i) = Ready" for i
    using A(4) c(1,2) st0 by (auto simp: nth_list_update)
  have hd2: "ready_head ?s2 = Some n" "n < length (table st)" using Q2 nz dll_bound[of "table ?s2" None "ys @ [c]" None n]
    by (auto simp: ready_queue_def)
  have D: "drop_unready (Some n) ?s2 = Some (Some n, ?s2)"
    using sn[of n] nz by (subst drop_unready.simps) simp
  let ?s3 = "upd_proc n (\<lambda>p. p\<lparr>state := Running\<rparr>) ?s2"
  let ?r = "if Some n \<noteq> current st then scheduler_switch_to (Some n) ?s3 else ?s3"
  have Y: "scheduler_yield st = Some ?r"
    using D hd2 R c(3) A(2) by (simp add: scheduler_yield_def Let_def)
  have Q3: "ready_queue ?s3 (n # zs)" using Q2 nz upd_state_queue by simp
  have "ready_queue ?r (n # zs)"
    by (rule ready_queue_cong[OF Q3]) auto
  moreover have "current ?r = Some n" using A(2) by (simp add: switch_to_current)
  moreover have "state (proc_at ?r n) = Running" using hd2(2) by simp
  moreover have "\<forall>i\<in>set zs. state (proc_at ?r i) = Ready"
  proof
    fix i assume i: "i \<in> set zs"
    then have "i \<noteq> n" using Q2 nz by (auto simp: ready_queue_def)
    then show "state (proc_at ?r i) = Ready" using sn[of i] i nz by simp
  qed
  ultimately have "round_robin ?r (n # zs)" by (simp add: round_robin_def)
  moreover have "sched_ticks ?r = sched_ticks st" "\<forall>i. wake_time (proc_at ?r i) = wake_time (proc_at st i)"
    by (simp_all add: upd_fields)
  moreover have "n \<in> set xs" using nz xs by (cases ys) auto
  then have "state (proc_at ?r i) = state (proc_at st i)" if "i \<notin> set xs" for i
  proof -
    have "i \<noteq> n" "i \<noteq> c" using that \<open>n \<in> set xs\<close> xs by auto
    then show ?thesis by simp
  qed
  ultimately show ?thesis using Y xs nz by (intro exI[of _ ?r]) simp
qed

primrec yields :: "nat \<Rightarrow> sched \<Rightarrow> sched option" where
  "yields 0 st = Some st"
| "yields (Suc k) st = Option.bind (yields k st) scheduler_yield"

text \<open>C10 (yield_round_robin): with the running process at the head of a queue of ready processes every \<^verbatim>\<open>scheduler_yield\<close> returns
  and after \<^verbatim>\<open>k\<close> of them process number \<^verbatim>\<open>k mod n\<close> of the queue is the current one: each of the \<^verbatim>\<open>n\<close> processes runs once in
  every \<^verbatim>\<open>n\<close> yields.\<close>

theorem yield_round_robin:
  assumes "round_robin st xs"
  shows "\<exists>st'. yields k st = Some st' \<and> round_robin st' (rotate k xs) \<and> current st' = Some (xs ! (k mod length xs))"
proof -
  have "\<exists>st'. yields k st = Some st' \<and> round_robin st' (rotate k xs)"
  proof (induction k)
    case (Suc k)
    then obtain s where "yields k st = Some s" "round_robin s (rotate k xs)" by blast
    then show ?case using yield_rotates[of s "rotate k xs"] by auto
  qed (use assms in simp)
  moreover have "xs \<noteq> []" using assms by (simp add: round_robin_def)
  ultimately show ?thesis by (auto simp: round_robin_def hd_rotate_conv_nth)
qed

section \<open>Saving and restoring the registers\<close>

definition cpu_ok :: "cpu \<Rightarrow> bool" where
  "cpu_ok c \<longleftrightarrow> rip c < 2 ^ 64 \<and> rbx c < 2 ^ 64 \<and> rbp c < 2 ^ 64 \<and> r12 c < 2 ^ 64 \<and> r13 c < 2 ^ 64 \<and> r14 c < 2 ^ 64 \<and> r15 c < 2 ^ 64
     \<and> 56 \<le> rsp c \<and> rsp c < 2 ^ 64"

lemma load_regs_eq:
  assumes "rsp c + 56 < 2 ^ 64"
  shows "load_regs (m, c) = (m, c\<lparr>rsp := rsp c + 56, rip := read64 m (rsp c + 48), rbx := read64 m (rsp c + 40), rbp := read64 m (rsp c),
     r12 := read64 m (rsp c + 32), r13 := read64 m (rsp c + 24), r14 := read64 m (rsp c + 16), r15 := read64 m (rsp c + 8)\<rparr>)"
  using assms by (cases c) (simp add: load_regs_def popq_def add64_nowrap ac_simps)

lemma save_regs_eq:
  assumes "48 \<le> rsp c" "rsp c < 2 ^ 64"
  shows "save_regs (m, c) = (write64 (rsp c - 48) (rbp c) (write64 (rsp c - 40) (r15 c) (write64 (rsp c - 32) (r14 c)
     (write64 (rsp c - 24) (r13 c) (write64 (rsp c - 16) (r12 c) (write64 (rsp c - 8) (rbx c) m))))), c\<lparr>rsp := rsp c - 48\<rparr>)"
  using assms by (cases c) (simp add: save_regs_def pushq_def sub64_nowrap Let_def)

lemma save_regs_frame:
  assumes "48 \<le> rsp c" "rsp c < 2 ^ 64" "x < rsp c - 48 \<or> rsp c \<le> x"
  shows "fst (save_regs (m, c)) x = m x"
proof -
  have W: "write64 a v n x = n x" if "rsp c - 48 \<le> a" "a + 8 \<le> rsp c" for a v n
    by (rule write64_other) (use that assms(3) in linarith)
  show ?thesis using assms(1,2) by (simp add: save_regs_eq W)
qed

text \<open>What a switch away from a process leaves: its seven words on its stack, and where they start.\<close>

lemma switch_out:
  assumes c: "cpu_ok (cpu_regs st)" and a: "current st = Some a" "a < length (table st)" "state (proc_at st a) \<noteq> Unused" "b \<noteq> a"
    and p: "rsp (cpu_regs st) = p + 56"
  shows "prsp (proc_at (scheduler_switch_to (Some b) st) a) = p"
    "hmem (kheap (scheduler_switch_to (Some b) st)) = write64 p (rbp (cpu_regs st)) (write64 (p + 8) (r15 (cpu_regs st))
       (write64 (p + 16) (r14 (cpu_regs st)) (write64 (p + 24) (r13 (cpu_regs st)) (write64 (p + 32) (r12 (cpu_regs st))
       (write64 (p + 40) (rbx (cpu_regs st)) (write64 (p + 48) (rip (cpu_regs st)) (hmem (kheap st))))))))"
proof -
  let ?c = "cpu_regs st"
  have b: "p + 56 < 2 ^ 64" using c p by (simp add: cpu_ok_def)
  have push: "pushq (rip ?c) (hmem (kheap st), ?c) = (write64 (p + 48) (rip ?c) (hmem (kheap st)), ?c\<lparr>rsp := p + 48\<rparr>)"
    using p b by (simp add: pushq_def sub64_nowrap Let_def add.commute)
  have S: "save_regs (pushq (rip ?c) (hmem (kheap st), ?c)) = (write64 p (rbp ?c) (write64 (p + 8) (r15 ?c)
       (write64 (p + 16) (r14 ?c) (write64 (p + 24) (r13 ?c) (write64 (p + 32) (r12 ?c)
       (write64 (p + 40) (rbx ?c) (write64 (p + 48) (rip ?c) (hmem (kheap st)))))))), ?c\<lparr>rsp := p\<rparr>)"
    unfolding push using b by (subst save_regs_eq) (auto simp: add.commute)
  have "fst (load_regs (m, d)) = m" for m d by (simp add: load_regs_def popq_def)
  then show "prsp (proc_at (scheduler_switch_to (Some b) st) a) = p"
    "hmem (kheap (scheduler_switch_to (Some b) st)) = write64 p (rbp ?c) (write64 (p + 8) (r15 ?c)
       (write64 (p + 16) (r14 ?c) (write64 (p + 24) (r13 ?c) (write64 (p + 32) (r12 ?c)
       (write64 (p + 40) (rbx ?c) (write64 (p + 48) (rip ?c) (hmem (kheap st))))))))"
    using a S by (auto simp: scheduler_switch_to_def Let_def tss_set_rsp0_def context_switch_def split: prod.splits) (metis fst_conv)+
qed

text \<open>What a switch to a process does with the words at its saved stack pointer, when the stack in use does not overlap them.\<close>

lemma switch_in:
  assumes d: "current st = Some d" "d \<noteq> a" "state (proc_at st d) \<noteq> Unused"
    and c: "56 \<le> rsp (cpu_regs st)" "rsp (cpu_regs st) < 2 ^ 64"
    and p: "prsp (proc_at st a) = p" "p + 56 < 2 ^ 64" "rsp (cpu_regs st) \<le> p \<or> p + 56 \<le> rsp (cpu_regs st) - 56"
  shows "cpu_regs (scheduler_switch_to (Some a) st) = (cpu_regs st)\<lparr>rsp := p + 56, rip := read64 (hmem (kheap st)) (p + 48),
     rbx := read64 (hmem (kheap st)) (p + 40), rbp := read64 (hmem (kheap st)) p, r12 := read64 (hmem (kheap st)) (p + 32),
     r13 := read64 (hmem (kheap st)) (p + 24), r14 := read64 (hmem (kheap st)) (p + 16), r15 := read64 (hmem (kheap st)) (p + 8)\<rparr>"
proof -
  let ?c = "cpu_regs st" and ?m = "hmem (kheap st)"
  define m1 where "m1 = write64 (rsp ?c - 8) (rip ?c) ?m"
  have push: "pushq (rip ?c) (?m, ?c) = (m1, ?c\<lparr>rsp := rsp ?c - 8\<rparr>)" using c by (simp add: pushq_def sub64_nowrap Let_def m1_def)
  let ?c1 = "?c\<lparr>rsp := rsp ?c - 8\<rparr>"
  have sd: "snd (save_regs (m1, ?c1)) = ?c1\<lparr>rsp := rsp ?c - 56\<rparr>" using c by (simp add: save_regs_eq)
  define m3 where "m3 = fst (save_regs (m1, ?c1))"
  have "m3 x = ?m x" if "p \<le> x" "x < p + 56" for x
  proof -
    have "m3 x = m1 x" unfolding m3_def by (rule save_regs_frame) (use that c p(3) in auto)
    also have "m1 x = ?m x" unfolding m1_def by (rule write64_other) (use that c p(3) in auto)
    finally show ?thesis .
  qed
  then have rd: "read64 m3 (p + k) = read64 ?m (p + k)" if "k + 8 \<le> 56" for k
    by (intro read64_cong) (use that in auto)
  have L: "load_regs (m3, ?c1\<lparr>rsp := p\<rparr>) = (m3, ?c\<lparr>rsp := p + 56, rip := read64 ?m (p + 48),
     rbx := read64 ?m (p + 40), rbp := read64 ?m p, r12 := read64 ?m (p + 32),
     r13 := read64 ?m (p + 24), r14 := read64 ?m (p + 16), r15 := read64 ?m (p + 8)\<rparr>)"
    using p(2) rd[of 0] rd[of 8] rd[of 16] rd[of 24] rd[of 32] rd[of 40] rd[of 48] by (simp add: load_regs_eq)
  have "context_switch False p (pushq (rip ?c) (?m, ?c)) = (rsp ?c - 56, load_regs (m3, ?c1\<lparr>rsp := p\<rparr>))"
    using sd by (auto simp: context_switch_def push m3_def split: prod.splits)
  then show ?thesis using d p(1) L by (auto simp: scheduler_switch_to_def Let_def tss_set_rsp0_def split: prod.splits)
qed

text \<open>C11 (context_switch_resumes): a process that \<^verbatim>\<open>scheduler_switch_to\<close> switches away from and later switches back to resumes with the
  callee-saved registers it had, at the return address of its call and with its stack pointer as before the
  call, provided that in between nothing changed its saved stack pointer or the 56 bytes below its stack pointer, and the
  process running then does not use that part of the stack. The caller-saved registers are not saved: they are what the processor holds.\<close>

theorem context_switch_resumes:
  assumes "cpu_ok (cpu_regs st)" "current st = Some a" "a < length (table st)" "state (proc_at st a) \<noteq> Unused" "b \<noteq> a"
    and "out = scheduler_switch_to (Some b) st"
    and "prsp (proc_at st2 a) = prsp (proc_at out a)"
    and "\<forall>x. rsp (cpu_regs st) - 56 \<le> x \<and> x < rsp (cpu_regs st) \<longrightarrow> hmem (kheap st2) x = hmem (kheap out) x"
    and "current st2 = Some d" "d \<noteq> a" "state (proc_at st2 d) \<noteq> Unused" "56 \<le> rsp (cpu_regs st2)" "rsp (cpu_regs st2) < 2 ^ 64"
    and "rsp (cpu_regs st2) \<le> rsp (cpu_regs st) - 56 \<or> rsp (cpu_regs st) \<le> rsp (cpu_regs st2) - 56"
  shows "cpu_regs (scheduler_switch_to (Some a) st2) =
    (cpu_regs st2)\<lparr>rsp := rsp (cpu_regs st), rip := rip (cpu_regs st), rbx := rbx (cpu_regs st), rbp := rbp (cpu_regs st),
       r12 := r12 (cpu_regs st), r13 := r13 (cpu_regs st), r14 := r14 (cpu_regs st), r15 := r15 (cpu_regs st)\<rparr>"
proof -
  let ?c = "cpu_regs st"
  define p where "p = rsp ?c - 56"
  have p: "rsp ?c = p + 56" "p + 56 < 2 ^ 64" using assms(1) by (auto simp: cpu_ok_def p_def)
  note O = switch_out[OF assms(1-5) p(1)]
  have rd: "read64 (hmem (kheap st2)) (p + k) = read64 (hmem (kheap out)) (p + k)" if "k + 8 \<le> 56" for k
    by (rule read64_cong) (use that assms(8) p(1) in auto)
  have F: "read64 (hmem (kheap out)) p = rbp ?c" "read64 (hmem (kheap out)) (p + 8) = r15 ?c" "read64 (hmem (kheap out)) (p + 16) = r14 ?c"
    "read64 (hmem (kheap out)) (p + 24) = r13 ?c" "read64 (hmem (kheap out)) (p + 32) = r12 ?c" "read64 (hmem (kheap out)) (p + 40) = rbx ?c"
    "read64 (hmem (kheap out)) (p + 48) = rip ?c"
    using assms(1) unfolding assms(6) O(2) cpu_ok_def by (simp_all add: read64_write_same read64_write_other)
  have I: "prsp (proc_at st2 a) = p" using assms(7) O(1) by (simp add: assms(6))
  have "rsp (cpu_regs st2) \<le> p \<or> p + 56 \<le> rsp (cpu_regs st2) - 56" using assms(14) p(1) by auto
  from switch_in[OF assms(9-13) I p(2) this] show ?thesis
    using F rd[of 0] rd[of 8] rd[of 16] rd[of 24] rd[of 32] rd[of 40] rd[of 48] p(1) by simp
qed

lemma zeros_read:
  "k < n \<Longrightarrow> read64 (fold (\<lambda>i m. write64 (sp + i * 8) 0 m) [0..<n] m) (sp + k * 8) = 0"
proof (induction n)
  case (Suc n)
  then show ?case by (cases "k = n") (auto simp: read64_write_same read64_write_other)
qed simp

text \<open>The first switch to a new process does not reach its entry point. \<^verbatim>\<open>proc_create\<close> puts the entry
  below fifteen zero words, \<^verbatim>\<open>context_switch\<close> pops six registers and returns to the seventh word: the entry
  ends up in \<^verbatim>\<open>rbp\<close> and control returns to address 0.\<close>

lemma first_switch_returns_to_zero:
  assumes "base + PROC_STACK_SIZE < 2 ^ 64" "entry < 2 ^ 64" "init_stack base entry m = (sp, m1)"
    and "48 \<le> rsp c" "rsp c < 2 ^ 64" "rsp c \<le> base \<or> base + PROC_STACK_SIZE \<le> rsp c - 48"
  shows "rip (snd (snd (context_switch False sp (m1, c)))) = 0 \<and> rbp (snd (snd (context_switch False sp (m1, c)))) = entry"
proof -
  let ?top = "base + 16264"
  let ?z = "fold (\<lambda>i m. write64 (?top + i * 8) 0 m) [0..<15] m"
  have I: "sp = base + 16256" "m1 = write64 (base + 16256) entry ?z"
    using assms(1,3) by (auto simp: init_stack_def Let_def add64_nowrap sub64_nowrap add.commute simp del: upt_rec_numeral upt_Suc)
  let ?m3 = "fst (save_regs (m1, c))"
  have m3: "read64 ?m3 (sp + k) = read64 m1 (sp + k)" if "k + 8 \<le> 128" for k
    by (rule read64_cong, rule save_regs_frame) (use that assms(4-6) I in auto)
  have z: "read64 ?z (?top + 5 * 8) = 0" by (rule zeros_read) simp
  have e: "read64 m1 (sp + 48) = 0" "read64 m1 sp = entry"
    using z assms(2) unfolding I by (simp_all only: read64_write_same) (simp add: read64_write_other del: upt_rec_numeral)
  have "snd (context_switch False sp (m1, c)) = load_regs (?m3, (snd (save_regs (m1, c)))\<lparr>rsp := sp\<rparr>)"
    by (simp add: context_switch_def split: prod.splits)
  then show ?thesis using m3[of 48] m3[of 0] e assms(1) I(1) by (simp add: load_regs_eq)
qed

section \<open>Leaving the processor\<close>

lemma upd_proc_queue:
  assumes "ready_queue st xs" "\<And>p. pnext (f p) = pnext p" "\<And>p. pprev (f p) = pprev p"
  shows "ready_queue (upd_proc i f st) xs"
  by (rule ready_queue_cong[OF assms(1)]) (auto simp: upd_fields assms(2,3))

text \<open>A yield by a head that is neither running nor ready drops it and runs the second process of the queue.\<close>

lemma yield_drops_head:
  assumes "ready_queue st (c # y # ys)" "current st = Some c" "state (proc_at st c) \<notin> {Ready, Running}"
    "\<forall>i\<in>set (y # ys). state (proc_at st i) = Ready"
  shows "\<exists>st'. scheduler_yield st = Some st' \<and> round_robin st' (y # ys) \<and> state (proc_at st' c) = state (proc_at st c)
    \<and> wake_time (proc_at st' c) = wake_time (proc_at st c) \<and> exit_code (proc_at st' c) = exit_code (proc_at st c)"
proof -
  let ?s1 = "scheduler_remove (Some c) st"
  let ?s2 = "upd_proc y (\<lambda>p. p\<lparr>state := Running\<rparr>) ?s1"
  let ?r = "scheduler_switch_to (Some y) ?s2"
  have D: "c \<noteq> y" "c \<notin> set ys" "y \<notin> set ys" "ready_head st = Some c" "pnext (proc_at st c) = Some y" "y < length (table st)"
    using assms(1) by (auto simp: ready_queue_def)
  have R: "yield_requeue st = st" using assms(2,3) by (simp add: yield_requeue_def)
  have "drop_unready (Some c) st = drop_unready (Some y) ?s1"
    using assms(3) D(5) by (subst drop_unready.simps) simp
  also have "\<dots> = Some (Some y, ?s1)" using assms(4) by (subst drop_unready.simps) simp
  finally have Y: "scheduler_yield st = Some ?r"
    using D(1,4) R assms(2) by (simp add: scheduler_yield_def Let_def)
  have Q1: "ready_queue ?s1 (y # ys)" using ready_queue_remove[of st "[]" c "y # ys"] assms(1) by simp
  have Q2: "ready_queue ?s2 (y # ys)" by (rule upd_proc_queue[OF Q1]) auto
  have "ready_queue ?r (y # ys)" by (rule ready_queue_cong[OF Q2]) auto
  moreover have "state (proc_at ?r y) = Running" using D(6) by simp
  moreover have "\<forall>i\<in>set ys. state (proc_at ?r i) = Ready"
  proof
    fix i assume "i \<in> set ys"
    then show "state (proc_at ?r i) = Ready" using D(3) assms(4) by (cases "i = y") auto
  qed
  ultimately have "round_robin ?r (y # ys)" by (simp add: round_robin_def switch_to_current)
  moreover have "state (proc_at ?r c) = state (proc_at st c)" "wake_time (proc_at ?r c) = wake_time (proc_at st c)"
    "exit_code (proc_at ?r c) = exit_code (proc_at st c)"
    using D(1) by (auto simp: upd_fields)
  ultimately show ?thesis using Y by blast
qed

lemma leave_head:
  assumes "round_robin st (c # y # ys)" "\<And>p. pnext (f p) = pnext p" "\<And>p. pprev (f p) = pprev p"
    "state (f (proc_at st c)) \<notin> {Ready, Running}"
  shows "\<exists>st'. scheduler_yield (upd_proc c f st) = Some st' \<and> round_robin st' (y # ys)
    \<and> state (proc_at st' c) = state (f (proc_at st c)) \<and> wake_time (proc_at st' c) = wake_time (f (proc_at st c))
    \<and> exit_code (proc_at st' c) = exit_code (f (proc_at st c))"
proof -
  let ?s = "upd_proc c f st"
  have rq: "ready_queue st (c # y # ys)" and cu: "current st = Some c" and rd: "\<forall>i\<in>set (y # ys). state (proc_at st i) = Ready"
    using assms(1) by (auto simp: round_robin_def)
  have c: "c < length (table st)" "c \<notin> set (y # ys)" using rq by (auto simp: ready_queue_def)
  have Q: "ready_queue ?s (c # y # ys)" by (rule upd_proc_queue[OF rq assms(2,3)])
  have s: "proc_at ?s c = f (proc_at st c)" using c by simp
  have r: "\<forall>i\<in>set (y # ys). state (proc_at ?s i) = Ready"
  proof
    fix i assume i: "i \<in> set (y # ys)"
    then have "i \<noteq> c" using c(2) by auto
    then show "state (proc_at ?s i) = Ready" using rd i by auto
  qed
  have cur: "current ?s = Some c" using cu by simp
  have ns: "state (proc_at ?s c) \<notin> {Ready, Running}" unfolding s by (rule assms(4))
  show ?thesis using yield_drops_head[OF Q cur ns r] unfolding s .
qed

text \<open>C28 (proc_exit_hands_over): a process that exits becomes a zombie with its exit code, is no longer queued, and the next process of
  the queue runs.\<close>

theorem proc_exit_hands_over:
  assumes "round_robin st (c # y # ys)" "pid (proc_at st c) \<noteq> 0"
  shows "\<exists>st'. proc_exit code st = Some st' \<and> round_robin st' (y # ys) \<and> state (proc_at st' c) = Zombie \<and> exit_code (proc_at st' c) = code"
proof -
  have "current st = Some c" using assms(1) by (simp add: round_robin_def)
  then show ?thesis using leave_head[OF assms(1), of "\<lambda>p. p\<lparr>exit_code := code, state := Zombie\<rparr>"] assms(2)
    by (auto simp: proc_exit_def)
qed

lemma proc_sleep_blocks:
  assumes "round_robin st (c # y # ys)" "pid (proc_at st c) \<noteq> 0"
  shows "\<exists>st'. proc_sleep ms st = Some st' \<and> round_robin st' (y # ys) \<and> state (proc_at st' c) = Blocked
    \<and> wake_time (proc_at st' c) = add64 (pit_ticks st) ((ms * pit_hz st) mod 2 ^ 64 div 1000)"
proof -
  have "current st = Some c" using assms(1) by (simp add: round_robin_def)
  then show ?thesis using leave_head[OF assms(1),
      of "\<lambda>p. p\<lparr>wake_time := add64 (pit_ticks st) ((ms * pit_hz st) mod 2 ^ 64 div 1000), state := Blocked\<rparr>"] assms(2)
    by (auto simp: proc_sleep_def)
qed

text \<open>A fatal signal sent to another process terminates the sender: the current process becomes a zombie and
  the target stays in the queue.\<close>

lemma signal_kills_sender:
  assumes "round_robin st (c # y # ys)" "pid (proc_at st c) \<noteq> 0" "i \<in> set (y # ys)" "sig \<in> {SIGKILL, SIGSEGV, SIGTERM}"
  shows "\<exists>st'. signal_send (Some i) sig st = Some st' \<and> round_robin st' (y # ys) \<and> state (proc_at st' c) = Zombie
    \<and> state (proc_at st' i) \<noteq> Zombie"
proof -
  have cu: "current st = Some c" and i: "state (proc_at st i) = Ready" using assms(1,3) by (auto simp: round_robin_def)
  obtain st' where s: "scheduler_yield (upd_proc c (\<lambda>p. p\<lparr>exit_code := sig, state := Zombie\<rparr>) st) = Some st'"
    "round_robin st' (y # ys)" "state (proc_at st' c) = Zombie"
    using leave_head[OF assms(1), of "\<lambda>p. p\<lparr>exit_code := sig, state := Zombie\<rparr>"] by auto
  have "signal_send (Some i) sig st = Some st'" using s(1) i cu assms(2,4) by (auto simp: signal_send_def proc_exit_def)
  moreover have "state (proc_at st' i) \<noteq> Zombie" using s(2) assms(3) by (auto simp: round_robin_def)
  ultimately show ?thesis using s by blast
qed

text \<open>When the idle process, which is never queued, yields while it is running, \<^verbatim>\<open>scheduler_remove\<close> takes
  its empty links for those of the only element and empties the queue: every ready process is lost and idle goes on.\<close>

lemma idle_yield_loses_queue:
  assumes "ready_queue st xs" "xs \<noteq> []" "current st = Some 0" "0 < length (table st)" "state (proc_at st 0) = Running"
    "pnext (proc_at st 0) = None" "pprev (proc_at st 0) = None"
  shows "\<exists>st'. scheduler_yield st = Some st' \<and> ready_queue st' [0] \<and> current st' = Some 0"
proof -
  let ?s0 = "upd_proc 0 (\<lambda>p. p\<lparr>state := Ready\<rparr>) st"
  let ?s1 = "scheduler_remove (Some 0) ?s0"
  let ?s2 = "scheduler_add (Some 0) ?s1"
  let ?s3 = "upd_proc 0 (\<lambda>p. p\<lparr>state := Running\<rparr>) ?s2"
  have "ready_queue ?s1 []" using assms(4,6,7) by (simp add: scheduler_remove_def ready_queue_def Let_def)
  then have Q: "ready_queue ?s2 [0]" using ready_queue_add[of ?s1 "[]" 0] assms(4) by simp
  have h: "ready_head st \<noteq> None" using assms(1,2) by (cases xs) (auto simp: ready_queue_def)
  have R: "yield_requeue st = ?s2" using assms(3,5) by (simp add: yield_requeue_def)
  have h2: "ready_head ?s2 = Some 0" using Q by (simp add: ready_queue_def)
  have "drop_unready (Some 0) ?s2 = Some (Some 0, ?s2)" using assms(4) by (subst drop_unready.simps) simp
  then have "scheduler_yield st = Some ?s3" using h h2 R assms(3) by (auto simp: scheduler_yield_def Let_def)
  moreover have "ready_queue ?s3 [0]" by (rule upd_proc_queue[OF Q]) auto
  ultimately show ?thesis using assms(3) by auto
qed

section \<open>Waking up\<close>

definition due :: "sched \<Rightarrow> nat \<Rightarrow> bool" where
  "due st i \<longleftrightarrow> state (proc_at st i) = Blocked \<and> wake_time (proc_at st i) > 0 \<and> wake_time (proc_at st i) \<le> sched_ticks st"

lemma wake_one_other:
  assumes "j \<noteq> i"
  shows "state (proc_at (wake_one i st) j) = state (proc_at st j)" "wake_time (proc_at (wake_one i st) j) = wake_time (proc_at st j)"
  using assms by (auto simp: wake_one_def Let_def)

lemma wake_one_sel [simp]: "sched_ticks (wake_one i st) = sched_ticks st" "length (table (wake_one i st)) = length (table st)"
  "current (wake_one i st) = current st"
  by (auto simp: wake_one_def Let_def)

lemma wake_one_queue:
  assumes "ready_queue st xs" "i < length (table st)" "due st i \<Longrightarrow> i \<notin> set xs"
  shows "ready_queue (wake_one i st) (xs @ filter (due st) [i])"
proof (cases "due st i")
  case True
  let ?s = "upd_proc i (\<lambda>p. p\<lparr>state := Ready, wake_time := 0\<rparr>) st"
  have "ready_queue ?s xs" by (rule upd_proc_queue[OF assms(1)]) auto
  then have "ready_queue (scheduler_add (Some i) ?s) (xs @ [i])" using assms True by (intro ready_queue_add) auto
  then show ?thesis using True by (simp add: wake_one_def due_def Let_def)
qed (use assms in \<open>auto simp: wake_one_def due_def Let_def\<close>)

lemma wakes_queue:
  assumes "ready_queue st xs" "distinct is" "\<forall>i\<in>set is. i < length (table st)" "\<forall>i\<in>set is. due st i \<longrightarrow> i \<notin> set xs"
  shows "ready_queue (fold wake_one is st) (xs @ filter (due st) is)"
  using assms
proof (induction "is" arbitrary: st xs)
  case (Cons i js)
  let ?s = "wake_one i st"
  have d: "due ?s j = due st j" if "j \<in> set js" for j
  proof -
    have "j \<noteq> i" using that Cons.prems(2) by auto
    then show ?thesis by (simp add: due_def wake_one_other)
  qed
  have Q: "ready_queue ?s (xs @ filter (due st) [i])" using Cons.prems by (intro wake_one_queue) auto
  have "ready_queue (fold wake_one js ?s) ((xs @ filter (due st) [i]) @ filter (due ?s) js)"
    by (rule Cons.IH[OF Q]) (use Cons.prems d in auto)
  moreover have "filter (due ?s) js = filter (due st) js" using d by (auto intro: filter_cong)
  ultimately show ?case by (cases "due st i") simp_all
qed simp

lemma wakes_sel [simp]: "sched_ticks (fold wake_one is st) = sched_ticks st" "length (table (fold wake_one is st)) = length (table st)"
  "current (fold wake_one is st) = current st"
  by (induction "is" arbitrary: st) simp_all

lemma wake_one_self:
  assumes "i < length (table st)"
  shows "state (proc_at (wake_one i st) i) = (if due st i then Ready else state (proc_at st i))"
    "wake_time (proc_at (wake_one i st) i) = (if due st i then 0 else wake_time (proc_at st i))"
  using assms by (auto simp: wake_one_def due_def Let_def)

lemma wakes_procs:
  assumes "distinct is" "\<forall>i\<in>set is. i < length (table st)"
  shows "state (proc_at (fold wake_one is st) j) = (if j \<in> set is \<and> due st j then Ready else state (proc_at st j))"
    "wake_time (proc_at (fold wake_one is st) j) = (if j \<in> set is \<and> due st j then 0 else wake_time (proc_at st j))"
proof -
  have "state (proc_at (fold wake_one is st) j) = (if j \<in> set is \<and> due st j then Ready else state (proc_at st j)) \<and>
    wake_time (proc_at (fold wake_one is st) j) = (if j \<in> set is \<and> due st j then 0 else wake_time (proc_at st j))"
    using assms
  proof (induction "is" arbitrary: st)
    case (Cons i js)
    have d: "due (wake_one i st) j = due st j" if "j \<noteq> i" using that by (simp add: due_def wake_one_other)
    have IH: "state (proc_at (fold wake_one js (wake_one i st)) j)
        = (if j \<in> set js \<and> due (wake_one i st) j then Ready else state (proc_at (wake_one i st) j)) \<and>
      wake_time (proc_at (fold wake_one js (wake_one i st)) j)
        = (if j \<in> set js \<and> due (wake_one i st) j then 0 else wake_time (proc_at (wake_one i st) j))"
      by (rule Cons.IH) (use Cons.prems in auto)
    show ?case
    proof (cases "j = i")
      case True
      then show ?thesis using IH Cons.prems wake_one_self[of i st] by simp
    next
      case False
      then show ?thesis using IH d wake_one_other[OF False, of st] by simp
    qed
  qed simp
  then show "state (proc_at (fold wake_one is st) j) = (if j \<in> set is \<and> due st j then Ready else state (proc_at st j))"
    "wake_time (proc_at (fold wake_one is st) j) = (if j \<in> set is \<and> due st j then 0 else wake_time (proc_at st j))" by blast+
qed

section \<open>What every operation keeps of the process table\<close>

text \<open>The scheduler never changes identities and names.\<close>

definition same_procs :: "sched \<Rightarrow> sched \<Rightarrow> bool" where
  "same_procs st st' \<longleftrightarrow> length (table st') = length (table st) \<and> next_pid st' = next_pid st
     \<and> (\<forall>i. pid (proc_at st' i) = pid (proc_at st i) \<and> pname (proc_at st' i) = pname (proc_at st i))"

lemma same_procs_refl [simp]: "same_procs st st"
  by (simp add: same_procs_def)

lemma same_procs_trans [trans]: "same_procs a b \<Longrightarrow> same_procs b c \<Longrightarrow> same_procs a c"
  by (simp add: same_procs_def)

lemma same_add [simp]: "same_procs st (scheduler_add p st)"
  and same_remove [simp]: "same_procs st (scheduler_remove p st)"
  and same_switch [simp]: "same_procs st (scheduler_switch_to p st)"
  by (simp_all add: same_procs_def)

lemma same_upd: "(\<And>p. pid (f p) = pid p) \<Longrightarrow> (\<And>p. pname (f p) = pname p) \<Longrightarrow> same_procs st (upd_proc i f st)"
  by (simp add: same_procs_def upd_fields)

lemma same_drop:
  assumes "drop_unready nx st = Some r"
  shows "same_procs st (snd r)"
proof (rule drop_unready.raw_induct[where P = "\<lambda>nx st r. same_procs st (snd r)", OF _ assms])
  fix d nx st r
  assume IH: "\<And>nx st r. d nx st = Some r \<Longrightarrow> same_procs st (snd r)"
    and E: "(case nx of None \<Rightarrow> Some (None, st) | Some n \<Rightarrow> if state (proc_at st n) \<noteq> Ready
      then d (pnext (proc_at st n)) (scheduler_remove (Some n) st) else Some (nx, st)) = Some r"
  show "same_procs st (snd r)"
  proof (cases nx)
    case (Some n)
    then show ?thesis using E IH[of "pnext (proc_at st n)" "scheduler_remove (Some n) st" r] same_procs_trans[OF same_remove]
      by (auto split: if_splits)
  qed (use E in auto)
qed

lemma same_requeue: "same_procs st (yield_requeue st)"
proof (cases "current st")
  case (Some c)
  have "same_procs st (upd_proc c (\<lambda>p. p\<lparr>state := Ready\<rparr>) st)" by (rule same_upd) auto
  also have "same_procs \<dots> (scheduler_remove (Some c) \<dots>)" by simp
  also have "same_procs \<dots> (scheduler_add (Some c) \<dots>)" by simp
  finally show ?thesis using Some by (simp add: yield_requeue_def)
qed (auto simp: yield_requeue_def)

lemma same_yield:
  assumes "scheduler_yield st = Some st'"
  shows "same_procs st st'"
proof (cases "ready_head st = None")
  case False
  let ?s1 = "yield_requeue st"
  obtain nx s2 where d: "drop_unready (ready_head ?s1) ?s1 = Some (nx, s2)"
    using assms(1) False by (auto simp: scheduler_yield_def Let_def bind_eq_Some_conv)
  define n where "n = (case nx of Some n \<Rightarrow> n | None \<Rightarrow> 0)"
  let ?s3 = "upd_proc n (\<lambda>p. p\<lparr>state := Running\<rparr>) s2"
  have s': "st' = (if Some n \<noteq> current st then scheduler_switch_to (Some n) ?s3 else ?s3)"
    using assms(1) False d unfolding n_def by (simp add: scheduler_yield_def Let_def split: if_splits)
  have "same_procs st s2" using same_procs_trans[OF same_requeue[of st]] same_drop[OF d] by simp
  also have "same_procs s2 ?s3" by (rule same_upd) auto
  finally show ?thesis using s' same_procs_trans[OF _ same_switch] by (simp split: if_splits)
qed (use assms in \<open>auto simp: scheduler_yield_def\<close>)

lemma same_upd_yield:
  assumes "scheduler_yield (upd_proc c f st) = Some st'" "\<And>p. pid (f p) = pid p" "\<And>p. pname (f p) = pname p"
  shows "same_procs st st'"
  using same_procs_trans[OF same_upd[OF assms(2,3)] same_yield[OF assms(1)]] .

lemma same_wake: "same_procs st (wake_one i st)"
proof -
  have "same_procs st (upd_proc i (\<lambda>p. p\<lparr>state := Ready, wake_time := 0\<rparr>) st)" by (rule same_upd) auto
  also have "same_procs \<dots> (scheduler_add (Some i) \<dots>)" by simp
  finally show ?thesis by (simp add: wake_one_def Let_def)
qed

lemma same_wakes: "same_procs st (fold wake_one is st)"
  by (induction "is" arbitrary: st) (auto intro: same_procs_trans[OF same_wake])

lemma same_tick:
  assumes "scheduler_tick st = Some st'"
  shows "same_procs st st'"
proof -
  let ?s0 = "st\<lparr>sched_ticks := inc64 (sched_ticks st)\<rparr>"
  let ?s1 = "fold wake_one [1..<PROC_MAX_PROCESSES] ?s0"
  have 0: "same_procs st ?s1" using same_procs_trans[OF _ same_wakes, of st ?s0] by (simp add: same_procs_def)
  then have "scheduler_yield ?s1 = Some st' \<Longrightarrow> same_procs st st'" using same_yield same_procs_trans by blast
  then show ?thesis using assms 0 by (auto simp: scheduler_tick_def Let_def simp del: upt_rec_numeral split: option.splits if_splits)
qed

text \<open>The sleepers that are due at the next tick, in the order of the table.\<close>

definition sleepers_due :: "sched \<Rightarrow> nat list" where
  "sleepers_due st = filter (\<lambda>i. state (proc_at st i) = Blocked \<and> 0 < wake_time (proc_at st i)
     \<and> wake_time (proc_at st i) \<le> inc64 (sched_ticks st)) [1..<PROC_MAX_PROCESSES]"

lemma tick_wakes:
  assumes "length (table st) = PROC_MAX_PROCESSES" "ready_queue st xs" "\<forall>i\<in>set xs. state (proc_at st i) \<noteq> Blocked"
    and s: "s = fold wake_one [1..<PROC_MAX_PROCESSES] (st\<lparr>sched_ticks := inc64 (sched_ticks st)\<rparr>)"
  shows "ready_queue s (xs @ sleepers_due st)"
    "state (proc_at s j) = (if j \<in> set (sleepers_due st) then Ready else state (proc_at st j))"
    "wake_time (proc_at s j) = (if j \<in> set (sleepers_due st) then 0 else wake_time (proc_at st j))"
    "same_procs st s" "sched_ticks s = inc64 (sched_ticks st)" "current s = current st"
proof -
  let ?s0 = "st\<lparr>sched_ticks := inc64 (sched_ticks st)\<rparr>" and ?is = "[1..<PROC_MAX_PROCESSES]"
  have due: "filter (due ?s0) ?is = sleepers_due st"
    unfolding sleepers_due_def by (rule filter_cong) (simp_all add: due_def)
  have q0: "ready_queue ?s0 xs" by (rule ready_queue_cong[OF assms(2)]) simp_all
  have "ready_queue (fold wake_one ?is ?s0) (xs @ filter (due ?s0) ?is)"
    by (rule wakes_queue[OF q0]) (use assms(1,3) in \<open>auto simp: due_def simp del: upt_rec_numeral\<close>)
  then show "ready_queue s (xs @ sleepers_due st)" by (simp only: s due)
  have i: "\<forall>i\<in>set ?is. i < length (table ?s0)" using assms(1) by (simp del: upt_rec_numeral)
  have m: "j \<in> set ?is \<and> due ?s0 j \<longleftrightarrow> j \<in> set (sleepers_due st)" by (simp flip: due del: upt_rec_numeral)
  show "state (proc_at s j) = (if j \<in> set (sleepers_due st) then Ready else state (proc_at st j))"
    "wake_time (proc_at s j) = (if j \<in> set (sleepers_due st) then 0 else wake_time (proc_at st j))"
    unfolding s wakes_procs[OF distinct_upt i] m by simp_all
  have "same_procs st ?s0" by (simp add: same_procs_def)
  from same_procs_trans[OF this same_wakes] show "same_procs st s" by (simp only: s)
  show "sched_ticks s = inc64 (sched_ticks st)" "current s = current st" by (simp_all add: s del: upt_rec_numeral)
qed

text \<open>C27 (tick_wakes_sleepers): a \<^verbatim>\<open>scheduler_tick\<close> counts the tick and appends to the ready queue exactly the blocked processes whose
  wake time is set and has come with this tick, in the order of the table, makes them ready and clears their wake time. If a
  process other than idle runs at the head of its queue, the queue so extended is then rotated by one: the next process runs.
  While idle runs, the tick switches to nobody.\<close>

theorem tick_wakes_sleepers:
  assumes "length (table st) = PROC_MAX_PROCESSES" "ready_queue st xs" "\<forall>i\<in>set xs. state (proc_at st i) \<noteq> Blocked"
    and "current st = Some c" "pid (proc_at st c) \<noteq> 0 \<longrightarrow> round_robin st xs"
  shows "\<exists>st'. scheduler_tick st = Some st' \<and> sched_ticks st' = inc64 (sched_ticks st) \<and>
    (\<forall>i. wake_time (proc_at st' i) = (if i \<in> set (sleepers_due st) then 0 else wake_time (proc_at st i))) \<and>
    (\<forall>i. i \<notin> set xs \<and> i \<notin> set (sleepers_due st) \<longrightarrow> state (proc_at st' i) = state (proc_at st i)) \<and>
    (if pid (proc_at st c) \<noteq> 0 then round_robin st' (rotate1 (xs @ sleepers_due st))
     else ready_queue st' (xs @ sleepers_due st) \<and> current st' = Some c \<and>
       (\<forall>i \<in> set (sleepers_due st). state (proc_at st' i) = Ready))"
proof -
  define s where "s = fold wake_one [1..<PROC_MAX_PROCESSES] (st\<lparr>sched_ticks := inc64 (sched_ticks st)\<rparr>)"
  note W = tick_wakes[OF assms(1-3) s_def]
  have T: "scheduler_tick st = (if ready_head s \<noteq> None \<and> pid (proc_at st c) \<noteq> 0 then scheduler_yield s else Some s)"
    using W(4,6) assms(4) unfolding scheduler_tick_def Let_def s_def[symmetric] by (simp add: same_procs_def)
  show ?thesis
  proof (cases "pid (proc_at st c) = 0")
    case True
    then show ?thesis using T W assms(4) by auto
  next
    case False
    then have rr: "round_robin st xs" using assms(5) by simp
    then obtain x ys where xs: "xs = x # ys" by (cases xs) (auto simp: round_robin_def)
    have x: "x \<notin> set (sleepers_due st)" using rr xs by (auto simp: round_robin_def sleepers_due_def simp del: upt_rec_numeral)
    have "round_robin s (xs @ sleepers_due st)"
      using rr W(1,2,6) x unfolding round_robin_def xs by auto
    moreover from W(1) xs have "ready_head s \<noteq> None" by (simp add: ready_queue_def)
    ultimately show ?thesis using T False yield_rotates[of s "xs @ sleepers_due st"] W(2,3,5) by auto
  qed
qed

lemma same_pit: "pit_handle_tick st = Some st' \<Longrightarrow> same_procs st st'"
  unfolding pit_handle_tick_def by (drule same_tick) (simp add: same_procs_def)

lemma same_exit: "proc_exit code st = Some st' \<Longrightarrow> same_procs st st'"
  by (auto simp: proc_exit_def split: option.splits if_splits elim!: same_upd_yield)

lemma same_sleep: "proc_sleep ms st = Some st' \<Longrightarrow> same_procs st st'"
  by (auto simp: proc_sleep_def split: option.splits if_splits elim!: same_upd_yield)

lemma same_signal: "signal_send p sig st = Some st' \<Longrightarrow> same_procs st st'"
  by (auto simp: signal_send_def split: option.splits if_splits intro: same_exit)

section \<open>The process state machine\<close>

inductive proc_step :: "sched \<Rightarrow> sched \<Rightarrow> bool" where
  create: "proc_create name entry st = Some (Inr (r, st')) \<Longrightarrow> proc_step st st'"
| destroy: "proc_step st (proc_destroy p st)"
| yield: "proc_yield st = Some st' \<Longrightarrow> proc_step st st'"
| exit: "proc_exit code st = Some st' \<Longrightarrow> proc_step st st'"
| sleep: "proc_sleep ms st = Some st' \<Longrightarrow> proc_step st st'"
| tick: "pit_handle_tick st = Some st' \<Longrightarrow> proc_step st st'"
| signal: "signal_send p sig st = Some st' \<Longrightarrow> proc_step st st'"

text \<open>Widths of the fields: 256 slots, 32 bit identifiers, names of 64 bytes.\<close>

definition sched_wf :: "sched \<Rightarrow> bool" where
  "sched_wf st \<longleftrightarrow> length (table st) = PROC_MAX_PROCESSES \<and> next_pid st < 2 ^ 32
     \<and> (\<forall>p\<in>set (table st). pid p < 2 ^ 32 \<and> length (pname p) = PROC_NAME_MAX)"

text \<open>Non-zero identifiers are distinct, all are below the next one, and slot 0 is the idle process.\<close>

definition pids_ok :: "sched \<Rightarrow> bool" where
  "pids_ok st \<longleftrightarrow> length (table st) = PROC_MAX_PROCESSES \<and> 0 < next_pid st \<and> pid (proc_at st 0) = 0 \<and>
     (\<forall>i < PROC_MAX_PROCESSES. pid (proc_at st i) < next_pid st) \<and>
     (\<forall>i < PROC_MAX_PROCESSES. \<forall>j < PROC_MAX_PROCESSES. pid (proc_at st i) = pid (proc_at st j) \<longrightarrow> pid (proc_at st i) \<noteq> 0 \<longrightarrow> i = j)"

lemma sched_wf_nth: "sched_wf st \<longleftrightarrow> length (table st) = PROC_MAX_PROCESSES \<and> next_pid st < 2 ^ 32
     \<and> (\<forall>i<PROC_MAX_PROCESSES. pid (proc_at st i) < 2 ^ 32 \<and> length (pname (proc_at st i)) = PROC_NAME_MAX)"
  by (auto simp: sched_wf_def all_set_conv_all_nth)

lemma same_wf: "same_procs st st' \<Longrightarrow> sched_wf st \<Longrightarrow> sched_wf st'"
  by (simp add: sched_wf_nth same_procs_def)

lemma same_pids: "same_procs st st' \<Longrightarrow> pids_ok st \<Longrightarrow> pids_ok st'"
  by (simp add: pids_ok_def same_procs_def)

lemma strn_field_length: "0 < n \<Longrightarrow> length (strn_field n s) = n"
  by (simp add: strn_field_def Let_def)

lemma nth_upd: "T[i := v] ! j = (if i = j \<and> i < length T then v else T ! j)"
  by (cases "i = j"; cases "i < length T") (auto simp: list_update_beyond)

text \<open>A destruction changes nothing of the identities but the identifier of one slot, to 0.\<close>

lemma destroy_pids:
  "length (table (proc_destroy p st)) = length (table st)" "next_pid (proc_destroy p st) = next_pid st"
  "pid (proc_at (proc_destroy p st) j) = pid (proc_at st j) \<or> pid (proc_at (proc_destroy p st) j) = 0"
  "pname (proc_at (proc_destroy p st) j) = pname (proc_at st j)"
  by (auto simp: proc_destroy_def Let_def nth_upd split: option.splits)

lemma find_slot_range: "find_slot st = Some i \<Longrightarrow> 0 < i \<and> i < PROC_MAX_PROCESSES \<and> state (proc_at st i) = Unused"
  by (auto simp: find_slot_def find_Some_iff simp del: upt_rec_numeral)

lemma create_cases:
  assumes "proc_create name entry st = Some (Inr (r, st'))" "length (table st) = PROC_MAX_PROCESSES"
  obtains "st' = st"
  | i where "0 < i" "i < PROC_MAX_PROCESSES" "length (table st') = PROC_MAX_PROCESSES" "next_pid st' = (next_pid st + 1) mod 2 ^ 32"
    "pid (proc_at st' i) = next_pid st" "pname (proc_at st' i) = strn_field PROC_NAME_MAX name"
    "\<And>j. j \<noteq> i \<Longrightarrow> pid (proc_at st' j) = pid (proc_at st j) \<and> pname (proc_at st' j) = pname (proc_at st j)"
proof (cases "find_slot st")
  case None
  then show ?thesis using that(1) assms(1) by (simp add: proc_create_def)
next
  case (Some i)
  note i = find_slot_range[OF Some]
  obtain base h where k: "kmalloc PROC_STACK_SIZE (kheap st) = Some (Inr (base, h))"
  proof (cases "kmalloc PROC_STACK_SIZE (kheap st)")
    case None
    then show ?thesis using assms(1) Some by (simp add: proc_create_def Let_def)
  next
    case (Some q)
    then show ?thesis using that assms(1) \<open>find_slot st = Some i\<close> by (cases q) (auto simp: proc_create_def Let_def)
  qed
  obtain sp m where m: "init_stack base entry (hmem h) = (sp, m)" by (cases "init_stack base entry (hmem h)")
  show ?thesis
  proof (cases "base = 0")
    case True
    then show ?thesis using assms i Some k by (intro that(2)[of i]) (auto simp: proc_create_def Let_def nth_upd)
  next
    case False
    then show ?thesis using assms i Some k m by (intro that(2)[of i]) (auto simp: proc_create_def Let_def nth_upd)
  qed
qed

text \<open>Every operation on processes keeps the table at 256 slots, the identifiers within 32 bits and the names at 64
  bytes.\<close>

lemma proc_table_typed:
  assumes "proc_step st st'" "sched_wf st"
  shows "sched_wf st'"
  using assms
proof (cases rule: proc_step.cases)
  case (create name entry r)
  have l: "length (table st) = PROC_MAX_PROCESSES" using assms(2) by (simp add: sched_wf_nth)
  show ?thesis
  proof (cases rule: create_cases[OF create l])
    case (2 i)
    have "pid (proc_at st' j) < 2 ^ 32 \<and> length (pname (proc_at st' j)) = PROC_NAME_MAX" if "j < PROC_MAX_PROCESSES" for j
      using 2 assms(2) that by (cases "j = i") (auto simp: sched_wf_nth strn_field_length)
    then show ?thesis using 2(3,4) by (simp add: sched_wf_nth)
  qed (use assms in simp)
next
  case (destroy p)
  then show ?thesis using assms(2) destroy_pids[of p st] unfolding sched_wf_nth
    by (metis zero_less_numeral zero_less_power)
next
  case yield
  then show ?thesis using same_wf[OF same_yield] assms(2) by (simp add: proc_yield_def)
qed (use assms(2) same_wf same_exit same_sleep same_pit same_signal in blast)+

text \<open>C12 (pids_stay_unique): no two processes ever have the same non-zero identifier: creation, destruction, scheduling, sleeping, exits,
  ticks and signals keep the identifiers distinct until the 32 bit counter is used up.\<close>

theorem pids_stay_unique:
  assumes "proc_step st st'" "pids_ok st" "next_pid st + 1 < 2 ^ 32"
  shows "pids_ok st'"
  using assms(1)
proof (cases rule: proc_step.cases)
  case (create name entry r)
  have l: "length (table st) = PROC_MAX_PROCESSES" using assms(2) by (simp add: pids_ok_def)
  show ?thesis
  proof (cases rule: create_cases[OF create l])
    case (2 i)
    have n: "next_pid st' = next_pid st + 1" using 2(4) assms(3) by simp
    have o: "pid (proc_at st j) < next_pid st" if "j < PROC_MAX_PROCESSES" for j using assms(2) that by (simp add: pids_ok_def)
    have b: "pid (proc_at st' j) < next_pid st'" if "j < PROC_MAX_PROCESSES" for j
      using 2(5,7) o[OF that] n by (cases "j = i") auto
    have d: "j = k" if "j < PROC_MAX_PROCESSES" "k < PROC_MAX_PROCESSES" "pid (proc_at st' j) = pid (proc_at st' k)" "pid (proc_at st' j) \<noteq> 0" for j k
      using that 2(5,7) o[OF that(1)] o[OF that(2)] assms(2) by (cases "j = i"; cases "k = i") (auto simp: pids_ok_def)
    have z: "pid (proc_at st' 0) = 0" "0 < next_pid st'" using 2(1,7) n assms(2) by (simp_all add: pids_ok_def)
    show ?thesis unfolding pids_ok_def using 2(3) z b d by blast
  qed (use assms in simp)
next
  case (destroy p)
  have o: "length (table st) = PROC_MAX_PROCESSES" "0 < next_pid st" "pid (proc_at st 0) = 0" using assms(2) by (auto simp: pids_ok_def)
  have b: "pid (proc_at st' j) < next_pid st" if "j < PROC_MAX_PROCESSES" for j
    using destroy_pids(3)[of p st j] destroy assms(2) that o(2) by (auto simp: pids_ok_def)
  have d: "j = k" if "j < PROC_MAX_PROCESSES" "k < PROC_MAX_PROCESSES" "pid (proc_at st' j) = pid (proc_at st' k)" "pid (proc_at st' j) \<noteq> 0" for j k
    using destroy_pids(3)[of p st j] destroy_pids(3)[of p st k] destroy assms(2) that by (auto simp: pids_ok_def)
  have z: "pid (proc_at st' 0) = 0" using destroy_pids(3)[of p st 0] destroy o(3) by auto
  show ?thesis unfolding pids_ok_def using destroy destroy_pids(1,2)[of p st] o b d z by metis
next
  case yield
  then show ?thesis using same_pids[OF same_yield] assms(2) by (simp add: proc_yield_def)
qed (use assms(2) same_pids same_exit same_sleep same_pit same_signal in blast)+

text \<open>C26 (proc_create_registers): when a slot is free and the stack can be allocated, \<^verbatim>\<open>proc_create\<close> returns the first free slot, the new
  process is found under its identifier and is the last of the ready queue.\<close>

theorem proc_create_registers:
  assumes "pids_ok st" "find_slot st = Some i" "ready_queue st xs" "i \<notin> set xs"
    and "kmalloc PROC_STACK_SIZE (kheap st) = Some (Inr (base, h))" "base \<noteq> 0"
  shows "\<exists>st'. proc_create name entry st = Some (Inr (Some i, st')) \<and> proc_get_by_pid (next_pid st) st' = Some i
    \<and> ready_queue st' (xs @ [i])"
proof -
  note i = find_slot_range[OF assms(2)]
  obtain sp m where m: "init_stack base entry (hmem h) = (sp, m)" by (cases "init_stack base entry (hmem h)")
  have l: "length (table st) = PROC_MAX_PROCESSES" using assms(1) by (simp add: pids_ok_def)
  define P where "P = (proc_at st i)\<lparr>pid := next_pid st,
     ppid := (case current st of Some c \<Rightarrow> (if c = i then next_pid st else pid (proc_at st c)) | None \<Rightarrow> 0),
     pname := strn_field PROC_NAME_MAX name, state := Ready, stack := base, prsp := sp, prip := entry, pcr3 := cpu_cr3 st,
     wake_time := 0, exit_code := 0, pnext := None, pprev := None\<rparr>"
  define s where "s = st\<lparr>next_pid := (next_pid st + 1) mod 2 ^ 32, kheap := h\<lparr>hmem := m\<rparr>, table := (table st)[i := P]\<rparr>"
  have C: "proc_create name entry st = Some (Inr (Some i, scheduler_add (Some i) s))"
    using assms(2,5,6) m i l by (cases "current st") (simp_all add: proc_create_def Let_def upd_proc_def s_def P_def)
  have Q: "ready_queue s xs"
    by (rule ready_queue_cong[OF assms(3)]) (use assms(4) in \<open>auto simp: s_def nth_upd\<close>)
  have R: "ready_queue (scheduler_add (Some i) s) (xs @ [i])"
    by (rule ready_queue_add[OF Q assms(4)]) (use i l in \<open>auto simp: s_def P_def\<close>)
  have p: "pid (proc_at s j) = next_pid st \<longleftrightarrow> j = i" if "j < PROC_MAX_PROCESSES" for j
    using assms(1) that l i by (auto simp: s_def P_def nth_upd pids_ok_def)
  have r: "state (proc_at s i) = Ready" using i l by (simp add: s_def P_def)
  have "proc_get_by_pid (next_pid st) (scheduler_add (Some i) s) = Some i"
    unfolding proc_get_by_pid_def find_Some_iff using i p r
    by (intro exI[of _ i]) (auto simp del: upt_rec_numeral)
  then show ?thesis using C R by blast
qed

text \<open>C29 (proc_create_fails): the two errors of \<^verbatim>\<open>proc_create\<close>: with a full table the state is unchanged; when the stack cannot be allocated
  the slot is unused again and neither the queue nor the other slots change. Both return \<^verbatim>\<open>NULL\<close>.\<close>

theorem proc_create_fails:
  assumes "find_slot st = None \<or> kmalloc PROC_STACK_SIZE (kheap st) = Some (Inr (0, h))"
  shows "\<exists>st'. proc_create name entry st = Some (Inr (None, st')) \<and> ready_head st' = ready_head st \<and> ready_tail st' = ready_tail st
    \<and> (\<forall>j. (state (proc_at st' j) = Unused) = (state (proc_at st j) = Unused)) \<and> (\<forall>j. find_slot st \<noteq> Some j \<longrightarrow> proc_at st' j = proc_at st j)"
proof (cases "find_slot st")
  case (Some i)
  then show ?thesis using assms find_slot_range[OF Some]
    by (auto simp: proc_create_def Let_def nth_upd)
qed (simp add: proc_create_def)

section \<open>Concrete states\<close>

definition blank_proc :: process where
  "blank_proc = \<lparr>pid = 0, ppid = 0, pname = replicate 64 0, state = Unused, prsp = 0, prip = 0, pcr3 = 0, stack = 0, wake_time = 0,
     exit_code = 0, pnext = None, pprev = None\<rparr>"

definition sched_boot :: "heap \<Rightarrow> sched" where
  "sched_boot h = \<lparr>table = replicate 256 blank_proc, current = None, next_pid = 1, ready_head = None, ready_tail = None, sched_ticks = 0,
     pit_ticks = 0, pit_hz = 100, tss_rsp0 = 0, kheap = h,
     cpu_regs = \<lparr>rsp = 4096, rip = 7, rbx = 1, rbp = 2, r12 = 3, r13 = 4, r14 = 5, r15 = 6,
       rax = 0, rcx = 0, rdx = 0, rsi = 0, rdi = 0, r8 = 0, r9 = 0, r10 = 0, r11 = 0\<rparr>, cpu_cr3 = 0\<rparr>"

text \<open>Three processes: 1 runs, 2 and 3 wait behind it; 4 sleeps until tick 5.\<close>

definition sched_three :: "heap \<Rightarrow> sched" where
  "sched_three h = (sched_boot h)\<lparr>current := Some 1, ready_head := Some 1, ready_tail := Some 3, sched_ticks := 5, table :=
     [blank_proc\<lparr>state := Ready\<rparr>,
      blank_proc\<lparr>pid := 1, state := Running, pnext := Some 2\<rparr>,
      blank_proc\<lparr>pid := 2, state := Ready, pprev := Some 1, pnext := Some 3\<rparr>,
      blank_proc\<lparr>pid := 3, state := Ready, pprev := Some 2\<rparr>,
      blank_proc\<lparr>pid := 4, state := Blocked, wake_time := 5\<rparr>]\<rparr>"

lemma three_round_robin: "round_robin (sched_three h) [1, 2, 3]"
  by (simp add: round_robin_def ready_queue_def sched_three_def blank_proc_def lasto_def)

theorem ready_queue_refines_witness:
  "\<forall>h. ready_queue (fold run_qop [Remove 2, Remove 1, Add 2] (sched_three h)) [3, 2]"
proof
  fix h
  have q: "ready_queue (sched_three h) [1, 2, 3]" using three_round_robin by (simp add: round_robin_def)
  have "qops_ok (sched_three h) [1, 2, 3] [Remove 2, Remove 1, Add 2]" by (simp add: sched_three_def blank_proc_def)
  from ready_queue_refines[OF q this] show "ready_queue (fold run_qop [Remove 2, Remove 1, Add 2] (sched_three h)) [3, 2]" by simp
qed

theorem yield_round_robin_witness:
  "\<forall>h. \<exists>st'. yields 4 (sched_three h) = Some st' \<and> current st' = Some 2"
proof
  fix h
  from yield_round_robin[OF three_round_robin, of 4 h] show "\<exists>st'. yields 4 (sched_three h) = Some st' \<and> current st' = Some 2" by auto
qed

theorem proc_exit_hands_over_witness:
  "\<forall>h. \<exists>st'. proc_exit 3 (sched_three h) = Some st' \<and> current st' = Some 2 \<and> state (proc_at st' 1) = Zombie"
proof
  fix h
  have "pid (proc_at (sched_three h) 1) \<noteq> 0" by (simp add: sched_three_def)
  from proc_exit_hands_over[OF three_round_robin this, of 3]
  show "\<exists>st'. proc_exit 3 (sched_three h) = Some st' \<and> current st' = Some 2 \<and> state (proc_at st' 1) = Zombie"
    by (auto simp: round_robin_def)
qed

theorem tick_wakes_sleepers_witness:
  "\<forall>h. \<exists>st'. scheduler_tick ((sched_three h)\<lparr>sched_ticks := 4, table := table (sched_three h) @ replicate 251 blank_proc\<rparr>) = Some st' \<and>
     sched_ticks st' = 5 \<and> round_robin st' [2, 3, 4, 1] \<and> wake_time (proc_at st' 4) = 0"
proof
  fix h
  let ?st = "(sched_three h)\<lparr>sched_ticks := 4, table := table (sched_three h) @ replicate 251 blank_proc\<rparr>"
  have rr: "round_robin ?st [1, 2, 3]"
    by (simp add: round_robin_def ready_queue_def sched_three_def blank_proc_def lasto_def)
  have up: "[1..<PROC_MAX_PROCESSES] = [1, 2, 3, 4] @ [5..<PROC_MAX_PROCESSES]" by (simp add: upt_conv_Cons del: upt_rec_numeral)
  have "filter (\<lambda>i. state (proc_at ?st i) = Blocked \<and> 0 < wake_time (proc_at ?st i) \<and> wake_time (proc_at ?st i) \<le> 5) [5..<PROC_MAX_PROCESSES] = []"
    by (auto simp: filter_empty_conv sched_three_def blank_proc_def nth_append nth_Cons' simp del: upt_rec_numeral)
  then have due: "sleepers_due ?st = [4]"
    unfolding sleepers_due_def up filter_append by (simp add: inc64_def sched_three_def blank_proc_def del: upt_rec_numeral)
  have "length (table ?st) = PROC_MAX_PROCESSES" "ready_queue ?st [1, 2, 3]" "\<forall>i\<in>set [1, 2, 3]. state (proc_at ?st i) \<noteq> Blocked"
    "current ?st = Some 1" "pid (proc_at ?st 1) \<noteq> 0 \<longrightarrow> round_robin ?st [1, 2, 3]"
    using rr by (simp_all add: round_robin_def sched_three_def blank_proc_def)
  from tick_wakes_sleepers[OF this] due
  show "\<exists>st'. scheduler_tick ?st = Some st' \<and> sched_ticks st' = 5 \<and> round_robin st' [2, 3, 4, 1] \<and> wake_time (proc_at st' 4) = 0"
    by (auto simp: inc64_def sched_three_def)
qed

theorem context_switch_resumes_witness:
  "\<forall>h. let out = scheduler_switch_to (Some 2) (sched_three h); st2 = out\<lparr>cpu_regs := (cpu_regs out)\<lparr>rsp := 9056, rbx := 77\<rparr>\<rparr>;
       c = cpu_regs (scheduler_switch_to (Some 1) st2)
     in rsp c = 4096 \<and> rip c = 7 \<and> rbx c = 1 \<and> rbp c = 2 \<and> r12 c = 3 \<and> r13 c = 4 \<and> r14 c = 5 \<and> r15 c = 6"
proof
  fix h
  let ?st = "sched_three h"
  let ?out = "scheduler_switch_to (Some 2) ?st"
  let ?st2 = "?out\<lparr>cpu_regs := (cpu_regs ?out)\<lparr>rsp := 9056, rbx := 77\<rparr>\<rparr>"
  have r: "rsp (cpu_regs ?st) = 4096" "rip (cpu_regs ?st) = 7" "rbx (cpu_regs ?st) = 1" "rbp (cpu_regs ?st) = 2"
    "r12 (cpu_regs ?st) = 3" "r13 (cpu_regs ?st) = 4" "r14 (cpu_regs ?st) = 5" "r15 (cpu_regs ?st) = 6"
    by (simp_all add: sched_three_def sched_boot_def)
  have st: "current ?st = Some 1" "1 < length (table ?st)" "state (proc_at ?st 1) \<noteq> Unused" "state (proc_at ?st2 2) \<noteq> Unused"
    using switch_to_keeps(6)[of "Some 2" ?st 2] by (simp_all add: sched_three_def blank_proc_def)
  have ok: "cpu_ok (cpu_regs ?st)" using r by (simp add: cpu_ok_def)
  have "cpu_regs (scheduler_switch_to (Some 1) ?st2) =
    (cpu_regs ?st2)\<lparr>rsp := rsp (cpu_regs ?st), rip := rip (cpu_regs ?st), rbx := rbx (cpu_regs ?st), rbp := rbp (cpu_regs ?st),
       r12 := r12 (cpu_regs ?st), r13 := r13 (cpu_regs ?st), r14 := r14 (cpu_regs ?st), r15 := r15 (cpu_regs ?st)\<rparr>"
    by (rule context_switch_resumes[OF ok st(1-3) _ refl, where d = 2]) (use r st(4) in \<open>auto simp: switch_to_current\<close>)
  then show "let out = ?out; st2 = out\<lparr>cpu_regs := (cpu_regs out)\<lparr>rsp := 9056, rbx := 77\<rparr>\<rparr>;
       c = cpu_regs (scheduler_switch_to (Some 1) st2)
     in rsp c = 4096 \<and> rip c = 7 \<and> rbx c = 1 \<and> rbp c = 2 \<and> r12 c = 3 \<and> r13 c = 4 \<and> r14 c = 5 \<and> r15 c = 6"
    using r by (simp add: Let_def)
qed

lemma boot_ok: "sched_wf (sched_boot h)" "pids_ok (sched_boot h)" "next_pid (sched_boot h) = 1" "ready_queue (sched_boot h) []"
  "find_slot (sched_boot h) = Some 1" "kheap (sched_boot h) = h"
proof -
  have "[1..<PROC_MAX_PROCESSES] = 1 # [2..<PROC_MAX_PROCESSES]" by (simp add: upt_conv_Cons del: upt_rec_numeral)
  then show "find_slot (sched_boot h) = Some 1"
    by (simp add: find_slot_def sched_boot_def blank_proc_def del: upt_rec_numeral)
qed (simp_all add: sched_wf_def pids_ok_def sched_boot_def blank_proc_def ready_queue_def)

theorem pids_stay_unique_witness: "\<forall>h. pids_ok (sched_boot h) \<and> pids_ok (proc_destroy (Some 3) (sched_boot h))"
proof
  fix h
  show "pids_ok (sched_boot h) \<and> pids_ok (proc_destroy (Some 3) (sched_boot h))"
    using pids_stay_unique[OF proc_step.destroy boot_ok(2), of h "Some 3"] boot_ok(2,3)[of h] by simp
qed

lemma stack_alloc_example:
  obtains h base h' where "kmalloc PROC_STACK_SIZE h = Some (Inr (base, h'))" "base \<noteq> 0"
proof -
  obtain img st where s: "vmm_wf (hvmm img)" "2048 \<le> pmm_avail (vmm_pmm (hvmm img))" "heap_init img = Inr st"
    "heap_inv st [HEAP_BASE] {}"
    "g_heap_end st = HEAP_BASE + HEAP_INITIAL_SIZE" "50000 \<le> pmm_avail (vmm_pmm (hvmm st))"
    "g_heap_max st = HEAP_BASE + HEAP_MAX_SIZE" by (rule heap_example)
  obtain fl where inv: "heap_inv st fl {}" "vmm_wf (hvmm st)"
    using heap_reachable_inv[OF heap_reachable.init[OF s(3)] s(1,2)] by auto
  have p: "heap_pages PROC_STACK_SIZE = 5" by (simp add: heap_pages_def heap_round_def add64_def)
  from kmalloc_cases[OF inv, of PROC_STACK_SIZE] show ?thesis using that s(5-7) p by fastforce
qed

theorem proc_create_registers_witness:
  "\<exists>h st'. proc_create (bytes ''init'') 4096 (sched_boot h) = Some (Inr (Some 1, st')) \<and> proc_get_by_pid 1 st' = Some 1"
proof -
  obtain h base h' where k: "kmalloc PROC_STACK_SIZE h = Some (Inr (base, h'))" "base \<noteq> 0" by (rule stack_alloc_example)
  show ?thesis
    using proc_create_registers[OF boot_ok(2,5,4)[of h], of base h' "bytes ''init''" 4096] k boot_ok(3,6)[of h] by auto
qed

theorem proc_create_fails_witness:
  "\<forall>h. \<exists>st'. proc_create (bytes ''init'') 4096 ((sched_boot h)\<lparr>table := replicate 256 (blank_proc\<lparr>state := Ready\<rparr>)\<rparr>) = Some (Inr (None, st'))"
proof
  fix h
  let ?st = "(sched_boot h)\<lparr>table := replicate 256 (blank_proc\<lparr>state := Ready\<rparr>)\<rparr>"
  have "find_slot ?st = None" by (auto simp: find_slot_def find_None_iff simp del: upt_rec_numeral)
  then show "\<exists>st'. proc_create (bytes ''init'') 4096 ?st = Some (Inr (None, st'))"
    using proc_create_fails[of ?st undefined "bytes ''init''" 4096] by auto
qed

end
