(* ===== verification/Gos_Ipc.thy ===== *)
theory Gos_Ipc
  imports Gos_Fifo Gos_Proc
begin

text \<open>
  Interprocess communication: semaphores (\<^verbatim>\<open>ipc/semaphore.c\<close>), message queues (\<^verbatim>\<open>ipc/ipc.c\<close>) and shared memory
  (\<^verbatim>\<open>ipc/sharedmem.c\<close>), over the process table, the heap and the page tables. What other processes do while a
  caller has yielded is a parameter \<open>yield\<close> of the operations that wait. \<open>None\<close> as a pointer is \<^verbatim>\<open>NULL\<close>.
\<close>

section \<open>\<^verbatim>\<open>ipc/semaphore.c\<close>\<close>

record semaphore =
  count :: "32 word"
  waiters :: "32 word"

definition semaphore_init :: "semaphore option \<Rightarrow> 32 word \<Rightarrow> semaphore option" where
  "semaphore_init sem initial = map_option (\<lambda>s. s\<lparr>count := initial, waiters := 0\<rparr>) sem"

partial_function (option) semaphore_block :: "(semaphore \<Rightarrow> semaphore option) \<Rightarrow> semaphore \<Rightarrow> semaphore option" where
  "semaphore_block yield s =
     (if sint (count s) \<le> 0 then Option.bind (yield s) (semaphore_block yield) else Some s)"

text \<open>The outer \<open>None\<close> is a wait that never returns.\<close>

definition semaphore_wait :: "(semaphore \<Rightarrow> semaphore option) \<Rightarrow> semaphore option \<Rightarrow> semaphore option option" where
  "semaphore_wait yield sem =
     (case sem of None \<Rightarrow> Some None
      | Some s \<Rightarrow>
          Option.bind (semaphore_block yield (s\<lparr>waiters := waiters s + 1\<rparr>)) (\<lambda>s.
            Some (Some (s\<lparr>count := count s - 1, waiters := waiters s - 1\<rparr>))))"

definition semaphore_try_wait :: "semaphore option \<Rightarrow> bool \<times> semaphore option" where
  "semaphore_try_wait sem =
     (case sem of None \<Rightarrow> (False, None)
      | Some s \<Rightarrow> if sint (count s) > 0 then (True, Some (s\<lparr>count := count s - 1\<rparr>)) else (False, sem))"

definition semaphore_signal :: "semaphore option \<Rightarrow> semaphore option" where
  "semaphore_signal sem = map_option (\<lambda>s. s\<lparr>count := count s + 1\<rparr>) sem"

definition semaphore_get_value :: "semaphore option \<Rightarrow> int" where
  "semaphore_get_value sem = (case sem of None \<Rightarrow> -1 | Some s \<Rightarrow> sint (count s))"

section \<open>\<^verbatim>\<open>ipc/ipc.c\<close>\<close>

abbreviation "IPC_MSG_MAX_SIZE \<equiv> 4096 :: nat"
abbreviation "IPC_MSG_MAX_QUEUE \<equiv> 64 :: nat"

record ipc_message =
  sender_pid :: nat
  mtype :: nat
  msize :: nat
  mdata :: "u8 list"

record ipc_queue =
  messages :: "ipc_message list option"
  qhead :: nat
  qtail :: nat
  qcount :: nat
  owner_pid :: nat

record ipc =
  ipc_queues :: "ipc_queue list option"
  ipc_max_queues :: nat
  procs :: sched

definition ro_bind :: "'a res option \<Rightarrow> ('a \<Rightarrow> 'b res option) \<Rightarrow> 'b res option" where
  "ro_bind r f = Option.bind r (\<lambda>r. case r of Inl e \<Rightarrow> Some (Inl e) | Inr x \<Rightarrow> f x)"

text \<open>Zeroed memory read as a message and as a queue, with the sizes of the two structures.\<close>

definition zero_message :: ipc_message where
  "zero_message = \<lparr>sender_pid = 0, mtype = 0, msize = 0, mdata = replicate IPC_MSG_MAX_SIZE 0\<rparr>"

definition zero_queue :: ipc_queue where
  "zero_queue = \<lparr>messages = None, qhead = 0, qtail = 0, qcount = 0, owner_pid = 0\<rparr>"

abbreviation "SIZEOF_IPC_MESSAGE \<equiv> 4112 :: nat"
abbreviation "SIZEOF_IPC_QUEUE \<equiv> 40 :: nat"

definition ipc_kzalloc :: "nat \<Rightarrow> ipc \<Rightarrow> (nat \<times> ipc) res option" where
  "ipc_kzalloc n st = ro_bind (kzalloc n (kheap (procs st))) (\<lambda>(p, h). Some (Inr (p, st\<lparr>procs := (procs st)\<lparr>kheap := h\<rparr>\<rparr>)))"

definition ipc_init :: "ipc \<Rightarrow> ipc res option" where
  "ipc_init st =
     (let st = st\<lparr>ipc_max_queues := PROC_MAX_PROCESSES\<rparr> in
      ro_bind (ipc_kzalloc (SIZEOF_IPC_QUEUE * ipc_max_queues st) st) (\<lambda>(p, st).
        if p = 0 then Some (Inr (st\<lparr>ipc_queues := None\<rparr>))
        else Some (Inr (st\<lparr>ipc_queues := Some (map (\<lambda>q. q\<lparr>messages := None, owner_pid := 0\<rparr>) (replicate PROC_MAX_PROCESSES zero_queue))\<rparr>))))"

definition upd_queue :: "nat \<Rightarrow> (ipc_queue \<Rightarrow> ipc_queue) \<Rightarrow> ipc \<Rightarrow> ipc" where
  "upd_queue i f st = st\<lparr>ipc_queues := map_option (\<lambda>qs. qs[i := f (qs ! i)]) (ipc_queues st)\<rparr>"

text \<open>The result says whether the queue of \<^verbatim>\<open>pid\<close> is returned or \<^verbatim>\<open>NULL\<close>.\<close>

definition ipc_get_queue :: "nat \<Rightarrow> ipc \<Rightarrow> (ipc_queue option \<times> ipc) res option" where
  "ipc_get_queue i st =
     (if i \<ge> ipc_max_queues st then Some (Inr (None, st))
      else case ipc_queues st of None \<Rightarrow> Some (Inl NullDeref)
      | Some qs \<Rightarrow>
          if owner_pid (qs ! i) = 0
          then ro_bind (ipc_kzalloc (SIZEOF_IPC_MESSAGE * IPC_MSG_MAX_QUEUE) st) (\<lambda>(p, st).
                 if p = 0 then Some (Inr (None, upd_queue i (\<lambda>q. q\<lparr>messages := None\<rparr>) st))
                 else let q = (qs ! i)\<lparr>messages := Some (replicate IPC_MSG_MAX_QUEUE zero_message), owner_pid := i,
                                        qhead := 0, qtail := 0, qcount := 0\<rparr>
                      in Some (Inr (Some q, upd_queue i (\<lambda>_. q) st)))
          else Some (Inr (Some (qs ! i), st)))"

definition ipc_put :: "ipc_message \<Rightarrow> ipc_queue \<Rightarrow> ipc_queue" where
  "ipc_put m q = q\<lparr>messages := map_option (\<lambda>ms. ms[qhead q := m]) (messages q),
     qhead := (qhead q + 1) mod IPC_MSG_MAX_QUEUE, qcount := inc64 (qcount q)\<rparr>"

definition current_pid :: "sched \<Rightarrow> nat" where
  "current_pid st = (case proc_get_current st of Some c \<Rightarrow> pid (proc_at st c) | None \<Rightarrow> 0)"

definition ipc_send :: "nat \<Rightarrow> ipc_message option \<Rightarrow> ipc \<Rightarrow> (int \<times> ipc) res option" where
  "ipc_send dest msg st =
     (case msg of None \<Rightarrow> Some (Inr (- EINVAL, st))
      | Some m \<Rightarrow>
          if msize m > IPC_MSG_MAX_SIZE then Some (Inr (- EINVAL, st))
          else if proc_get_by_pid dest (procs st) = None then Some (Inr (- ESRCH, st))
          else ro_bind (ipc_get_queue dest st) (\<lambda>(q, st).
            case q of None \<Rightarrow> Some (Inr (- ENOMEM, st))
            | Some q \<Rightarrow>
                if messages q = None then Some (Inr (- ENOMEM, st))
                else if qcount q \<ge> IPC_MSG_MAX_QUEUE then Some (Inr (- EAGAIN, st))
                else Some (Inr (0, upd_queue dest (ipc_put (m\<lparr>sender_pid := current_pid (procs st)\<rparr>)) st))))"

text \<open>The scan for a message of \<^verbatim>\<open>src_pid\<close> (0: of anyone); slots with sender 0 count as empty.\<close>

definition ipc_scan :: "nat \<Rightarrow> nat \<Rightarrow> ipc_message list \<Rightarrow> nat option" where
  "ipc_scan src t ms = map_option (\<lambda>i. (t + i) mod IPC_MSG_MAX_QUEUE)
     (find (\<lambda>i. let c = ms ! ((t + i) mod IPC_MSG_MAX_QUEUE) in sender_pid c \<noteq> 0 \<and> (src = 0 \<or> sender_pid c = src)) [0..<IPC_MSG_MAX_QUEUE])"

definition ipc_take :: "nat \<Rightarrow> ipc_queue \<Rightarrow> ipc_queue" where
  "ipc_take idx q = q\<lparr>messages := map_option (\<lambda>ms. ms[idx := (ms ! idx)\<lparr>sender_pid := 0\<rparr>]) (messages q),
     qtail := (idx + 1) mod IPC_MSG_MAX_QUEUE, qcount := dec64 (qcount q)\<rparr>"

definition ipc_pick :: "nat \<Rightarrow> nat \<Rightarrow> ipc \<Rightarrow> (int \<times> ipc_message option \<times> ipc) res option" where
  "ipc_pick src i st =
     (case ipc_queues st of None \<Rightarrow> Some (Inl NullDeref)
      | Some qs \<Rightarrow>
          case messages (qs ! i) of None \<Rightarrow> Some (Inl NullDeref)
          | Some ms \<Rightarrow>
              case ipc_scan src (qtail (qs ! i)) ms of None \<Rightarrow> Some (Inr (- EAGAIN, None, st))
              | Some idx \<Rightarrow> Some (Inr (0, Some (ms ! idx), upd_queue i (ipc_take idx) st)))"

definition queue_count :: "nat \<Rightarrow> ipc \<Rightarrow> nat" where
  "queue_count i st = (case ipc_queues st of None \<Rightarrow> 0 | Some qs \<Rightarrow> qcount (qs ! i))"

definition ipc_receive :: "(ipc \<Rightarrow> ipc option) \<Rightarrow> nat \<Rightarrow> bool \<Rightarrow> ipc \<Rightarrow> (int \<times> ipc_message option \<times> ipc) res option" where
  "ipc_receive yield src has_msg st =
     (if \<not> has_msg then Some (Inr (- EINVAL, None, st))
      else case proc_get_current (procs st) of None \<Rightarrow> Some (Inr (- ESRCH, None, st))
      | Some c \<Rightarrow>
          let i = pid (proc_at (procs st) c) in
          ro_bind (ipc_get_queue i st) (\<lambda>(q, st).
            case q of None \<Rightarrow> Some (Inr (- ENOMEM, None, st))
            | Some q \<Rightarrow>
                if messages q = None then Some (Inr (- ENOMEM, None, st))
                else if queue_count i st = 0
                then Option.bind (yield st) (\<lambda>st.
                       if queue_count i st = 0 then Some (Inr (- EAGAIN, None, st)) else ipc_pick src i st)
                else ipc_pick src i st))"

fun broadcast_loop :: "nat list \<Rightarrow> ipc_message option \<Rightarrow> int \<Rightarrow> ipc \<Rightarrow> (int \<times> ipc) res option" where
  "broadcast_loop [] msg sent st = Some (Inr (sent, st))"
| "broadcast_loop (i # is) msg sent st =
     (case proc_get_by_pid i (procs st) of None \<Rightarrow> broadcast_loop is msg sent st
      | Some p \<Rightarrow>
          if state (proc_at (procs st) p) \<noteq> Unused
          then ro_bind (ipc_send i msg st) (\<lambda>(r, st). broadcast_loop is msg (if r = 0 then sent + 1 else sent) st)
          else broadcast_loop is msg sent st)"

definition ipc_broadcast :: "ipc_message option \<Rightarrow> ipc \<Rightarrow> (int \<times> ipc) res option" where
  "ipc_broadcast msg st =
     (if msg = None then Some (Inr (- EINVAL, st)) else broadcast_loop [1..<ipc_max_queues st] msg 0 st)"

definition ipc_flush_queue :: "nat \<Rightarrow> ipc \<Rightarrow> ipc res option" where
  "ipc_flush_queue i st =
     ro_bind (ipc_get_queue i st) (\<lambda>(q, st).
       case q of None \<Rightarrow> Some (Inr st)
       | Some _ \<Rightarrow> Some (Inr (upd_queue i (\<lambda>q. q\<lparr>qhead := 0, qtail := 0, qcount := 0,
            messages := map_option (map (\<lambda>m. m\<lparr>sender_pid := 0\<rparr>)) (messages q)\<rparr>) st)))"

section \<open>\<^verbatim>\<open>ipc/sharedmem.c\<close>\<close>

abbreviation "SHM_MAX_REGIONS \<equiv> 16 :: nat"
abbreviation "SHM_NAME_MAX \<equiv> 32 :: nat"

record shm_region =
  rname :: "u8 list"
  raddr :: u64
  rsize :: nat
  refcount :: "32 word"
  valid :: bool

record shm =
  regions :: "shm_region list"
  shm_vmm :: vmm

text \<open>\<^verbatim>\<open>strcmp(a, b) == 0\<close>: the bytes before the first zero agree.\<close>

definition cstr_eq :: "u8 list \<Rightarrow> u8 list \<Rightarrow> bool" where
  "cstr_eq a b \<longleftrightarrow> takeWhile (\<lambda>c. c \<noteq> 0) a = takeWhile (\<lambda>c. c \<noteq> 0) b"

definition shm_init :: "shm \<Rightarrow> shm" where
  "shm_init st = st\<lparr>regions := map (\<lambda>r. r\<lparr>valid := False\<rparr>) (regions st)\<rparr>"

definition shm_find :: "u8 list \<Rightarrow> shm \<Rightarrow> nat option" where
  "shm_find name st = find (\<lambda>i. valid (regions st ! i) \<and> cstr_eq (rname (regions st ! i)) name) [0..<SHM_MAX_REGIONS]"

definition upd_region :: "nat \<Rightarrow> (shm_region \<Rightarrow> shm_region) \<Rightarrow> shm \<Rightarrow> shm" where
  "upd_region i f st = st\<lparr>regions := (regions st)[i := f (regions st ! i)]\<rparr>"

definition shm_window :: "nat \<Rightarrow> u64" where
  "shm_window i = 0xFFFFFFFF80C00000 + of_nat i * 0x100000"

text \<open>The result is the return value and what is stored through \<^verbatim>\<open>out_addr\<close>, if anything.\<close>

definition shm_create :: "u8 list option \<Rightarrow> nat \<Rightarrow> bool \<Rightarrow> shm \<Rightarrow> (int \<times> u64 option \<times> shm) res" where
  "shm_create name n out st =
     (case name of None \<Rightarrow> Inr (- EINVAL, None, st)
      | Some name \<Rightarrow>
          if \<not> out \<or> n = 0 then Inr (- EINVAL, None, st)
          else case shm_find name st of
            Some i \<Rightarrow> Inr (0, Some (raddr (regions st ! i)), upd_region i (\<lambda>r. r\<lparr>refcount := refcount r + 1\<rparr>) st)
          | None \<Rightarrow>
              (case find (\<lambda>i. \<not> valid (regions st ! i)) [0..<SHM_MAX_REGIONS] of
                 None \<Rightarrow> Inr (- ENOSPC, None, st)
               | Some i \<Rightarrow>
                   let pages = sub64 (add64 n 4096) 1 div 4096 in
                   res_bind (pmm_alloc_pages pages (vmm_pmm (shm_vmm st))) (\<lambda>(phys, p).
                     let st = st\<lparr>shm_vmm := (shm_vmm st)\<lparr>vmm_pmm := p\<rparr>\<rparr> in
                     if phys = 0 then Inr (- ENOMEM, None, st)
                     else res_bind (vmm_map_range (shm_window i) (of_nat phys) pages (PAGE_PRESENT OR PAGE_WRITABLE OR PAGE_USER) (shm_vmm st)) (\<lambda>v.
                       let st = upd_region i (\<lambda>r. r\<lparr>rname := strn_field SHM_NAME_MAX name, raddr := shm_window i,
                                  rsize := pages * 4096 mod 2 ^ 64, refcount := 1, valid := True\<rparr>) (st\<lparr>shm_vmm := v\<rparr>)
                       in Inr (0, Some (shm_window i), st)))))"

definition shm_open :: "u8 list option \<Rightarrow> bool \<Rightarrow> shm \<Rightarrow> int \<times> u64 option \<times> shm" where
  "shm_open name out st =
     (case name of None \<Rightarrow> (- EINVAL, None, st)
      | Some name \<Rightarrow>
          if \<not> out then (- EINVAL, None, st)
          else case shm_find name st of
            Some i \<Rightarrow> (0, Some (raddr (regions st ! i)), upd_region i (\<lambda>r. r\<lparr>refcount := refcount r + 1\<rparr>) st)
          | None \<Rightarrow> (- ENOENT, None, st))"

definition shm_close :: "u8 list \<Rightarrow> shm \<Rightarrow> int \<times> shm" where
  "shm_close name st =
     (case shm_find name st of
        Some i \<Rightarrow>
          let st = upd_region i (\<lambda>r. r\<lparr>refcount := refcount r - 1\<rparr>) st;
              st = (if sint (refcount (regions st ! i)) \<le> 0 then upd_region i (\<lambda>r. r\<lparr>valid := False\<rparr>) st else st)
          in (0, st)
      | None \<Rightarrow> (- ENOENT, st))"

definition shm_list :: "shm \<Rightarrow> (nat \<times> u8 list \<times> u64 \<times> nat \<times> 32 word) list" where
  "shm_list st = map (\<lambda>i. let r = regions st ! i in (i, rname r, raddr r, rsize r, refcount r))
     (filter (\<lambda>i. valid (regions st ! i)) [0..<SHM_MAX_REGIONS])"

section \<open>Semaphores\<close>

lemma sint_inc: "sint (x :: 32 word) < 2 ^ 31 - 1 \<Longrightarrow> sint (x + 1) = sint x + 1"
  and sint_dec: "- (2 ^ 31) < sint (x :: 32 word) \<Longrightarrow> sint (x - 1) = sint x - 1"
proof -
  have r: "- (2 ^ 31) \<le> sint x" "sint x < 2 ^ 31" using sint_greater_eq[of x] sint_less[of x] by auto
  show "sint x < 2 ^ 31 - 1 \<Longrightarrow> sint (x + 1) = sint x + 1"
    using r by (simp add: sint_word_ariths signed_take_bit_int_eq_self)
  show "- (2 ^ 31) < sint x \<Longrightarrow> sint (x - 1) = sint x - 1"
    using r by (simp add: sint_word_ariths signed_take_bit_int_eq_self)
qed

datatype semop = Try | Signal

fun run_sem :: "semop list \<Rightarrow> semaphore option \<Rightarrow> nat \<Rightarrow> nat \<times> semaphore option" where
  "run_sem [] sem got = (got, sem)"
| "run_sem (Try # os) sem got = (case semaphore_try_wait sem of (ok, sem) \<Rightarrow> run_sem os sem (if ok then got + 1 else got))"
| "run_sem (Signal # os) sem got = run_sem os (semaphore_signal sem) got"

definition signals :: "semop list \<Rightarrow> nat" where
  "signals os = length (filter (\<lambda>x. x = Signal) os)"

lemma run_sem_conserves:
  assumes "0 \<le> sint (count s)" "sint (count s) + int (length os) < 2 ^ 31"
  shows "\<exists>s'. run_sem os (Some s) got = (fst (run_sem os (Some s) got), Some s') \<and> 0 \<le> sint (count s') \<and>
    sint (count s') + int (fst (run_sem os (Some s) got)) = sint (count s) + int got + int (signals os)"
  using assms
proof (induction os arbitrary: s got)
  case (Cons a os)
  show ?case
  proof (cases a)
    case Try
    show ?thesis
    proof (cases "sint (count s) > 0")
      case True
      have d: "sint (count s - 1) = sint (count s) - 1" using Cons.prems by (intro sint_dec) simp
      show ?thesis using Cons.IH[of "s\<lparr>count := count s - 1\<rparr>" "got + 1"] Cons.prems True Try d
        by (auto simp: semaphore_try_wait_def signals_def)
    next
      case False
      then show ?thesis using Cons.IH[of s got] Cons.prems Try by (auto simp: semaphore_try_wait_def signals_def)
    qed
  next
    case Signal
    have d: "sint (count s + 1) = sint (count s) + 1" using Cons.prems by (intro sint_inc) simp
    show ?thesis using Cons.IH[of "s\<lparr>count := count s + 1\<rparr>" got] Cons.prems Signal d
      by (auto simp: semaphore_signal_def signals_def)
  qed
qed (auto simp: signals_def)

text \<open>C31 (semaphore_conserves): no semaphore is overdrawn: from \<^verbatim>\<open>semaphore_init(k)\<close> on, through any sequence of tries and signals, the
  acquisitions granted are exactly the initial count plus the signals minus the count that is left, which is never negative.\<close>

theorem semaphore_conserves:
  assumes "semaphore_init (Some s) (of_nat k) = sem" "k + length os < 2 ^ 31" "run_sem os sem 0 = (got, sem')"
  shows "0 \<le> semaphore_get_value sem' \<and> int got = int k + int (signals os) - semaphore_get_value sem'"
proof -
  let ?s = "s\<lparr>count := of_nat k, waiters := 0\<rparr>"
  have k: "sint (of_nat k :: 32 word) = int k" using assms(2) by (simp add: sint_sbintrunc' signed_of_nat signed_take_bit_int_eq_self)
  have "0 \<le> sint (count ?s)" "sint (count ?s) + int (length os) < 2 ^ 31" using k assms(2) by auto
  from run_sem_conserves[OF this, of 0] assms(1,3) k show ?thesis
    by (auto simp: semaphore_init_def semaphore_get_value_def)
qed

theorem semaphore_conserves_witness:
  "\<exists>got sem'. run_sem [Try, Try, Signal, Try] (semaphore_init (Some \<lparr>count = 9, waiters = 9\<rparr>) 1) 0 = (got, sem') \<and>
     int got = 2 - semaphore_get_value sem' \<and> got = 2"
proof -
  obtain got sem' where r: "run_sem [Try, Try, Signal, Try] (semaphore_init (Some \<lparr>count = 9, waiters = 9\<rparr>) (of_nat 1)) 0 = (got, sem')"
    by (cases "run_sem [Try, Try, Signal, Try] (semaphore_init (Some \<lparr>count = 9, waiters = 9\<rparr>) (of_nat 1)) 0")
  have "got = 2" using r by (auto simp: semaphore_init_def semaphore_try_wait_def semaphore_signal_def)
  moreover have "int got = 1 + int (signals [Try, Try, Signal, Try]) - semaphore_get_value sem'"
    using semaphore_conserves[OF refl _ r] by simp
  ultimately show ?thesis using r by (simp add: signals_def del: run_sem.simps)
qed

lemma semaphore_wait_free:
  assumes "sint (count s) > 0"
  shows "semaphore_wait y (Some s) = Some (Some (s\<lparr>count := count s - 1\<rparr>))"
proof -
  have "semaphore_block y (s\<lparr>waiters := waiters s + 1\<rparr>) = Some (s\<lparr>waiters := waiters s + 1\<rparr>)"
    using assms by (subst semaphore_block.simps) simp
  then show ?thesis by (simp add: semaphore_wait_def)
qed

section \<open>Mailboxes\<close>

text \<open>A queue that holds the messages \<open>xs\<close>, oldest first, in the cells from its tail on; all other cells are free.\<close>

definition mailbox :: "ipc_queue \<Rightarrow> ipc_message list \<Rightarrow> bool" where
  "mailbox q xs \<longleftrightarrow> (\<exists>ms. messages q = Some ms \<and> length ms = IPC_MSG_MAX_QUEUE \<and> qtail q < IPC_MSG_MAX_QUEUE \<and>
     length xs \<le> IPC_MSG_MAX_QUEUE \<and> qcount q = length xs \<and> qhead q = (qtail q + length xs) mod IPC_MSG_MAX_QUEUE \<and>
     (\<forall>k < length xs. ms ! ((qtail q + k) mod IPC_MSG_MAX_QUEUE) = xs ! k \<and> sender_pid (xs ! k) \<noteq> 0) \<and>
     (\<forall>k. length xs \<le> k \<and> k < IPC_MSG_MAX_QUEUE \<longrightarrow> sender_pid (ms ! ((qtail q + k) mod IPC_MSG_MAX_QUEUE)) = 0))"

lemma slot_inj: "k < IPC_MSG_MAX_QUEUE \<Longrightarrow> j < IPC_MSG_MAX_QUEUE \<Longrightarrow> (t + k) mod IPC_MSG_MAX_QUEUE = (t + j) mod IPC_MSG_MAX_QUEUE \<longleftrightarrow> k = j"
proof -
  assume a: "k < IPC_MSG_MAX_QUEUE" "j < IPC_MSG_MAX_QUEUE"
  define u where "u = t mod IPC_MSG_MAX_QUEUE"
  have u: "u < IPC_MSG_MAX_QUEUE" by (simp add: u_def)
  have m: "(t + i) mod IPC_MSG_MAX_QUEUE = (if u + i < IPC_MSG_MAX_QUEUE then u + i else u + i - IPC_MSG_MAX_QUEUE)" if "i < IPC_MSG_MAX_QUEUE" for i
  proof -
    have "(t + i) mod IPC_MSG_MAX_QUEUE = (u + i) mod IPC_MSG_MAX_QUEUE" by (simp add: u_def mod_add_left_eq)
    then show ?thesis using u that by (simp add: le_mod_geq)
  qed
  show ?thesis unfolding m[OF a(1)] m[OF a(2)] using u a by (simp split: if_splits) linarith
qed

lemma mailbox_put:
  assumes "mailbox q xs" "length xs < IPC_MSG_MAX_QUEUE" "sender_pid m \<noteq> 0"
  shows "mailbox (ipc_put m q) (xs @ [m])"
proof -
  obtain ms where m: "messages q = Some ms" "length ms = IPC_MSG_MAX_QUEUE" "qtail q < IPC_MSG_MAX_QUEUE" "qcount q = length xs"
    "qhead q = (qtail q + length xs) mod IPC_MSG_MAX_QUEUE"
    "\<And>k. k < length xs \<Longrightarrow> ms ! ((qtail q + k) mod IPC_MSG_MAX_QUEUE) = xs ! k \<and> sender_pid (xs ! k) \<noteq> 0"
    "\<And>k. length xs \<le> k \<Longrightarrow> k < IPC_MSG_MAX_QUEUE \<Longrightarrow> sender_pid (ms ! ((qtail q + k) mod IPC_MSG_MAX_QUEUE)) = 0"
    using assms(1) by (auto simp: mailbox_def)
  let ?ms = "ms[qhead q := m]"
  have u: "?ms ! ((qtail q + k) mod IPC_MSG_MAX_QUEUE) = (if k = length xs then m else ms ! ((qtail q + k) mod IPC_MSG_MAX_QUEUE))"
    if "k < IPC_MSG_MAX_QUEUE" for k
    using slot_inj[OF that assms(2), of "qtail q"] m(2,5) by (auto simp: nth_list_update)
  have c: "qcount (ipc_put m q) = length (xs @ [m])" using m(4) assms(2) by (simp add: ipc_put_def inc64_def)
  have h: "qhead (ipc_put m q) = (qtail q + length (xs @ [m])) mod IPC_MSG_MAX_QUEUE" using m(5) by (simp add: ipc_put_def mod_Suc_eq)
  have 1: "?ms ! ((qtail q + k) mod IPC_MSG_MAX_QUEUE) = (xs @ [m]) ! k \<and> sender_pid ((xs @ [m]) ! k) \<noteq> 0" if "k < length (xs @ [m])" for k
    using that u[of k] m(6)[of k] assms(2,3) by (cases "k = length xs") (auto simp: nth_append)
  have 2: "sender_pid (?ms ! ((qtail q + k) mod IPC_MSG_MAX_QUEUE)) = 0" if "length (xs @ [m]) \<le> k" "k < IPC_MSG_MAX_QUEUE" for k
    using that u[of k] m(7)[of k] by auto
  show ?thesis unfolding mailbox_def
    by (rule exI[of _ ?ms]) (use m(1-3) assms(2) c h 1 2 in \<open>simp add: ipc_put_def\<close>)
qed

lemma mailbox_scan:
  assumes "mailbox q (x # xs)" "messages q = Some ms"
  shows "ipc_scan 0 (qtail q) ms = Some (qtail q)" "ms ! qtail q = x"
proof -
  have q: "qtail q < IPC_MSG_MAX_QUEUE" "ms ! ((qtail q + 0) mod IPC_MSG_MAX_QUEUE) = x" "sender_pid x \<noteq> 0"
    using assms unfolding mailbox_def by fastforce+
  have "[0..<IPC_MSG_MAX_QUEUE] = 0 # [1..<IPC_MSG_MAX_QUEUE]" by (simp add: upt_conv_Cons del: upt_rec_numeral)
  then show "ipc_scan 0 (qtail q) ms = Some (qtail q)" using q by (simp add: ipc_scan_def Let_def del: upt_rec_numeral)
  show "ms ! qtail q = x" using q by simp
qed

lemma mailbox_take:
  assumes "mailbox q (x # xs)"
  shows "mailbox (ipc_take (qtail q) q) xs"
proof -
  obtain ms where m: "messages q = Some ms" "length ms = IPC_MSG_MAX_QUEUE" "qtail q < IPC_MSG_MAX_QUEUE" "qcount q = Suc (length xs)"
    "Suc (length xs) \<le> IPC_MSG_MAX_QUEUE" "qhead q = (qtail q + Suc (length xs)) mod IPC_MSG_MAX_QUEUE"
    "\<And>k. k < Suc (length xs) \<Longrightarrow> ms ! ((qtail q + k) mod IPC_MSG_MAX_QUEUE) = (x # xs) ! k \<and> sender_pid ((x # xs) ! k) \<noteq> 0"
    "\<And>k. Suc (length xs) \<le> k \<Longrightarrow> k < IPC_MSG_MAX_QUEUE \<Longrightarrow> sender_pid (ms ! ((qtail q + k) mod IPC_MSG_MAX_QUEUE)) = 0"
    using assms by (auto simp: mailbox_def)
  let ?t = "(qtail q + 1) mod IPC_MSG_MAX_QUEUE"
  let ?ms = "ms[qtail q := (ms ! qtail q)\<lparr>sender_pid := 0\<rparr>]"
  have s: "(?t + k) mod IPC_MSG_MAX_QUEUE = (qtail q + Suc k) mod IPC_MSG_MAX_QUEUE" for k by (simp add: mod_simps)
  have u: "?ms ! ((qtail q + k) mod IPC_MSG_MAX_QUEUE) = (if k = 0 then (ms ! qtail q)\<lparr>sender_pid := 0\<rparr> else ms ! ((qtail q + k) mod IPC_MSG_MAX_QUEUE))"
    if "k < IPC_MSG_MAX_QUEUE" for k
    using slot_inj[OF that, of 0 "qtail q"] m(2,3) by (auto simp: nth_list_update)
  have c: "qcount (ipc_take (qtail q) q) = length xs" using m(4,5) by (simp add: ipc_take_def dec64_nowrap)
  have h: "qhead q = (?t + length xs) mod IPC_MSG_MAX_QUEUE" using m(6) s by simp
  have 1: "?ms ! ((?t + k) mod IPC_MSG_MAX_QUEUE) = xs ! k \<and> sender_pid (xs ! k) \<noteq> 0" if "k < length xs" for k
    using that m(5) m(7)[of "Suc k"] u[of "Suc k"] unfolding s by auto
  have 2: "sender_pid (?ms ! ((?t + k) mod IPC_MSG_MAX_QUEUE)) = 0" if "length xs \<le> k" "k < IPC_MSG_MAX_QUEUE" for k
  proof (cases "Suc k = IPC_MSG_MAX_QUEUE")
    case True
    then have "(qtail q + Suc k) mod IPC_MSG_MAX_QUEUE = qtail q" using m(3) by simp
    then show ?thesis using m(2,3) unfolding s by simp
  next
    case False
    then show ?thesis using that u[of "Suc k"] m(8)[of "Suc k"] unfolding s by auto
  qed
  show ?thesis unfolding mailbox_def
    by (rule exI[of _ ?ms]) (use m(1-3,5) c h 1 2 in \<open>simp add: ipc_take_def\<close>)
qed

definition queue_of :: "nat \<Rightarrow> ipc \<Rightarrow> ipc_queue" where
  "queue_of i st = the (ipc_queues st) ! i"

definition ipc_wf :: "ipc \<Rightarrow> bool" where
  "ipc_wf st \<longleftrightarrow> (\<exists>qs. ipc_queues st = Some qs \<and> length qs = ipc_max_queues st)"

lemma get_owned:
  assumes "ipc_wf st" "i < ipc_max_queues st" "owner_pid (queue_of i st) \<noteq> 0"
  shows "ipc_get_queue i st = Some (Inr (Some (queue_of i st), st))"
  using assms by (auto simp: ipc_wf_def ipc_get_queue_def queue_of_def)

lemma queue_of_upd [simp]: "ipc_wf st \<Longrightarrow> i < ipc_max_queues st \<Longrightarrow> queue_of i (upd_queue i f st) = f (queue_of i st)"
  by (auto simp: ipc_wf_def upd_queue_def queue_of_def)

lemma ipc_wf_upd [simp]: "ipc_wf (upd_queue i f st) = ipc_wf st" "ipc_max_queues (upd_queue i f st) = ipc_max_queues st"
  "procs (upd_queue i f st) = procs st"
  by (auto simp: ipc_wf_def upd_queue_def)

lemma put_take_owner [simp]: "owner_pid (ipc_put m q) = owner_pid q" "owner_pid (ipc_take i q) = owner_pid q"
  by (simp_all add: ipc_put_def ipc_take_def)

lemma send_appends:
  assumes "ipc_wf st" "d < ipc_max_queues st" "owner_pid (queue_of d st) \<noteq> 0" "mailbox (queue_of d st) xs" "length xs < IPC_MSG_MAX_QUEUE"
    "msize m \<le> IPC_MSG_MAX_SIZE" "proc_get_by_pid d (procs st) \<noteq> None" "current_pid (procs st) \<noteq> 0"
  shows "\<exists>st'. ipc_send d (Some m) st = Some (Inr (0, st')) \<and> ipc_wf st' \<and> ipc_max_queues st' = ipc_max_queues st \<and>
    owner_pid (queue_of d st') \<noteq> 0 \<and> mailbox (queue_of d st') (xs @ [m\<lparr>sender_pid := current_pid (procs st)\<rparr>])"
proof -
  let ?m = "m\<lparr>sender_pid := current_pid (procs st)\<rparr>"
  have "messages (queue_of d st) \<noteq> None" "qcount (queue_of d st) < IPC_MSG_MAX_QUEUE" using assms(4,5) by (auto simp: mailbox_def)
  then have "ipc_send d (Some m) st = Some (Inr (0, upd_queue d (ipc_put ?m) st))"
    using get_owned[OF assms(1-3)] assms(6,7) by (auto simp: ipc_send_def ro_bind_def)
  then show ?thesis using assms mailbox_put[OF assms(4,5), of ?m] by auto
qed

lemma receive_oldest:
  assumes "ipc_wf st" "d < ipc_max_queues st" "owner_pid (queue_of d st) \<noteq> 0" "mailbox (queue_of d st) (x # xs)"
    "proc_get_current (procs st) = Some c" "pid (proc_at (procs st) c) = d"
  shows "\<exists>st'. ipc_receive y 0 True st = Some (Inr (0, Some x, st')) \<and> mailbox (queue_of d st') xs"
proof -
  obtain ms where ms: "messages (queue_of d st) = Some ms" "qcount (queue_of d st) \<noteq> 0" using assms(4) by (auto simp: mailbox_def)
  obtain qs where qs: "ipc_queues st = Some qs" using assms(1) by (auto simp: ipc_wf_def)
  have q: "queue_of d st = qs ! d" using qs by (simp add: queue_of_def)
  have "ipc_pick 0 d st = Some (Inr (0, Some x, upd_queue d (ipc_take (qtail (queue_of d st))) st))"
    using mailbox_scan[OF assms(4) ms(1)] ms(1) qs q by (simp add: ipc_pick_def)
  then have "ipc_receive y 0 True st = Some (Inr (0, Some x, upd_queue d (ipc_take (qtail (queue_of d st))) st))"
    using get_owned[OF assms(1-3)] assms(5,6) ms qs q by (auto simp: ipc_receive_def ro_bind_def queue_count_def)
  then show ?thesis using mailbox_take[OF assms(4)] assms(1,2) by auto
qed

text \<open>C14 (ipc_send_receive): messages are delivered first in, first out: a message sent by a process with a non-zero pid to a mailbox that
  is not full is accepted and queued behind the others with its sender, and the next receive of the owner, from
  anyone, returns the oldest message and leaves the rest.\<close>

theorem ipc_send_receive:
  assumes "ipc_wf st" "d < ipc_max_queues st" "owner_pid (queue_of d st) \<noteq> 0" "mailbox (queue_of d st) xs" "length xs < IPC_MSG_MAX_QUEUE"
    and "msize m \<le> IPC_MSG_MAX_SIZE" "proc_get_by_pid d (procs st) \<noteq> None" "current_pid (procs st) \<noteq> 0"
    and "proc_get_current s = Some c" "pid (proc_at s c) = d"
    and "all = xs @ [m\<lparr>sender_pid := current_pid (procs st)\<rparr>]"
  shows "\<exists>st1 st2. ipc_send d (Some m) st = Some (Inr (0, st1)) \<and> mailbox (queue_of d st1) all \<and>
    ipc_receive y 0 True (st1\<lparr>procs := s\<rparr>) = Some (Inr (0, Some (hd all), st2)) \<and> mailbox (queue_of d st2) (tl all)"
proof -
  obtain st1 where s1: "ipc_send d (Some m) st = Some (Inr (0, st1))" "ipc_wf st1" "ipc_max_queues st1 = ipc_max_queues st"
    "owner_pid (queue_of d st1) \<noteq> 0" "mailbox (queue_of d st1) all"
    using send_appends[OF assms(1-8)] assms(11) by auto
  let ?s = "st1\<lparr>procs := s\<rparr>"
  have qo: "queue_of d ?s = queue_of d st1" by (simp add: queue_of_def)
  have "all \<noteq> []" using assms(11) by simp
  then obtain x ys where a: "all = x # ys" by (cases all) auto
  have "\<exists>st2. ipc_receive y 0 True ?s = Some (Inr (0, Some x, st2)) \<and> mailbox (queue_of d st2) ys"
    by (rule receive_oldest) (use s1 a assms(2,9,10) qo in \<open>auto simp: ipc_wf_def\<close>)
  then show ?thesis using s1 a by auto
qed

text \<open>A message sent by the idle process or before processes exist has sender 0, which marks an empty
  slot: a queue with such messages only is never empty for \<^verbatim>\<open>ipc_send\<close> and never has a message for \<^verbatim>\<open>ipc_receive\<close>.\<close>

lemma ipc_kernel_message_stuck:
  assumes "ipc_wf st" "d < ipc_max_queues st" "owner_pid (queue_of d st) \<noteq> 0" "messages (queue_of d st) = Some ms"
    "length ms = IPC_MSG_MAX_QUEUE" "\<forall>m\<in>set ms. sender_pid m = 0" "0 < qcount (queue_of d st)"
    "proc_get_current (procs st) = Some c" "pid (proc_at (procs st) c) = d"
  shows "ipc_receive y src True st = Some (Inr (- EAGAIN, None, st))"
proof -
  obtain qs where qs: "ipc_queues st = Some qs" using assms(1) by (auto simp: ipc_wf_def)
  have q: "queue_of d st = qs ! d" using qs by (simp add: queue_of_def)
  have "ms ! ((qtail (qs ! d) + i) mod IPC_MSG_MAX_QUEUE) \<in> set ms" for i using assms(5) by (intro nth_mem) simp
  then have "ipc_scan src (qtail (qs ! d)) ms = None"
    using assms(6) by (auto simp: ipc_scan_def find_None_iff Let_def simp del: upt_rec_numeral)
  then have "ipc_pick src d st = Some (Inr (- EAGAIN, None, st))" using assms(4) qs q by (simp add: ipc_pick_def)
  then show ?thesis using get_owned[OF assms(1-3)] assms(4,7-9) qs q by (simp add: ipc_receive_def ro_bind_def queue_count_def)
qed

definition ipc_example :: "ipc_message list \<Rightarrow> nat \<Rightarrow> heap \<Rightarrow> ipc" where
  "ipc_example ms n h = \<lparr>ipc_queues = Some ((replicate 256 zero_queue)[2 := \<lparr>messages = Some ms, qhead = n, qtail = 0, qcount = n, owner_pid = 2\<rparr>]),
     ipc_max_queues = 256, procs = sched_three h\<rparr>"

lemma ipc_example_sel: "ipc_wf (ipc_example ms n h)" "ipc_max_queues (ipc_example ms n h) = 256" "procs (ipc_example ms n h) = sched_three h"
  "queue_of 2 (ipc_example ms n h) = \<lparr>messages = Some ms, qhead = n, qtail = 0, qcount = n, owner_pid = 2\<rparr>"
  by (simp_all add: ipc_example_def ipc_wf_def queue_of_def)

lemma empty_mailbox: "mailbox \<lparr>messages = Some (replicate 64 zero_message), qhead = 0, qtail = 0, qcount = 0, owner_pid = 2\<rparr> []"
  by (simp add: mailbox_def zero_message_def)

lemma three_pid2: "proc_get_by_pid 2 (sched_three h) = Some 2"
proof -
  have "[0..<PROC_MAX_PROCESSES] = 0 # 1 # 2 # [3..<PROC_MAX_PROCESSES]" by (simp add: upt_conv_Cons del: upt_rec_numeral)
  then show ?thesis by (simp add: proc_get_by_pid_def sched_three_def blank_proc_def del: upt_rec_numeral)
qed

theorem ipc_send_receive_witness:
  "\<forall>h y. \<exists>st1 st2. ipc_send 2 (Some (zero_message\<lparr>mtype := 7\<rparr>)) (ipc_example (replicate 64 zero_message) 0 h) = Some (Inr (0, st1)) \<and>
     ipc_receive y 0 True (st1\<lparr>procs := (sched_three h)\<lparr>current := Some 2\<rparr>\<rparr>) = Some (Inr (0, Some (zero_message\<lparr>mtype := 7, sender_pid := 1\<rparr>), st2))"
proof (intro allI)
  fix h y
  let ?st = "ipc_example (replicate 64 zero_message) 0 h" and ?m = "zero_message\<lparr>mtype := 7\<rparr>" and ?s = "(sched_three h)\<lparr>current := Some 2\<rparr>"
  have c: "current_pid (sched_three h) = 1" by (simp add: current_pid_def proc_get_current_def sched_three_def)
  have "\<exists>st1 st2. ipc_send 2 (Some ?m) ?st = Some (Inr (0, st1)) \<and> mailbox (queue_of 2 st1) ([] @ [?m\<lparr>sender_pid := current_pid (procs ?st)\<rparr>]) \<and>
    ipc_receive y 0 True (st1\<lparr>procs := ?s\<rparr>) = Some (Inr (0, Some (hd ([] @ [?m\<lparr>sender_pid := current_pid (procs ?st)\<rparr>])), st2)) \<and>
    mailbox (queue_of 2 st2) (tl ([] @ [?m\<lparr>sender_pid := current_pid (procs ?st)\<rparr>]))"
    by (rule ipc_send_receive[where c = 2])
      (simp_all add: ipc_example_sel empty_mailbox three_pid2 c, simp_all add: zero_message_def proc_get_current_def sched_three_def)
  then show "\<exists>st1 st2. ipc_send 2 (Some ?m) ?st = Some (Inr (0, st1)) \<and>
     ipc_receive y 0 True (st1\<lparr>procs := ?s\<rparr>) = Some (Inr (0, Some (zero_message\<lparr>mtype := 7, sender_pid := 1\<rparr>), st2))"
    using c by (auto simp: ipc_example_sel)
qed

section \<open>Shared memory\<close>

text \<open>The region windows lie inside the address range of the kernel heap.\<close>

lemma shm_window_in_heap:
  assumes "i < SHM_MAX_REGIONS"
  shows "HEAP_BASE \<le> unat (shm_window i) \<and> unat (shm_window i) + 0x100000 \<le> HEAP_BASE + HEAP_MAX_SIZE"
proof -
  have "shm_window i = word_of_nat (0xFFFFFFFF80C00000 + i * 0x100000)" by (simp add: shm_window_def)
  then have "unat (shm_window i) = 0xFFFFFFFF80C00000 + i * 0x100000"
    using assms by (simp only:) (simp add: unat_of_nat del: of_nat_add of_nat_mult)
  then show ?thesis using assms by simp
qed

lemma takeWhile_padded: "\<forall>c\<in>set t. c \<noteq> 0 \<Longrightarrow> takeWhile (\<lambda>c. c \<noteq> 0) (t @ replicate k 0) = t"
  by (induction t) (cases k; simp)+

lemma field_takeWhile: "takeWhile (\<lambda>c. c \<noteq> 0) (strn_field n s) = take (n - 1) (takeWhile (\<lambda>c. c \<noteq> 0) s)"
  unfolding strn_field_def Let_def by (rule takeWhile_padded) (auto dest: in_set_takeD set_takeWhileD)

text \<open>A stored name is found again exactly if it was not truncated.\<close>

lemma field_eq_iff:
  assumes "0 < n"
  shows "cstr_eq (strn_field n s) s \<longleftrightarrow> length (takeWhile (\<lambda>c. c \<noteq> 0) s) < n"
proof -
  have "take (n - 1) t = t \<longleftrightarrow> length t < n" for t :: "u8 list"
  proof
    assume "take (n - 1) t = t"
    then have "length (take (n - 1) t) = length t" by simp
    then show "length t < n" using assms by simp
  qed simp
  then show ?thesis by (simp add: cstr_eq_def field_takeWhile)
qed

lemma shm_find_valid: "shm_find name st = Some i \<Longrightarrow> i < SHM_MAX_REGIONS \<and> valid (regions st ! i) \<and> cstr_eq (rname (regions st ! i)) name"
  by (auto simp: shm_find_def find_Some_iff simp del: upt_rec_numeral)

text \<open>Opening and closing are inverse on the reference count.\<close>

lemma shm_open_close:
  assumes "length (regions st) = SHM_MAX_REGIONS" "shm_open (Some name) True st = (0, a, st1)" "shm_find name st = Some i"
    "0 < sint (refcount (regions st ! i))"
  shows "shm_close name st1 = (0, st)"
proof -
  note i = shm_find_valid[OF assms(3)]
  have s1: "st1 = upd_region i (\<lambda>r. r\<lparr>refcount := refcount r + 1\<rparr>) st" using assms(2,3) by (simp add: shm_open_def)
  have same: "valid (regions st1 ! j) = valid (regions st ! j)" "rname (regions st1 ! j) = rname (regions st ! j)" for j
    by (cases "j = i"; simp add: s1 upd_region_def i assms(1))+
  have "shm_find name st1 = Some i" using assms(3) by (simp add: shm_find_def same)
  moreover have "(regions st)[i := regions st ! i] = regions st" by simp
  ultimately show ?thesis using i assms(1,4) by (simp add: shm_close_def s1 upd_region_def Let_def)
qed

end
