(* ===== verification/Gos_Net.thy ===== *)
theory Gos_Net
  imports Gos_Fifo Gos_Proc
begin

text \<open>
  The network stack: checksums (\<^verbatim>\<open>net/checksum.c\<close>), the two ARP tables (\<^verbatim>\<open>net/arp.c\<close>, \<^verbatim>\<open>net/arp_table.c\<close>), routing
  (\<^verbatim>\<open>net/routing.c\<close>), interfaces (\<^verbatim>\<open>drivers/nic/nic.c\<close>), Ethernet, IPv4, ICMP, UDP, sockets and DHCP. A packet is the list of
  its bytes; 16 and 32 bit fields are the numbers the little-endian processor reads from them. The functions a
  driver registers are a parameter. Handlers that only log return what they log.
\<close>

section \<open>\<^verbatim>\<open>net/checksum.c\<close>\<close>

function net_checksum_fold :: "nat \<Rightarrow> nat" where
  "net_checksum_fold s = (if s div 2 ^ 16 \<noteq> 0 then net_checksum_fold (s mod 2 ^ 16 + s div 2 ^ 16) else 2 ^ 16 - 1 - s)"
  by pat_completeness auto
termination
proof (relation "measure id")
  fix s :: nat
  assume "s div 2 ^ 16 \<noteq> 0"
  then have "s div 2 ^ 16 < 2 ^ 16 * (s div 2 ^ 16)" by simp
  moreover have "s = 2 ^ 16 * (s div 2 ^ 16) + s mod 2 ^ 16" by simp
  ultimately have "s mod 2 ^ 16 + s div 2 ^ 16 < s" by linarith
  then show "(s mod 2 ^ 16 + s div 2 ^ 16, s) \<in> measure id" by (simp only: in_measure id_def)
qed simp

declare net_checksum_fold.simps [simp del]

text \<open>The loop over 16 bit words, low byte first, with a last odd byte.\<close>

fun checksum_sum :: "u8 list \<Rightarrow> nat \<Rightarrow> nat" where
  "checksum_sum (a # b # bs) s = checksum_sum bs ((s + (unat a + 256 * unat b)) mod 2 ^ 32)"
| "checksum_sum [a] s = (s + unat a) mod 2 ^ 32"
| "checksum_sum [] s = s"

definition net_checksum_add :: "u8 list \<Rightarrow> nat \<Rightarrow> nat" where
  "net_checksum_add bs start = net_checksum_fold (checksum_sum bs start)"

definition pseudo_sum :: "nat \<Rightarrow> nat \<Rightarrow> nat \<Rightarrow> nat \<Rightarrow> nat" where
  "pseudo_sum proto n src_ip dst_ip =
     src_ip div 2 ^ 16 mod 2 ^ 16 + src_ip mod 2 ^ 16 + dst_ip div 2 ^ 16 mod 2 ^ 16 + dst_ip mod 2 ^ 16 + proto +
     n mod 2 ^ 16 + n div 2 ^ 16 mod 2 ^ 16"

definition net_tcp_checksum :: "u8 list \<Rightarrow> nat \<Rightarrow> nat \<Rightarrow> nat" where
  "net_tcp_checksum bs src_ip dst_ip = net_checksum_add bs (pseudo_sum 6 (length bs) src_ip dst_ip)"

definition net_udp_checksum :: "u8 list \<Rightarrow> nat \<Rightarrow> nat \<Rightarrow> nat" where
  "net_udp_checksum bs src_ip dst_ip = net_checksum_add bs (pseudo_sum 17 (length bs) src_ip dst_ip)"

section \<open>Fields of packets\<close>

text \<open>\<^verbatim>\<open>((x & 0xFF) << 8) | ((x >> 8) & 0xFF)\<close>\<close>

definition swap16 :: "nat \<Rightarrow> nat" where
  "swap16 x = x mod 256 * 256 + x div 256 mod 256"

section \<open>\<^verbatim>\<open>net/arp_table.c\<close>\<close>

abbreviation "ARP_TABLE_SIZE \<equiv> 16 :: nat"

record arp_entry =
  ip :: nat
  mac :: "u8 list"
  avalid :: bool
  timestamp :: nat

definition arp_index :: "nat \<Rightarrow> arp_entry list \<Rightarrow> nat option" where
  "arp_index a t = find (\<lambda>i. avalid (t ! i) \<and> ip (t ! i) = a) [0..<ARP_TABLE_SIZE]"

definition arp_free :: "arp_entry list \<Rightarrow> nat option" where
  "arp_free t = find (\<lambda>i. \<not> avalid (t ! i)) [0..<ARP_TABLE_SIZE]"

definition arp_table_init :: "arp_entry list \<Rightarrow> arp_entry list" where
  "arp_table_init t = map (\<lambda>e. e\<lparr>avalid := False\<rparr>) t"

definition arp_table_add :: "nat \<Rightarrow> u8 list \<Rightarrow> arp_entry list \<Rightarrow> bool \<times> arp_entry list" where
  "arp_table_add a m t =
     (case arp_index a t of Some i \<Rightarrow> (True, t[i := (t ! i)\<lparr>mac := take 6 m\<rparr>])
      | None \<Rightarrow> (case arp_free t of Some i \<Rightarrow> (True, t[i := (t ! i)\<lparr>ip := a, mac := take 6 m, avalid := True\<rparr>])
                 | None \<Rightarrow> (False, t)))"

definition arp_table_lookup :: "nat \<Rightarrow> arp_entry list \<Rightarrow> u8 list option" where
  "arp_table_lookup a t = map_option (\<lambda>i. mac (t ! i)) (arp_index a t)"

definition arp_table_remove :: "nat \<Rightarrow> arp_entry list \<Rightarrow> arp_entry list" where
  "arp_table_remove a t = (case arp_index a t of Some i \<Rightarrow> t[i := (t ! i)\<lparr>avalid := False\<rparr>] | None \<Rightarrow> t)"

definition arp_table_dump :: "arp_entry list \<Rightarrow> (nat \<times> u8 list) list" where
  "arp_table_dump t = map (\<lambda>i. (ip (t ! i), mac (t ! i))) (filter (\<lambda>i. avalid (t ! i)) [0..<ARP_TABLE_SIZE])"

definition arp_table_flush :: "arp_entry list \<Rightarrow> arp_entry list" where
  "arp_table_flush t = map (\<lambda>e. e\<lparr>avalid := False\<rparr>) t"

section \<open>\<^verbatim>\<open>net/arp.c\<close>, with a table of its own\<close>

abbreviation "ARP_PACKET_SIZE \<equiv> 28 :: nat"

definition arp_init :: "arp_entry list \<Rightarrow> arp_entry list" where
  "arp_init t = map (\<lambda>e. e\<lparr>avalid := False\<rparr>) t"

definition arp_receive :: "u8 list \<Rightarrow> arp_entry list \<Rightarrow> arp_entry list" where
  "arp_receive p t =
     (if length p < ARP_PACKET_SIZE then t
      else if swap16 (field16 p 0) \<noteq> 1 \<or> p ! 5 \<noteq> 4 then t
      else case arp_free t of
             Some i \<Rightarrow> t[i := (t ! i)\<lparr>ip := field32 p 14, mac := take 6 (drop 8 p), avalid := True\<rparr>]
           | None \<Rightarrow> t)"

definition arp_lookup :: "nat \<Rightarrow> arp_entry list \<Rightarrow> u8 list option" where
  "arp_lookup a t = map_option (\<lambda>i. mac (t ! i)) (arp_index a t)"

definition arp_dump_table :: "arp_entry list \<Rightarrow> (nat \<times> u8 list) list" where
  "arp_dump_table t = map (\<lambda>i. (ip (t ! i), mac (t ! i))) (filter (\<lambda>i. avalid (t ! i)) [0..<ARP_TABLE_SIZE])"

section \<open>\<^verbatim>\<open>net/routing.c\<close>\<close>

abbreviation "ROUTE_TABLE_SIZE \<equiv> 16 :: nat"

record route_entry =
  dest :: u32
  netmask :: u32
  gateway :: u32
  iface_ip :: u32
  metric :: u8
  rvalid :: bool

definition routing_init :: "route_entry list \<Rightarrow> route_entry list" where
  "routing_init t = map (\<lambda>e. e\<lparr>rvalid := False\<rparr>) t"

definition routing_add :: "u32 \<Rightarrow> u32 \<Rightarrow> u32 \<Rightarrow> u8 \<Rightarrow> route_entry list \<Rightarrow> bool \<times> route_entry list" where
  "routing_add d n g m t =
     (case find (\<lambda>i. \<not> rvalid (t ! i)) [0..<ROUTE_TABLE_SIZE] of
        Some i \<Rightarrow> (True, t[i := (t ! i)\<lparr>dest := d, netmask := n, gateway := g, metric := m, rvalid := True\<rparr>])
      | None \<Rightarrow> (False, t))"

definition routing_remove :: "u32 \<Rightarrow> u32 \<Rightarrow> route_entry list \<Rightarrow> bool \<times> route_entry list" where
  "routing_remove d n t =
     (case find (\<lambda>i. rvalid (t ! i) \<and> dest (t ! i) = d \<and> netmask (t ! i) = n) [0..<ROUTE_TABLE_SIZE] of
        Some i \<Rightarrow> (True, t[i := (t ! i)\<lparr>rvalid := False\<rparr>])
      | None \<Rightarrow> (False, t))"

text \<open>The loop that clears the lowest bit until none is left.\<close>

function mask_bits :: "u32 \<Rightarrow> nat" where
  "mask_bits m = (if m = 0 then 0 else 1 + mask_bits (m AND (m - 1)))"
  by pat_completeness auto
termination
proof (relation "measure unat")
  fix m :: u32
  assume "m \<noteq> 0"
  then have "0 < unat m" by (simp add: unat_gt_0)
  then have "m - 1 < m" using \<open>m \<noteq> 0\<close> by (simp add: word_less_nat_alt unat_minus_one)
  moreover have "m AND (m - 1) \<le> m - 1" by (simp add: word_and_le1)
  ultimately show "(m AND (m - 1), m) \<in> measure unat" by (simp add: word_less_nat_alt word_le_nat_alt)
qed simp

declare mask_bits.simps [simp del]

fun lookup_loop :: "u32 \<Rightarrow> route_entry list \<Rightarrow> nat list \<Rightarrow> nat option \<times> int \<Rightarrow> nat option \<times> int" where
  "lookup_loop a t [] acc = acc"
| "lookup_loop a t (i # is) (best, best_match) =
     lookup_loop a t is
       (if rvalid (t ! i) \<and> a AND netmask (t ! i) = dest (t ! i) \<and> int (mask_bits (netmask (t ! i))) > best_match
        then (Some i, int (mask_bits (netmask (t ! i)))) else (best, best_match))"

definition routing_lookup :: "u32 \<Rightarrow> route_entry list \<Rightarrow> nat option" where
  "routing_lookup a t = fst (lookup_loop a t [0..<ROUTE_TABLE_SIZE] (None, -1))"

section \<open>\<^verbatim>\<open>drivers/nic/nic.c\<close>\<close>

abbreviation "NIC_MAX_INTERFACES \<equiv> 4 :: nat"

text \<open>
  A registered function pointer is an identifier, \<open>None\<close> for \<^verbatim>\<open>NULL\<close>; what the functions do to the devices (the last
  argument and result) is the parameter of the operations that call them.
\<close>

record nic_device =
  nic_name :: "u8 list"
  nic_mac :: "u8 list"
  nic_ip :: nat
  nic_netmask :: nat
  nic_gateway :: nat
  present :: bool
  up :: bool
  rx_packets :: nat
  tx_packets :: nat
  rx_bytes :: nat
  tx_bytes :: nat
  private_data :: nat
  init_fn :: "nat option"
  send_fn :: "nat option"
  poll_fn :: "nat option"

record nics =
  g_nics :: "nic_device list"
  g_nic_count :: nat

definition upd_nic :: "nat \<Rightarrow> (nic_device \<Rightarrow> nic_device) \<Rightarrow> nics \<Rightarrow> nics" where
  "upd_nic i f st = st\<lparr>g_nics := (g_nics st)[i := f (g_nics st ! i)]\<rparr>"

definition nic_init :: "nics \<Rightarrow> nics" where
  "nic_init st = st\<lparr>g_nics := map (\<lambda>n. n\<lparr>present := False, nic_name := (nic_name n)[0 := 0]\<rparr>) (g_nics st)\<rparr>"

definition nic_register :: "(nat \<Rightarrow> nat \<Rightarrow> nics \<times> 'd \<Rightarrow> nics \<times> 'd) \<Rightarrow> u8 list \<Rightarrow> u8 list \<Rightarrow> nat \<Rightarrow>
    nat option \<Rightarrow> nat option \<Rightarrow> nat option \<Rightarrow> nics \<times> 'd \<Rightarrow> bool \<times> nics \<times> 'd" where
  "nic_register call_init name m priv init_f send_f poll_f s =
     (case s of (st, d) \<Rightarrow>
        if g_nic_count st \<ge> NIC_MAX_INTERFACES then (False, st, d)
        else let i = g_nic_count st;
                 st = upd_nic i (\<lambda>n. n\<lparr>nic_name := strn_field 16 name, nic_mac := take 6 m, present := True, up := False,
                        private_data := priv, init_fn := init_f, send_fn := send_f, poll_fn := poll_f,
                        rx_packets := 0, tx_packets := 0, rx_bytes := 0, tx_bytes := 0\<rparr>) (st\<lparr>g_nic_count := i + 1\<rparr>);
                 s = (case init_f of None \<Rightarrow> (st, d) | Some f \<Rightarrow> call_init f i (st, d))
             in case s of (st, d) \<Rightarrow> (True, upd_nic i (\<lambda>n. n\<lparr>up := True\<rparr>) st, d))"

fun send_loop :: "(nat \<Rightarrow> nat \<Rightarrow> u8 list \<Rightarrow> nics \<times> 'd \<Rightarrow> int \<times> nics \<times> 'd) \<Rightarrow> u8 list \<Rightarrow> nat list \<Rightarrow> nics \<times> 'd \<Rightarrow> bool \<times> nics \<times> 'd" where
  "send_loop call bs [] s = (False, s)"
| "send_loop call bs (i # is) s =
     (let n = g_nics (fst s) ! i in
      case send_fn n of
        Some f \<Rightarrow>
          if present n \<and> up n
          then (case call f i bs s of (r, st, d) \<Rightarrow>
                  if r \<ge> 0
                  then (True, upd_nic i (\<lambda>n. n\<lparr>tx_packets := inc64 (tx_packets n), tx_bytes := add64 (tx_bytes n) (length bs)\<rparr>) st, d)
                  else send_loop call bs is (st, d))
          else send_loop call bs is s
      | None \<Rightarrow> send_loop call bs is s)"

definition nic_send_packet :: "(nat \<Rightarrow> nat \<Rightarrow> u8 list \<Rightarrow> nics \<times> 'd \<Rightarrow> int \<times> nics \<times> 'd) \<Rightarrow> u8 list option \<Rightarrow> nics \<times> 'd \<Rightarrow> bool \<times> nics \<times> 'd" where
  "nic_send_packet call bs s =
     (case bs of None \<Rightarrow> (False, s)
      | Some bs \<Rightarrow> if length bs = 0 then (False, s) else send_loop call bs [0..<g_nic_count (fst s)] s)"

fun poll_loop :: "(nat \<Rightarrow> nat \<Rightarrow> nat \<Rightarrow> nics \<times> 'd \<Rightarrow> int \<times> u8 list \<times> nics \<times> 'd) \<Rightarrow> nat \<Rightarrow> nat list \<Rightarrow> u8 list \<Rightarrow> nics \<times> 'd \<Rightarrow>
    int \<times> u8 list \<times> nics \<times> 'd" where
  "poll_loop call max_len [] buf s = (0, buf, s)"
| "poll_loop call max_len (i # is) buf s =
     (let n = g_nics (fst s) ! i in
      case poll_fn n of
        Some f \<Rightarrow>
          if present n \<and> up n
          then (case call f i max_len s of (r, buf, st, d) \<Rightarrow>
                  if r > 0
                  then (r, buf, upd_nic i (\<lambda>n. n\<lparr>rx_packets := inc64 (rx_packets n), rx_bytes := add64 (rx_bytes n) (nat r)\<rparr>) st, d)
                  else poll_loop call max_len is buf (st, d))
          else poll_loop call max_len is buf s
      | None \<Rightarrow> poll_loop call max_len is buf s)"

definition nic_poll :: "(nat \<Rightarrow> nat \<Rightarrow> nat \<Rightarrow> nics \<times> 'd \<Rightarrow> int \<times> u8 list \<times> nics \<times> 'd) \<Rightarrow> u8 list option \<Rightarrow> nat \<Rightarrow> nics \<times> 'd \<Rightarrow>
    int \<times> u8 list \<times> nics \<times> 'd" where
  "nic_poll call buf max_len s =
     (case buf of None \<Rightarrow> (-1, [], s) | Some buf \<Rightarrow> poll_loop call max_len [0..<g_nic_count (fst s)] buf s)"

section \<open>\<^verbatim>\<open>net/ip.c\<close>, \<^verbatim>\<open>net/icmp.c\<close>, \<^verbatim>\<open>net/udp.c\<close>\<close>

record ip_state =
  ip_addr :: nat
  ip_netmask :: nat
  ip_gateway :: nat

definition ip4 :: "nat \<Rightarrow> nat \<Rightarrow> nat \<Rightarrow> nat \<Rightarrow> nat" where
  "ip4 a b c d = a + b * 2 ^ 8 + c * 2 ^ 16 + d * 2 ^ 24"

definition ip_init :: "ip_state \<Rightarrow> ip_state" where
  "ip_init st = st\<lparr>ip_addr := ip4 10 0 2 15, ip_gateway := ip4 10 0 2 2\<rparr>"

definition ip_checksum :: "u8 list \<Rightarrow> nat" where
  "ip_checksum bs = net_checksum_fold (checksum_sum bs 0)"

abbreviation "IP_HEADER_SIZE \<equiv> 20 :: nat"

datatype ip_log = NonIPv4 nat | IPv4 nat nat nat nat | GotICMP | GotTCP | GotUDP | UnknownProto nat

definition ip_receive :: "u8 list \<Rightarrow> ip_log list" where
  "ip_receive p =
     (if length p < IP_HEADER_SIZE then []
      else let version = unat (p ! 0) div 16 mod 16 in
        if version \<noteq> 4 then [NonIPv4 version]
        else let total_len = swap16 (field16 p 2); proto = unat (p ! 9) in
          [IPv4 (field32 p 12) (field32 p 16) proto total_len,
           if proto = 1 then GotICMP else if proto = 6 then GotTCP else if proto = 17 then GotUDP else UnknownProto proto])"

definition ip_send :: "nat \<Rightarrow> nat \<Rightarrow> u8 list \<Rightarrow> int" where
  "ip_send dst protocol bs = -1"

datatype icmp_log = Icmp nat nat nat | EchoRequest | EchoReply nat | DestUnreach nat | TimeExceeded nat | UnhandledType nat

definition icmp_receive :: "u8 list \<Rightarrow> nat \<Rightarrow> icmp_log list" where
  "icmp_receive p src_ip =
     (if length p < 8 then []
      else let t = unat (p ! 0); code = unat (p ! 1) in
        [Icmp t code src_ip,
         if t = 8 then EchoRequest else if t = 0 then EchoReply (swap16 (field16 p 6))
         else if t = 3 then DestUnreach code else if t = 11 then TimeExceeded code else UnhandledType t])"

definition udp_receive :: "u8 list \<Rightarrow> nat \<Rightarrow> (nat \<times> nat \<times> nat \<times> nat) option" where
  "udp_receive p src_ip =
     (if length p < 8 then None
      else Some (src_ip, swap16 (field16 p 0), swap16 (field16 p 2), swap16 (field16 p 4)))"

definition udp_send :: "nat \<Rightarrow> nat \<Rightarrow> nat \<Rightarrow> u8 list \<Rightarrow> int" where
  "udp_send dst_ip src_port dst_port bs = -1"

section \<open>\<^verbatim>\<open>net/ethernet.c\<close>\<close>

abbreviation "ETH_HDR_LEN \<equiv> 14 :: nat"
abbreviation "ETH_MAX_FRAME \<equiv> 1518 :: nat"

definition ethernet_get_mac :: "nics \<Rightarrow> u8 list" where
  "ethernet_get_mac st = (if g_nic_count st > 0 then take 6 (nic_mac (g_nics st ! 0)) else replicate 6 0)"

text \<open>The frame as the code writes it: both addresses and the type, high byte first, then the data.\<close>

definition eth_frame :: "u8 list \<Rightarrow> u8 list \<Rightarrow> nat \<Rightarrow> u8 list \<Rightarrow> u8 list" where
  "eth_frame dst src ty bs = take 6 dst @ src @ [of_nat (ty div 256 mod 256), of_nat (ty mod 256)] @ bs"

definition ethernet_send :: "(nat \<Rightarrow> nat \<Rightarrow> u8 list \<Rightarrow> nics \<times> 'd \<Rightarrow> int \<times> nics \<times> 'd) \<Rightarrow> u8 list \<Rightarrow> nat \<Rightarrow> u8 list \<Rightarrow> heap \<Rightarrow> nics \<times> 'd \<Rightarrow>
    (int \<times> heap \<times> nics \<times> 'd) res option" where
  "ethernet_send call dst ty bs h s =
     (if length bs > ETH_MAX_FRAME - ETH_HDR_LEN then Some (Inr (-1, h, s))
      else if g_nic_count (fst s) = 0 then Some (Inr (-1, h, s))
      else let frame_len = ETH_HDR_LEN + length bs in
        Option.bind (kmalloc frame_len h) (\<lambda>r. case r of
          Inl f \<Rightarrow> Some (Inl f)
        | Inr (p, h) \<Rightarrow>
            if p = 0 then Some (Inr (-1, h, s))
            else let frame = eth_frame dst (ethernet_get_mac (fst s)) ty bs;
                     h = h\<lparr>hmem := store (hmem h) p frame\<rparr>
                 in case nic_send_packet call (Some frame) s of (ok, s) \<Rightarrow>
                      Some (Inr (if ok then int frame_len else -1, kfree p h, s))))"

datatype eth_log = ArpPacket "u8 list" | IpPacket "ip_log list" | UnhandledEth nat

definition ethernet_receive :: "u8 list \<Rightarrow> arp_entry list \<Rightarrow> eth_log option \<times> arp_entry list" where
  "ethernet_receive p t =
     (if length p < ETH_HDR_LEN then (None, t)
      else let ty = swap16 (field16 p 12); payload = drop ETH_HDR_LEN p in
        if ty = 0x0806 then (Some (ArpPacket payload), arp_receive payload t)
        else if ty = 0x0800 then (Some (IpPacket (ip_receive payload)), t)
        else (Some (UnhandledEth ty), t))"

section \<open>\<^verbatim>\<open>net/socket.c\<close> and \<^verbatim>\<open>net/dhcp.c\<close>\<close>

abbreviation "SIZEOF_SOCKET \<equiv> 40 :: nat"

record socket =
  domain :: int
  stype :: int
  protocol :: int
  bound :: bool
  connected :: bool
  local_ip :: nat
  remote_ip :: nat
  local_port :: nat
  remote_port :: nat
  sock_private :: nat

text \<open>The sockets by the address of their block.\<close>

type_synonym sockets = "nat \<rightharpoonup> socket"

definition socket_create :: "int \<Rightarrow> int \<Rightarrow> int \<Rightarrow> heap \<times> sockets \<Rightarrow> (nat \<times> heap \<times> sockets) res option" where
  "socket_create dm ty proto s =
     (case s of (h, ss) \<Rightarrow>
        Option.bind (kzalloc SIZEOF_SOCKET h) (\<lambda>r. case r of
          Inl f \<Rightarrow> Some (Inl f)
        | Inr (p, h) \<Rightarrow>
            if p = 0 then Some (Inr (0, h, ss))
            else Some (Inr (p, h, ss(p \<mapsto> \<lparr>domain = dm, stype = ty, protocol = proto, bound = False, connected = False,
                   local_ip = 0, remote_ip = 0, local_port = 0, remote_port = 0, sock_private = 0\<rparr>)))))"

definition socket_bind :: "nat \<Rightarrow> nat \<Rightarrow> nat \<Rightarrow> sockets \<Rightarrow> int \<times> sockets" where
  "socket_bind p a port ss =
     (if p = 0 then (- EINVAL, ss)
      else (0, ss(p := map_option (\<lambda>s. s\<lparr>local_ip := a, local_port := port, bound := True\<rparr>) (ss p))))"

definition socket_connect :: "nat \<Rightarrow> nat \<Rightarrow> nat \<Rightarrow> sockets \<Rightarrow> int \<times> sockets" where
  "socket_connect p a port ss =
     (if p = 0 then (- EINVAL, ss)
      else (0, ss(p := map_option (\<lambda>s. s\<lparr>remote_ip := a, remote_port := port, connected := True\<rparr>) (ss p))))"

definition socket_send :: "nat \<Rightarrow> u8 list \<Rightarrow> int" where
  "socket_send p bs = - ENOSYS"

definition socket_recv :: "nat \<Rightarrow> nat \<Rightarrow> int" where
  "socket_recv p n = - ENOSYS"

definition socket_close :: "nat \<Rightarrow> heap \<times> sockets \<Rightarrow> heap \<times> sockets" where
  "socket_close p s = (if p = 0 then s else (kfree p (fst s), (snd s)(p := None)))"

record dhcp =
  dhcp_ip :: nat
  dhcp_gateway :: nat
  dhcp_dns :: nat
  dhcp_leased :: bool

definition dhcp_discover :: "dhcp \<Rightarrow> dhcp" where
  "dhcp_discover st = st\<lparr>dhcp_ip := ip4 10 0 2 15, dhcp_gateway := ip4 10 0 2 2, dhcp_dns := ip4 8 8 8 8, dhcp_leased := True\<rparr>"

section \<open>Checksums\<close>

fun sum16 :: "u8 list \<Rightarrow> nat" where
  "sum16 (a # b # bs) = unat a + 256 * unat b + sum16 bs"
| "sum16 [a] = unat a"
| "sum16 [] = 0"

lemma checksum_sum_eq: "s < 2 ^ 32 \<Longrightarrow> checksum_sum bs s = (s + sum16 bs) mod 2 ^ 32"
proof (induction bs s rule: checksum_sum.induct)
  case (1 a b bs s)
  have "checksum_sum (a # b # bs) s = ((s + (unat a + 256 * unat b)) mod 2 ^ 32 + sum16 bs) mod 2 ^ 32"
    using "1.IH" by (simp only: checksum_sum.simps) simp
  then show ?case by (simp only: mod_add_left_eq sum16.simps add.assoc)
qed auto

lemma unat_byte: "unat (a :: u8) \<le> 255"
  using unsigned_less[of a, where ?'a = nat] by simp

lemma sum16_bound: "sum16 bs \<le> 65535 * length bs"
proof (induction bs rule: sum16.induct)
  case (1 a b bs)
  then show ?case using unat_byte[of a] unat_byte[of b] by simp
next
  case (2 a)
  then show ?case using unat_byte[of a] by simp
qed simp

lemma pow16: "(2 :: nat) ^ 16 = 65536"
  by simp

text \<open>Folding the carries back keeps the sum modulo 65535, and only 0 folds to 0.\<close>

lemma fold_spec: "\<exists>f \<le> 65535. net_checksum_fold s = 65535 - f \<and> f mod 65535 = s mod 65535 \<and> (f = 0 \<longleftrightarrow> s = 0)"
proof (induction s rule: net_checksum_fold.induct)
  case (1 s)
  show ?case
  proof (cases "s div 2 ^ 16 = 0")
    case True
    then have "s < 65536" by simp
    then show ?thesis using True by (subst net_checksum_fold.simps) (intro exI[of _ s], simp)
  next
    case False
    let ?t = "s mod 2 ^ 16 + s div 2 ^ 16"
    have e: "net_checksum_fold s = net_checksum_fold ?t" using False by (subst net_checksum_fold.simps) simp
    have "s = 65535 * (s div 65536) + (s mod 65536 + s div 65536)" using div_mult_mod_eq[of s 65536] by simp
    then have m: "s mod 65535 = ?t mod 65535" by (metis mod_mult_self4 pow16)
    show ?thesis using "1.IH"[OF False] unfolding e m[symmetric] using False by auto
  qed
qed

definition put16 :: "nat \<Rightarrow> nat \<Rightarrow> u8 list \<Rightarrow> u8 list" where
  "put16 k c bs = bs[2 * k := of_nat (c mod 256), 2 * k + 1 := of_nat (c div 256)]"

lemma sum16_put:
  assumes "2 * k + 1 < length bs" "bs ! (2 * k) = 0" "bs ! (2 * k + 1) = 0" "c < 65536"
  shows "sum16 (put16 k c bs) = sum16 bs + c"
  using assms(1-3)
proof (induction bs arbitrary: k rule: sum16.induct)
  case (1 a b bs)
  show ?case
  proof (cases k)
    case 0
    have "unat (of_nat (c mod 256) :: u8) = c mod 256" "unat (of_nat (c div 256) :: u8) = c div 256"
      using assms(4) by (simp_all add: unat_of_nat)
    then show ?thesis using 0 1(3,4) by (simp add: put16_def)
  next
    case (Suc j)
    then show ?thesis using "1.IH"[of j] 1(2-4) by (simp add: put16_def)
  qed
qed auto

lemma ip_checksum_eq: "sum16 bs < 2 ^ 32 \<Longrightarrow> ip_checksum bs = net_checksum_fold (sum16 bs)"
  by (simp add: ip_checksum_def checksum_sum_eq)

text \<open>C16 (checksum_verifies): the receiver's check of RFC 1071: when the checksum of a packet with a zero checksum field is stored in that
  field, the checksum of the result is 0, for every even offset of the field and every packet below 64 KiB.\<close>

theorem checksum_verifies:
  assumes "length bs < 2 ^ 16" "2 * k + 1 < length bs" "bs ! (2 * k) = 0" "bs ! (2 * k + 1) = 0"
  shows "ip_checksum (put16 k (ip_checksum bs) bs) = 0"
proof -
  let ?c = "ip_checksum bs" and ?s = "sum16 bs"
  have b: "?s < 2 ^ 32 - 65536" using sum16_bound[of bs] assms(1) by simp
  have c: "?c = net_checksum_fold ?s" using b by (intro ip_checksum_eq) simp
  obtain f where f: "f \<le> 65535" "?c = 65535 - f" "f mod 65535 = ?s mod 65535" "f = 0 \<longleftrightarrow> ?s = 0"
    using fold_spec[of ?s] c by auto
  let ?t = "?s + ?c"
  have t: "sum16 (put16 k ?c bs) = ?t" using sum16_put[OF assms(2-4), of ?c] f(2) by simp
  have "?t < 2 ^ 32" using b f(2) by simp
  then have c2: "ip_checksum (put16 k ?c bs) = net_checksum_fold ?t" using t ip_checksum_eq[of "put16 k ?c bs"] by simp
  obtain g where g: "g \<le> 65535" "net_checksum_fold ?t = 65535 - g" "g mod 65535 = ?t mod 65535" "g = 0 \<longleftrightarrow> ?t = 0"
    using fold_spec[of ?t] by auto
  have "?t mod 65535 = (f + (65535 - f)) mod 65535" using f(2,3) by (metis mod_add_left_eq)
  then have "g mod 65535 = 0" using f(1) g(3) by simp
  moreover have "g \<noteq> 0" using g(4) f(2,4) by auto
  ultimately have "g = 65535" using g(1) by (metis le_neq_implies_less mod_less)
  then show ?thesis using c2 g(2) by simp
qed

theorem checksum_verifies_witness:
  "ip_checksum (put16 5 (ip_checksum (bytes ''E0001234@T'' @ [0, 0] @ bytes ''abcdefgh'')) (bytes ''E0001234@T'' @ [0, 0] @ bytes ''abcdefgh'')) = 0"
  by (rule checksum_verifies) (simp_all add: bytes_def)

lemma ip_checksum_net: "ip_checksum bs = net_checksum_add bs 0"
  by (simp add: ip_checksum_def net_checksum_add_def)

text \<open>
  The checksum over the pseudo header as the protocols define it: the addresses, a zero byte and the protocol, and
  the length with its high byte first. The routine adds the protocol and the length as numbers instead.
\<close>

definition pseudo_header :: "u8 \<Rightarrow> nat \<Rightarrow> u8 list \<Rightarrow> u8 list \<Rightarrow> u8 list" where
  "pseudo_header proto n src dst = src @ dst @ [0, proto, of_nat (n div 256), of_nat (n mod 256)]"

lemma tcp_checksum_differs:
  "net_tcp_checksum [] 0 0 = 65529" "net_checksum_add (pseudo_header 6 0 [0, 0, 0, 0] [0, 0, 0, 0] @ []) 0 = 63999"
  by (simp_all add: net_tcp_checksum_def net_checksum_add_def pseudo_sum_def pseudo_header_def net_checksum_fold.simps)

section \<open>The ARP table as a map\<close>

definition arp_ok :: "arp_entry list \<Rightarrow> bool" where
  "arp_ok t \<longleftrightarrow> length t = ARP_TABLE_SIZE \<and>
     (\<forall>i < ARP_TABLE_SIZE. \<forall>j < ARP_TABLE_SIZE. avalid (t ! i) \<longrightarrow> avalid (t ! j) \<longrightarrow> ip (t ! i) = ip (t ! j) \<longrightarrow> i = j)"

lemma arp_index_Some:
  assumes "arp_ok t"
  shows "arp_index a t = Some i \<longleftrightarrow> i < ARP_TABLE_SIZE \<and> avalid (t ! i) \<and> ip (t ! i) = a"
proof
  assume "arp_index a t = Some i"
  then show "i < ARP_TABLE_SIZE \<and> avalid (t ! i) \<and> ip (t ! i) = a"
    by (auto simp: arp_index_def find_Some_iff simp del: upt_rec_numeral)
next
  assume i: "i < ARP_TABLE_SIZE \<and> avalid (t ! i) \<and> ip (t ! i) = a"
  have "\<not> (avalid (t ! j) \<and> ip (t ! j) = a)" if "j < i" for j
  proof
    assume "avalid (t ! j) \<and> ip (t ! j) = a"
    moreover have "j < ARP_TABLE_SIZE" using i that by linarith
    ultimately have "j = i" using assms i unfolding arp_ok_def by blast
    then show False using that by simp
  qed
  then show "arp_index a t = Some i" using i
    by (auto simp: arp_index_def find_Some_iff simp del: upt_rec_numeral intro!: exI[of _ i])
qed

lemma arp_index_None: "arp_index a t = None \<longleftrightarrow> (\<forall>i < ARP_TABLE_SIZE. \<not> (avalid (t ! i) \<and> ip (t ! i) = a))"
  by (auto simp: arp_index_def find_None_iff simp del: upt_rec_numeral)

lemma arp_free_None: "arp_free t = None \<longleftrightarrow> (\<forall>i < ARP_TABLE_SIZE. avalid (t ! i))"
  by (auto simp: arp_free_def find_None_iff simp del: upt_rec_numeral)

lemma arp_free_Some: "arp_free t = Some i \<Longrightarrow> i < ARP_TABLE_SIZE \<and> \<not> avalid (t ! i)"
  by (auto simp: arp_free_def find_Some_iff simp del: upt_rec_numeral)

lemma lookup_iff:
  assumes "arp_ok t"
  shows "arp_table_lookup a t = Some m \<longleftrightarrow> (\<exists>i < ARP_TABLE_SIZE. avalid (t ! i) \<and> ip (t ! i) = a \<and> mac (t ! i) = m)"
  using arp_index_Some[OF assms, of a] by (fastforce simp: arp_table_lookup_def)

lemma lookup_fun_eq:
  assumes "arp_ok t" "\<And>a m. (\<exists>i < ARP_TABLE_SIZE. avalid (t ! i) \<and> ip (t ! i) = a \<and> mac (t ! i) = m) \<longleftrightarrow> f a = Some m"
  shows "(\<lambda>a. arp_table_lookup a t) = f"
proof
  fix a
  have "\<And>m. arp_table_lookup a t = Some m \<longleftrightarrow> f a = Some m" using lookup_iff[OF assms(1)] assms(2) by blast
  then show "arp_table_lookup a t = f a" by (metis not_None_eq)
qed

lemma arp_add_map:
  assumes "arp_ok t" "arp_table_add a m t = (True, t')"
  shows "arp_ok t' \<and> (\<lambda>x. arp_table_lookup x t') = (\<lambda>x. arp_table_lookup x t)(a \<mapsto> take 6 m)"
proof -
  have l: "length t = ARP_TABLE_SIZE" using assms(1) by (simp add: arp_ok_def)
  obtain i where i: "i < ARP_TABLE_SIZE" "t' = t[i := (t ! i)\<lparr>ip := a, mac := take 6 m, avalid := True\<rparr>]"
    "\<And>j. j < ARP_TABLE_SIZE \<Longrightarrow> j \<noteq> i \<Longrightarrow> \<not> (avalid (t ! j) \<and> ip (t ! j) = a)" "avalid (t ! i) \<Longrightarrow> ip (t ! i) = a"
  proof (cases "arp_index a t")
    case None
    then obtain i where f: "arp_free t = Some i" "t' = t[i := (t ! i)\<lparr>ip := a, mac := take 6 m, avalid := True\<rparr>]"
      using assms(2) by (auto simp: arp_table_add_def split: option.splits)
    then show ?thesis using that[of i] arp_free_Some[OF f(1)] None by (auto simp: arp_index_None)
  next
    case (Some i)
    then have v: "i < ARP_TABLE_SIZE" "avalid (t ! i)" "ip (t ! i) = a" using arp_index_Some[OF assms(1)] by auto
    then have "(t ! i)\<lparr>mac := take 6 m\<rparr> = (t ! i)\<lparr>ip := a, mac := take 6 m, avalid := True\<rparr>" by (cases "t ! i") simp
    then have t': "t' = t[i := (t ! i)\<lparr>ip := a, mac := take 6 m, avalid := True\<rparr>]" using assms(2) Some by (simp add: arp_table_add_def)
    show ?thesis
      by (rule that[OF v(1) t']) (use v assms(1) in \<open>auto simp: arp_ok_def\<close>)
  qed
  have n: "t' ! j = (if j = i then (t ! i)\<lparr>ip := a, mac := take 6 m, avalid := True\<rparr> else t ! j)" if "j < ARP_TABLE_SIZE" for j
    using i(1,2) l that by (simp add: nth_list_update)
  have ok: "arp_ok t'" unfolding arp_ok_def
  proof (intro conjI allI impI)
    show "length t' = ARP_TABLE_SIZE" using i(2) l by simp
    fix j k
    assume "j < ARP_TABLE_SIZE" "k < ARP_TABLE_SIZE" "avalid (t' ! j)" "avalid (t' ! k)" "ip (t' ! j) = ip (t' ! k)"
    then show "j = k" using n[of j] n[of k] i(3)[of j] i(3)[of k] assms(1) by (auto simp: arp_ok_def split: if_splits)
  qed
  have "(\<lambda>x. arp_table_lookup x t') = (\<lambda>x. arp_table_lookup x t)(a \<mapsto> take 6 m)"
  proof (rule lookup_fun_eq[OF ok])
    fix x y
    have 1: "(\<exists>k<ARP_TABLE_SIZE. avalid (t' ! k) \<and> ip (t' ! k) = x \<and> mac (t' ! k) = y) \<longleftrightarrow>
        (x = a \<and> y = take 6 m) \<or> (\<exists>k<ARP_TABLE_SIZE. k \<noteq> i \<and> avalid (t ! k) \<and> ip (t ! k) = x \<and> mac (t ! k) = y)" (is "?L \<longleftrightarrow> ?R")
    proof
      assume ?L
      then show ?R using n by (auto split: if_splits)
    next
      assume ?R
      then show ?L using n i(1) by (elim disjE exE conjE) (force, metis)
    qed
    have 2: "x \<noteq> a \<Longrightarrow> (\<exists>k<ARP_TABLE_SIZE. k \<noteq> i \<and> avalid (t ! k) \<and> ip (t ! k) = x \<and> mac (t ! k) = y) \<longleftrightarrow> arp_table_lookup x t = Some y"
      using lookup_iff[OF assms(1)] i(4) by metis
    have 3: "x = a \<Longrightarrow> \<not> (\<exists>k<ARP_TABLE_SIZE. k \<noteq> i \<and> avalid (t ! k) \<and> ip (t ! k) = x \<and> mac (t ! k) = y)" using i(3) by blast
    show "(\<exists>k<ARP_TABLE_SIZE. avalid (t' ! k) \<and> ip (t' ! k) = x \<and> mac (t' ! k) = y) \<longleftrightarrow> ((\<lambda>x. arp_table_lookup x t)(a \<mapsto> take 6 m)) x = Some y"
      unfolding 1 using 2 3 by (cases "x = a") auto
  qed
  then show ?thesis using ok by blast
qed

lemma arp_remove_map:
  assumes "arp_ok t"
  shows "arp_ok (arp_table_remove a t) \<and> (\<lambda>x. arp_table_lookup x (arp_table_remove a t)) = (\<lambda>x. arp_table_lookup x t)(a := None)"
proof (cases "arp_index a t")
  case None
  then have "(\<lambda>x. arp_table_lookup x t)(a := None) = (\<lambda>x. arp_table_lookup x t)" by (auto simp: arp_table_lookup_def)
  then show ?thesis using None assms by (simp add: arp_table_remove_def)
next
  case (Some i)
  let ?t = "arp_table_remove a t"
  have v: "i < ARP_TABLE_SIZE" "avalid (t ! i)" "ip (t ! i) = a" using Some arp_index_Some[OF assms] by auto
  have l: "length t = ARP_TABLE_SIZE" using assms by (simp add: arp_ok_def)
  have n: "?t ! j = (if j = i then (t ! i)\<lparr>avalid := False\<rparr> else t ! j)" if "j < ARP_TABLE_SIZE" for j
    using Some l that by (simp add: arp_table_remove_def nth_list_update)
  have u: "j = i" if "j < ARP_TABLE_SIZE" "avalid (t ! j)" "ip (t ! j) = a" for j using assms v that unfolding arp_ok_def by blast
  have ok: "arp_ok ?t" unfolding arp_ok_def
  proof (intro conjI allI impI)
    show "length ?t = ARP_TABLE_SIZE" using Some l by (simp add: arp_table_remove_def)
    fix j k
    assume a: "j < ARP_TABLE_SIZE" "k < ARP_TABLE_SIZE" "avalid (?t ! j)" "avalid (?t ! k)" "ip (?t ! j) = ip (?t ! k)"
    have "?t ! j = t ! j" "?t ! k = t ! k" using a(3,4) n[OF a(1)] n[OF a(2)] by (simp_all split: if_splits)
    then show "j = k" using a assms unfolding arp_ok_def by metis
  qed
  have "(\<lambda>x. arp_table_lookup x ?t) = (\<lambda>x. arp_table_lookup x t)(a := None)"
  proof (rule lookup_fun_eq[OF ok])
    fix x y
    have "(\<exists>k<ARP_TABLE_SIZE. avalid (?t ! k) \<and> ip (?t ! k) = x \<and> mac (?t ! k) = y) \<longleftrightarrow>
        x \<noteq> a \<and> (\<exists>k<ARP_TABLE_SIZE. avalid (t ! k) \<and> ip (t ! k) = x \<and> mac (t ! k) = y)" (is "?L \<longleftrightarrow> ?R")
    proof
      assume ?L
      then obtain k where k: "k < ARP_TABLE_SIZE" "avalid (?t ! k)" "ip (?t ! k) = x" "mac (?t ! k) = y" by blast
      have e: "?t ! k = t ! k" "k \<noteq> i" using k(2) n[OF k(1)] by (simp_all split: if_splits)
      then have "x \<noteq> a" using u[OF k(1)] k by metis
      then show ?R using k unfolding e(1) by blast
    next
      assume ?R
      then obtain k where k: "x \<noteq> a" "k < ARP_TABLE_SIZE" "avalid (t ! k)" "ip (t ! k) = x" "mac (t ! k) = y" by blast
      then have "?t ! k = t ! k" using n[OF k(2)] v(3) by (simp split: if_splits)
      then show ?L using k by (intro exI[of _ k]) simp
    qed
    then show "(\<exists>k<ARP_TABLE_SIZE. avalid (?t ! k) \<and> ip (?t ! k) = x \<and> mac (?t ! k) = y) \<longleftrightarrow> ((\<lambda>x. arp_table_lookup x t)(a := None)) x = Some y"
      using lookup_iff[OF assms, of x y] by auto
  qed
  then show ?thesis using ok by blast
qed

text \<open>
  \<^verbatim>\<open>arp_receive\<close> fills the first free slot and never updates an entry: once an address is known and the slots before
  its own are taken, no packet changes what is looked up for it.
\<close>

lemma arp_receive_stale:
  assumes "arp_index a t = Some i" "\<forall>j < i. avalid (t ! j)" "length t = ARP_TABLE_SIZE"
  shows "arp_lookup a (arp_receive p t) = arp_lookup a t"
proof -
  have v: "i < ARP_TABLE_SIZE" "avalid (t ! i)" "ip (t ! i) = a" "\<forall>j < i. \<not> (avalid (t ! j) \<and> ip (t ! j) = a)"
    using assms(1) by (auto simp: arp_index_def find_Some_iff simp del: upt_rec_numeral)
  have k: "arp_lookup a t' = arp_lookup a t" if "\<forall>j \<le> i. t' ! j = t ! j" for t'
  proof -
    have "arp_index a t' = Some i"
      using v that by (auto simp: arp_index_def find_Some_iff simp del: upt_rec_numeral intro!: exI[of _ i])
    then show ?thesis using assms(1) that by (simp add: arp_lookup_def)
  qed
  have u: "\<forall>j \<le> i. t[f := e] ! j = t ! j" if "arp_free t = Some f" for f e
  proof -
    have "\<not> f \<le> i" using arp_free_Some[OF that] assms(2) v(2) by (metis le_neq_implies_less)
    then show ?thesis by auto
  qed
  show ?thesis
  proof (cases "arp_free t")
    case None
    then show ?thesis by (simp add: arp_receive_def)
  next
    case (Some f)
    then show ?thesis using k[OF u[OF Some]] by (simp add: arp_receive_def)
  qed
qed

datatype aop = ArpAdd nat "u8 list" | ArpRemove nat

fun run_aop :: "aop \<Rightarrow> arp_entry list \<Rightarrow> arp_entry list" where
  "run_aop (ArpAdd a m) t = snd (arp_table_add a m t)"
| "run_aop (ArpRemove a) t = arp_table_remove a t"

text \<open>An address that is new when all slots are taken is refused.\<close>

fun spec_aop :: "bool \<Rightarrow> aop \<Rightarrow> (nat \<rightharpoonup> u8 list) \<Rightarrow> (nat \<rightharpoonup> u8 list)" where
  "spec_aop full (ArpAdd a m) f = (if full \<and> f a = None then f else f(a \<mapsto> take 6 m))"
| "spec_aop full (ArpRemove a) f = f(a := None)"

text \<open>C25 (arp_table_is_map): the ARP table implements a finite map from addresses to hardware addresses: adding binds or rebinds
  an address unless it is new and all 16 slots are taken, removing unbinds it, no other address is affected, and no
  address ever has two entries.\<close>

theorem arp_table_is_map:
  assumes "arp_ok t"
  shows "arp_ok (run_aop x t) \<and>
    (\<lambda>a. arp_table_lookup a (run_aop x t)) = spec_aop (\<forall>i < ARP_TABLE_SIZE. avalid (t ! i)) x (\<lambda>a. arp_table_lookup a t)"
proof (cases x)
  case (ArpAdd a m)
  show ?thesis
  proof (cases "arp_free t = None \<and> arp_index a t = None")
    case True
    then show ?thesis using ArpAdd assms by (simp add: arp_table_add_def arp_table_lookup_def flip: arp_free_None)
  next
    case False
    then have "fst (arp_table_add a m t)" by (auto simp: arp_table_add_def split: option.split)
    then obtain t' where t': "arp_table_add a m t = (True, t')" by (cases "arp_table_add a m t") auto
    have "\<not> (arp_free t = None \<and> arp_table_lookup a t = None)" using False by (simp add: arp_table_lookup_def)
    then show ?thesis using ArpAdd t' arp_add_map[OF assms t'] by (auto simp flip: arp_free_None)
  qed
next
  case (ArpRemove a)
  then show ?thesis using arp_remove_map[OF assms] by simp
qed

definition arp_empty :: "arp_entry list" where
  "arp_empty = replicate 16 \<lparr>ip = 0, mac = [], avalid = False, timestamp = 0\<rparr>"

lemma arp_empty_ok: "arp_ok arp_empty" "arp_free arp_empty = Some 0"
proof -
  have "[0..<ARP_TABLE_SIZE] = 0 # [1..<ARP_TABLE_SIZE]" by (simp add: upt_conv_Cons del: upt_rec_numeral)
  then show "arp_free arp_empty = Some 0" by (simp add: arp_free_def arp_empty_def del: upt_rec_numeral)
qed (simp add: arp_ok_def arp_empty_def)

theorem arp_table_is_map_witness:
  "arp_table_lookup 5 (run_aop (ArpAdd 5 [1, 2, 3, 4, 5, 6]) arp_empty) = Some [1, 2, 3, 4, 5, 6]"
proof -
  have "(\<lambda>a. arp_table_lookup a (run_aop (ArpAdd 5 [1, 2, 3, 4, 5, 6]) arp_empty)) =
      spec_aop (\<forall>i < ARP_TABLE_SIZE. avalid (arp_empty ! i)) (ArpAdd 5 [1, 2, 3, 4, 5, 6]) (\<lambda>a. arp_table_lookup a arp_empty)"
    using arp_table_is_map[OF arp_empty_ok(1)] by blast
  from fun_cong[OF this, of 5] show ?thesis using arp_empty_ok(2) by (simp flip: arp_free_None)
qed

section \<open>Routing\<close>

lemma bits_nat:
  "{i. bit (2 * q) i} = Suc ` {i. bit q i}" "{i. bit (Suc (2 * q)) i} = insert 0 (Suc ` {i. bit q i})" for q :: nat
proof -
  have "bit (2 * q) i \<longleftrightarrow> i \<in> Suc ` {i. bit q i}" for i by (cases i) (auto simp: bit_Suc bit_0)
  then show "{i. bit (2 * q) i} = Suc ` {i. bit q i}" by blast
  have "bit (Suc (2 * q)) i \<longleftrightarrow> i \<in> insert 0 (Suc ` {i. bit q i})" for i by (cases i) (auto simp: bit_Suc bit_0)
  then show "{i. bit (Suc (2 * q)) i} = insert 0 (Suc ` {i. bit q i})" by blast
qed

lemma finite_bits_nat: "finite {i. bit (n::nat) i}"
proof (rule finite_subset)
  show "{i. bit n i} \<subseteq> {..<n}"
  proof
    fix i assume "i \<in> {i. bit n i}"
    then have "0 < n div 2 ^ i" by (auto simp: bit_iff_odd intro: Nat.gr0I)
    then have "2 ^ i \<le> n" by (simp add: div_greater_zero_iff)
    then show "i \<in> {..<n}" using less_exp[of i] by (simp only: lessThan_iff)
  qed
qed simp

lemma clear_lowest_nat:
  "0 < n \<Longrightarrow> card {i. bit n i} = Suc (card {i. bit (n AND (n - 1)) i})" for n :: nat
proof (induction n rule: less_induct)
  case (less n)
  show ?case
  proof (cases "even n")
    case True
    then obtain q where q: "n = 2 * q" by (elim evenE)
    then have "0 < q" "q < n" using less.prems by auto
    have "(2 * q) AND (2 * q - 1) = 2 * (q AND (q - 1))"
    proof (rule bit_eqI)
      fix i
      have "2 * q - 1 = Suc (2 * (q - 1))" using \<open>0 < q\<close> by simp
      then show "bit ((2 * q) AND (2 * q - 1)) i = bit (2 * (q AND (q - 1))) i"
        using bits_nat[of q] bits_nat[of "q - 1"] bits_nat[of "q AND (q - 1)"] unfolding bit_and_iff set_eq_iff by auto
    qed
    then show ?thesis using less.IH[OF \<open>q < n\<close> \<open>0 < q\<close>]
      by (simp add: q bits_nat card_image)
  next
    case False
    then obtain q where q: "n = Suc (2 * q)" by (metis oddE Suc_eq_plus1)
    have "Suc (2 * q) AND (2 * q) = 2 * q"
      by (rule bit_eqI) (metis bit_and_iff bits_nat insertCI mem_Collect_eq)
    then show ?thesis by (simp add: q bits_nat card_image finite_bits_nat card_insert_disjoint)
  qed
qed

text \<open>The prefix length of a mask: how many of its bits are set.\<close>

definition prefix_len :: "u32 \<Rightarrow> nat" where
  "prefix_len m = card {n. n < 32 \<and> bit m n}"

lemma prefix_len_unat: "prefix_len m = card {n. bit (unat m) n}"
proof -
  have "(n < 32 \<and> bit m n) = bit (unat m) n" for n by (auto simp: bit_simps dest: bit_imp_le_length)
  then show ?thesis by (simp add: prefix_len_def)
qed

lemma mask_bits_prefix_len: "mask_bits m = prefix_len m"
proof (induction m rule: mask_bits.induct)
  case (1 m)
  show ?case
  proof (cases "m = 0")
    case False
    then have "0 < unat m" by (simp add: unat_gt_0)
    have "unat (m AND (m - 1)) = (unat m AND (unat m - 1))"
      using False by (simp add: unsigned_and_eq unat_minus_one)
    then show ?thesis using 1 False clear_lowest_nat[OF \<open>0 < unat m\<close>]
      by (subst mask_bits.simps) (simp add: prefix_len_unat)
  qed (simp add: mask_bits.simps prefix_len_def)
qed

text \<open>The mask of an \<open>n\<close> bit prefix has length \<open>n\<close>.\<close>

lemma prefix_len_mask: "n \<le> 32 \<Longrightarrow> prefix_len (NOT (mask (32 - n))) = n"
proof -
  assume n: "n \<le> 32"
  have "{k. k < 32 \<and> bit (NOT (mask (32 - n)) :: u32) k} = {32 - n..<32}" by (auto simp: bit_simps)
  then show ?thesis using n by (simp add: prefix_len_def)
qed

definition route_match :: "u32 \<Rightarrow> route_entry \<Rightarrow> bool" where
  "route_match a r \<longleftrightarrow> rvalid r \<and> a AND netmask r = dest r"

lemma lookup_loop_best:
  assumes "lookup_loop a t is (b, m) = (b', m')" "-1 \<le> m" "b = None \<longleftrightarrow> m = -1"
    "\<And>i. b = Some i \<Longrightarrow> m = int (mask_bits (netmask (t ! i)))"
  shows "m \<le> m' \<and> (b' = None \<longleftrightarrow> m' = -1) \<and> (\<forall>i. b' = Some i \<longrightarrow> m' = int (mask_bits (netmask (t ! i)))) \<and>
    (\<forall>j\<in>set is. route_match a (t ! j) \<longrightarrow> int (mask_bits (netmask (t ! j))) \<le> m') \<and>
    (b' = b \<or> (\<exists>i\<in>set is. b' = Some i \<and> route_match a (t ! i)))"
  using assms
proof (induction "is" arbitrary: b m)
  case (Cons i js)
  let ?n = "int (mask_bits (netmask (t ! i)))"
  show ?case
  proof (cases "route_match a (t ! i) \<and> ?n > m")
    case True
    then have "lookup_loop a t js (Some i, ?n) = (b', m')" using Cons.prems(1) by (simp add: route_match_def)
    moreover have "-1 \<le> ?n" "Some i = None \<longleftrightarrow> ?n = -1" by simp_all
    moreover have "?n = int (mask_bits (netmask (t ! k)))" if "Some i = Some k" for k using that by blast
    ultimately have I: "?n \<le> m' \<and> (b' = None \<longleftrightarrow> m' = -1) \<and> (\<forall>i. b' = Some i \<longrightarrow> m' = int (mask_bits (netmask (t ! i)))) \<and>
      (\<forall>j\<in>set js. route_match a (t ! j) \<longrightarrow> int (mask_bits (netmask (t ! j))) \<le> m') \<and>
      (b' = Some i \<or> (\<exists>k\<in>set js. b' = Some k \<and> route_match a (t ! k)))" by (rule Cons.IH)
    have H: "?n \<le> m'" "b' = None \<longleftrightarrow> m' = -1" "\<forall>i. b' = Some i \<longrightarrow> m' = int (mask_bits (netmask (t ! i)))"
      "\<forall>j\<in>set js. route_match a (t ! j) \<longrightarrow> int (mask_bits (netmask (t ! j))) \<le> m'"
      "b' = Some i \<or> (\<exists>k\<in>set js. b' = Some k \<and> route_match a (t ! k))"
      using I by blast+
    have "m \<le> m'" using H(1) True by linarith
    moreover have "\<forall>j\<in>set (i # js). route_match a (t ! j) \<longrightarrow> int (mask_bits (netmask (t ! j))) \<le> m'" using H(1,4) by simp
    moreover have "\<exists>k\<in>set (i # js). b' = Some k \<and> route_match a (t ! k)" using H(5) True by (metis list.set_intros)
    ultimately show ?thesis using H(2,3) by blast
  next
    case False
    then have "lookup_loop a t js (b, m) = (b', m')" using Cons.prems(1) by (auto simp: route_match_def split: if_splits)
    from Cons.IH[OF this Cons.prems(2-4)]
    have H: "m \<le> m'" "b' = None \<longleftrightarrow> m' = -1" "\<forall>i. b' = Some i \<longrightarrow> m' = int (mask_bits (netmask (t ! i)))"
      "\<forall>j\<in>set js. route_match a (t ! j) \<longrightarrow> int (mask_bits (netmask (t ! j))) \<le> m'"
      "b' = b \<or> (\<exists>k\<in>set js. b' = Some k \<and> route_match a (t ! k))"
      by blast+
    have "\<forall>j\<in>set (i # js). route_match a (t ! j) \<longrightarrow> int (mask_bits (netmask (t ! j))) \<le> m'" using H(1,4) False by force
    moreover have "b' = b \<or> (\<exists>k\<in>set (i # js). b' = Some k \<and> route_match a (t ! k))" using H(5) by (metis list.set_intros(2))
    ultimately show ?thesis using H(1-3) by blast
  qed
qed auto

text \<open>C24 (routing_lookup_best): the lookup is the longest-prefix match: it finds a route exactly if a valid entry matches the address, and
  the entry it returns matches and its mask has at least as many bits set as that of every other match.\<close>

theorem routing_lookup_best:
  "case routing_lookup a t of
     None \<Rightarrow> (\<forall>j < ROUTE_TABLE_SIZE. \<not> route_match a (t ! j))
   | Some i \<Rightarrow> i < ROUTE_TABLE_SIZE \<and> route_match a (t ! i) \<and>
       (\<forall>j < ROUTE_TABLE_SIZE. route_match a (t ! j) \<longrightarrow> prefix_len (netmask (t ! j)) \<le> prefix_len (netmask (t ! i)))"
proof -
  obtain b m where l: "lookup_loop a t [0..<ROUTE_TABLE_SIZE] (None, -1) = (b, m)"
    by (cases "lookup_loop a t [0..<ROUTE_TABLE_SIZE] (None, -1)")
  have r: "routing_lookup a t = b" using l by (simp add: routing_lookup_def del: upt_rec_numeral)
  have A: "b = None \<longleftrightarrow> m = -1" "\<forall>i. b = Some i \<longrightarrow> m = int (mask_bits (netmask (t ! i)))"
    "\<forall>j < ROUTE_TABLE_SIZE. route_match a (t ! j) \<longrightarrow> int (mask_bits (netmask (t ! j))) \<le> m"
    "b = None \<or> (\<exists>i < ROUTE_TABLE_SIZE. b = Some i \<and> route_match a (t ! i))"
    using lookup_loop_best[OF l] by (auto simp del: upt_rec_numeral)
  show ?thesis
  proof (cases b)
    case None
    then have "m = -1" using A(1) by simp
    then have "\<not> route_match a (t ! j)" if "j < ROUTE_TABLE_SIZE" for j
      using A(3)[rule_format, OF that] by linarith
    then show ?thesis using r None by simp
  next
    case (Some i)
    then show ?thesis using r A(2-4) by (auto simp flip: mask_bits_prefix_len)
  qed
qed

theorem routing_lookup_best_witness:
  "let t = snd (routing_add 0x0A010000 0xFFFF0000 1 0 (snd (routing_add 0x0A000000 0xFF000000 2 0
       (replicate 16 \<lparr>dest = 0, netmask = 0, gateway = 0, iface_ip = 0, metric = 0, rvalid = False\<rparr>))))
   in routing_lookup 0x0A010203 t = Some 1 \<and> prefix_len (netmask (t ! 0)) \<le> prefix_len (netmask (t ! 1))"
proof -
  define t where "t = snd (routing_add 0x0A010000 0xFFFF0000 1 0 (snd (routing_add 0x0A000000 0xFF000000 2 0
       (replicate 16 \<lparr>dest = 0, netmask = 0, gateway = 0, iface_ip = 0, metric = 0, rvalid = False\<rparr>))))"
  have l: "routing_lookup 0x0A010203 t = Some 1" unfolding t_def by code_simp
  have m: "route_match 0x0A010203 (t ! 0)" unfolding t_def route_match_def by code_simp
  show ?thesis using routing_lookup_best[of "0x0A010203" t] l m unfolding t_def[symmetric] Let_def by simp
qed

section \<open>Frames\<close>

lemma byte_pair: "ty < 65536 \<Longrightarrow> swap16 (unat (of_nat (ty div 256 mod 256) :: u8) + 256 * unat (of_nat (ty mod 256) :: u8)) = ty"
  by (simp add: swap16_def unat_of_nat)

lemma frame_parts:
  assumes "length dst = 6" "length src = 6" "ty < 65536"
  shows "length (eth_frame dst src ty bs) = ETH_HDR_LEN + length bs" "swap16 (field16 (eth_frame dst src ty bs) 12) = ty"
    "drop ETH_HDR_LEN (eth_frame dst src ty bs) = bs"
proof -
  show "length (eth_frame dst src ty bs) = ETH_HDR_LEN + length bs" "drop ETH_HDR_LEN (eth_frame dst src ty bs) = bs"
    using assms(1,2) by (simp_all add: eth_frame_def)
  show "swap16 (field16 (eth_frame dst src ty bs) 12) = ty"
    using assms byte_pair[OF assms(3)] by (simp add: eth_frame_def field16_def nth_append)
qed

text \<open>A frame built for sending is dispatched by its type to the handler, with the data it was built from.\<close>

lemma frame_roundtrip:
  assumes "length dst = 6" "length src = 6"
  shows "ethernet_receive (eth_frame dst src 0x0806 bs) t = (Some (ArpPacket bs), arp_receive bs t)"
    "ethernet_receive (eth_frame dst src 0x0800 bs) t = (Some (IpPacket (ip_receive bs)), t)"
  using frame_parts[OF assms, of _ bs] by (simp_all add: ethernet_receive_def)

end
