(* ===== verification/Gos_Screen.thy ===== *)
theory Gos_Screen
  imports Gos_Vmm Gos_Heap
begin

text \<open>
  The linear framebuffer (\<^verbatim>\<open>drivers/framebuffer/framebuffer.c\<close>): mapping, pixels, rectangles, characters and strings, as writes to
  memory. Coordinates and the products of coordinates are 32 bit numbers.
\<close>

record framebuffer =
  fb_addr :: nat
  fb_width :: nat
  fb_height :: nat
  fb_pitch :: nat
  fb_bpp :: nat
  fb_type :: nat
  red_pos :: nat
  red_size :: nat
  green_pos :: nat
  green_size :: nat
  blue_pos :: nat
  blue_size :: nat

definition g_font8x8 :: "u8 list list" where
  "g_font8x8 = [
    [0x00, 0x00, 0x00, 0x00, 0x00, 0x00, 0x00, 0x00],
    [0x18, 0x3C, 0x3C, 0x18, 0x18, 0x00, 0x18, 0x00],
    [0x36, 0x36, 0x00, 0x00, 0x00, 0x00, 0x00, 0x00],
    [0x36, 0x36, 0x7F, 0x36, 0x7F, 0x36, 0x36, 0x00],
    [0x0C, 0x3E, 0x03, 0x1E, 0x30, 0x1F, 0x0C, 0x00],
    [0x00, 0x63, 0x33, 0x18, 0x0C, 0x66, 0x63, 0x00],
    [0x1C, 0x36, 0x1C, 0x6E, 0x3B, 0x33, 0x6E, 0x00],
    [0x06, 0x06, 0x03, 0x00, 0x00, 0x00, 0x00, 0x00],
    [0x18, 0x0C, 0x06, 0x06, 0x06, 0x0C, 0x18, 0x00],
    [0x06, 0x0C, 0x18, 0x18, 0x18, 0x0C, 0x06, 0x00],
    [0x00, 0x66, 0x3C, 0xFF, 0x3C, 0x66, 0x00, 0x00],
    [0x00, 0x0C, 0x0C, 0x3F, 0x0C, 0x0C, 0x00, 0x00],
    [0x00, 0x00, 0x00, 0x00, 0x00, 0x0C, 0x0C, 0x06],
    [0x00, 0x00, 0x00, 0x3F, 0x00, 0x00, 0x00, 0x00],
    [0x00, 0x00, 0x00, 0x00, 0x00, 0x0C, 0x0C, 0x00],
    [0x60, 0x30, 0x18, 0x0C, 0x06, 0x03, 0x01, 0x00],
    [0x3E, 0x63, 0x73, 0x7B, 0x6F, 0x67, 0x3E, 0x00],
    [0x0C, 0x0E, 0x0C, 0x0C, 0x0C, 0x0C, 0x3F, 0x00],
    [0x1E, 0x33, 0x30, 0x1C, 0x06, 0x33, 0x7F, 0x00],
    [0x1E, 0x33, 0x30, 0x1C, 0x30, 0x33, 0x1E, 0x00],
    [0x38, 0x3C, 0x36, 0x33, 0x7F, 0x30, 0x78, 0x00],
    [0x7F, 0x07, 0x1F, 0x30, 0x30, 0x33, 0x1E, 0x00],
    [0x1C, 0x06, 0x03, 0x1F, 0x33, 0x33, 0x1E, 0x00],
    [0x7F, 0x33, 0x30, 0x18, 0x0C, 0x0C, 0x0C, 0x00],
    [0x1E, 0x33, 0x33, 0x1E, 0x33, 0x33, 0x1E, 0x00],
    [0x1E, 0x33, 0x33, 0x3E, 0x30, 0x18, 0x0E, 0x00],
    [0x00, 0x0C, 0x0C, 0x00, 0x00, 0x0C, 0x0C, 0x00],
    [0x00, 0x0C, 0x0C, 0x00, 0x00, 0x0C, 0x0C, 0x06],
    [0x18, 0x0C, 0x06, 0x03, 0x06, 0x0C, 0x18, 0x00],
    [0x00, 0x00, 0x3F, 0x00, 0x00, 0x3F, 0x00, 0x00],
    [0x06, 0x0C, 0x18, 0x30, 0x18, 0x0C, 0x06, 0x00],
    [0x1E, 0x33, 0x30, 0x18, 0x0C, 0x00, 0x0C, 0x00],
    [0x3E, 0x63, 0x7B, 0x7B, 0x7B, 0x03, 0x1E, 0x00],
    [0x0C, 0x1E, 0x33, 0x33, 0x3F, 0x33, 0x33, 0x00],
    [0x3F, 0x66, 0x66, 0x3E, 0x66, 0x66, 0x3F, 0x00],
    [0x3C, 0x66, 0x03, 0x03, 0x03, 0x66, 0x3C, 0x00],
    [0x1F, 0x36, 0x66, 0x66, 0x66, 0x36, 0x1F, 0x00],
    [0x7F, 0x46, 0x16, 0x1E, 0x16, 0x46, 0x7F, 0x00],
    [0x7F, 0x46, 0x16, 0x1E, 0x16, 0x06, 0x0F, 0x00],
    [0x3C, 0x66, 0x03, 0x03, 0x73, 0x66, 0x7C, 0x00],
    [0x33, 0x33, 0x33, 0x3F, 0x33, 0x33, 0x33, 0x00],
    [0x1E, 0x0C, 0x0C, 0x0C, 0x0C, 0x0C, 0x1E, 0x00],
    [0x78, 0x30, 0x30, 0x30, 0x33, 0x33, 0x1E, 0x00],
    [0x67, 0x66, 0x36, 0x1E, 0x36, 0x66, 0x67, 0x00],
    [0x0F, 0x06, 0x06, 0x06, 0x46, 0x66, 0x7F, 0x00],
    [0x63, 0x77, 0x7F, 0x6B, 0x63, 0x63, 0x63, 0x00],
    [0x63, 0x67, 0x6F, 0x7B, 0x73, 0x63, 0x63, 0x00],
    [0x1C, 0x36, 0x63, 0x63, 0x63, 0x36, 0x1C, 0x00],
    [0x3F, 0x66, 0x66, 0x3E, 0x06, 0x06, 0x0F, 0x00],
    [0x1E, 0x33, 0x33, 0x33, 0x3B, 0x1E, 0x38, 0x00],
    [0x3F, 0x66, 0x66, 0x3E, 0x36, 0x66, 0x67, 0x00],
    [0x1E, 0x33, 0x07, 0x0E, 0x38, 0x33, 0x1E, 0x00],
    [0x3F, 0x2D, 0x0C, 0x0C, 0x0C, 0x0C, 0x1E, 0x00],
    [0x33, 0x33, 0x33, 0x33, 0x33, 0x33, 0x3F, 0x00],
    [0x33, 0x33, 0x33, 0x33, 0x33, 0x1E, 0x0C, 0x00],
    [0x63, 0x63, 0x63, 0x6B, 0x7F, 0x77, 0x63, 0x00],
    [0x63, 0x63, 0x36, 0x1C, 0x36, 0x63, 0x63, 0x00],
    [0x33, 0x33, 0x33, 0x1E, 0x0C, 0x0C, 0x1E, 0x00],
    [0x7F, 0x63, 0x31, 0x18, 0x4C, 0x66, 0x7F, 0x00],
    [0x1E, 0x33, 0x33, 0x33, 0x33, 0x33, 0x1E, 0x00],
    [0x01, 0x03, 0x06, 0x0C, 0x18, 0x30, 0x60, 0x00],
    [0x1E, 0x33, 0x33, 0x33, 0x33, 0x33, 0x1E, 0x00],
    [0x08, 0x1C, 0x36, 0x63, 0x00, 0x00, 0x00, 0x00],
    [0x00, 0x00, 0x00, 0x00, 0x00, 0x00, 0x00, 0xFF],
    [0x0C, 0x0C, 0x18, 0x00, 0x00, 0x00, 0x00, 0x00],
    [0x00, 0x00, 0x1E, 0x30, 0x3E, 0x33, 0x6E, 0x00],
    [0x07, 0x06, 0x06, 0x3E, 0x66, 0x66, 0x3B, 0x00],
    [0x00, 0x00, 0x1E, 0x33, 0x03, 0x33, 0x1E, 0x00],
    [0x38, 0x30, 0x30, 0x3E, 0x33, 0x33, 0x6E, 0x00],
    [0x00, 0x00, 0x1E, 0x33, 0x3F, 0x03, 0x1E, 0x00],
    [0x1C, 0x36, 0x06, 0x0F, 0x06, 0x06, 0x0F, 0x00],
    [0x00, 0x00, 0x6E, 0x33, 0x33, 0x3E, 0x30, 0x1F],
    [0x07, 0x06, 0x36, 0x6E, 0x66, 0x66, 0x67, 0x00],
    [0x0C, 0x00, 0x0E, 0x0C, 0x0C, 0x0C, 0x1E, 0x00],
    [0x30, 0x00, 0x30, 0x30, 0x30, 0x33, 0x33, 0x1E],
    [0x07, 0x06, 0x66, 0x36, 0x1E, 0x36, 0x67, 0x00],
    [0x0E, 0x0C, 0x0C, 0x0C, 0x0C, 0x0C, 0x1E, 0x00],
    [0x00, 0x00, 0x33, 0x7F, 0x7F, 0x6B, 0x63, 0x00],
    [0x00, 0x00, 0x1F, 0x33, 0x33, 0x33, 0x33, 0x00],
    [0x00, 0x00, 0x1E, 0x33, 0x33, 0x33, 0x1E, 0x00],
    [0x00, 0x00, 0x3B, 0x66, 0x66, 0x3E, 0x06, 0x0F],
    [0x00, 0x00, 0x6E, 0x33, 0x33, 0x3E, 0x30, 0x78],
    [0x00, 0x00, 0x3B, 0x6E, 0x66, 0x06, 0x0F, 0x00],
    [0x00, 0x00, 0x3E, 0x03, 0x1E, 0x30, 0x1F, 0x00],
    [0x08, 0x0C, 0x3E, 0x0C, 0x0C, 0x2C, 0x18, 0x00],
    [0x00, 0x00, 0x33, 0x33, 0x33, 0x33, 0x6E, 0x00],
    [0x00, 0x00, 0x33, 0x33, 0x33, 0x1E, 0x0C, 0x00],
    [0x00, 0x00, 0x63, 0x6B, 0x7F, 0x77, 0x63, 0x00],
    [0x00, 0x00, 0x63, 0x36, 0x1C, 0x36, 0x63, 0x00],
    [0x00, 0x00, 0x33, 0x33, 0x33, 0x3E, 0x30, 0x1F],
    [0x00, 0x00, 0x3F, 0x19, 0x0C, 0x26, 0x3F, 0x00],
    [0x18, 0x0C, 0x0C, 0x06, 0x0C, 0x0C, 0x18, 0x00],
    [0x0C, 0x0C, 0x0C, 0x0C, 0x0C, 0x0C, 0x0C, 0x00],
    [0x06, 0x0C, 0x0C, 0x18, 0x0C, 0x0C, 0x06, 0x00],
    [0x00, 0x00, 0x00, 0x00, 0x00, 0x00, 0x00, 0x00]] @ replicate 33 (replicate 8 0)"

abbreviation PAGE_NOCACHE :: u64 where "PAGE_NOCACHE \<equiv> 0x10"

text \<open>The arguments are the fields of \<^verbatim>\<open>g_kernel_info\<close> that the boot loader filled in.\<close>

definition framebuffer_init :: "nat \<Rightarrow> nat \<Rightarrow> nat \<Rightarrow> nat \<Rightarrow> nat \<Rightarrow> framebuffer \<times> vmm \<Rightarrow> (framebuffer \<times> vmm) res" where
  "framebuffer_init addr width height pitch bpp s =
     (case s of (fb, v) \<Rightarrow>
        if addr \<noteq> 0 \<and> bpp \<ge> 24
        then let fb = fb\<lparr>fb_addr := add64 addr KERNEL_VBASE, fb_width := width, fb_height := height, fb_pitch := pitch, fb_bpp := bpp,
                        fb_type := 1, red_pos := 16, red_size := 8, green_pos := 8, green_size := 8, blue_pos := 0, blue_size := 8\<rparr>;
                 fb_size = fb_height fb * fb_pitch fb mod 2 ^ 32;
                 offs = map (\<lambda>k. k * 4096) [0..<(fb_size + 4095) div 4096]
             in res_bind (res_fold (\<lambda>off v. vmm_map_page (of_nat (add64 (fb_addr fb) off)) (of_nat (add64 addr off))
                    (PAGE_PRESENT OR PAGE_WRITABLE OR PAGE_NOCACHE) v) offs v) (\<lambda>v. Inr (fb, v))
        else Inr (fb, v))"

definition pixel_addr :: "framebuffer \<Rightarrow> nat \<Rightarrow> nat \<Rightarrow> nat" where
  "pixel_addr fb x y = add64 (add64 (fb_addr fb) (y * fb_pitch fb mod 2 ^ 32)) (x * (fb_bpp fb div 8) mod 2 ^ 32)"

definition framebuffer_write_pixel :: "framebuffer \<Rightarrow> nat \<Rightarrow> nat \<Rightarrow> nat \<Rightarrow> mem \<Rightarrow> mem" where
  "framebuffer_write_pixel fb x y color m =
     (if x \<ge> fb_width fb \<or> y \<ge> fb_height fb then m
      else let p = pixel_addr fb x y in
        m(p := of_nat (color mod 256), add64 p 1 := of_nat (color div 2 ^ 8 mod 256), add64 p 2 := of_nat (color div 2 ^ 16 mod 256)))"

definition framebuffer_put_pixel :: "framebuffer \<Rightarrow> nat \<Rightarrow> nat \<Rightarrow> nat \<Rightarrow> mem \<Rightarrow> mem" where
  "framebuffer_put_pixel fb x y color m = (if fb_addr fb = 0 then m else framebuffer_write_pixel fb x y color m)"

definition framebuffer_fill_rect :: "framebuffer \<Rightarrow> nat \<Rightarrow> nat \<Rightarrow> nat \<Rightarrow> nat \<Rightarrow> nat \<Rightarrow> mem \<Rightarrow> mem" where
  "framebuffer_fill_rect fb x y w h color m =
     (if fb_addr fb = 0 then m
      else fold (\<lambda>py. fold (\<lambda>px. framebuffer_write_pixel fb px py color) [x..<min ((x + w) mod 2 ^ 32) (fb_width fb)])
        [y..<min ((y + h) mod 2 ^ 32) (fb_height fb)] m)"

definition framebuffer_clear :: "framebuffer \<Rightarrow> nat \<Rightarrow> mem \<Rightarrow> mem" where
  "framebuffer_clear fb color m = framebuffer_fill_rect fb 0 0 (fb_width fb) (fb_height fb) color m"

definition framebuffer_draw_char :: "framebuffer \<Rightarrow> nat \<Rightarrow> nat \<Rightarrow> u8 \<Rightarrow> nat \<Rightarrow> nat \<Rightarrow> mem \<Rightarrow> mem" where
  "framebuffer_draw_char fb x y c fg bg m =
     (if fb_addr fb = 0 \<or> unat c > 127 then m
      else let glyph = g_font8x8 ! unat c in
        fold (\<lambda>row. fold (\<lambda>col. framebuffer_write_pixel fb ((x + col) mod 2 ^ 32) ((y + row) mod 2 ^ 32)
            (if bit (glyph ! row) (7 - col) then fg else bg)) [0..<8]) [0..<8] m)"

fun draw_chars :: "framebuffer \<Rightarrow> nat \<Rightarrow> nat \<Rightarrow> nat \<Rightarrow> u8 list \<Rightarrow> nat \<Rightarrow> nat \<Rightarrow> mem \<Rightarrow> mem" where
  "draw_chars fb x cx cy [] fg bg m = m"
| "draw_chars fb x cx cy (c # cs) fg bg m =
     (if c = 10 then draw_chars fb x x ((cy + 10) mod 2 ^ 32) cs fg bg m
      else draw_chars fb x ((cx + 8) mod 2 ^ 32) cy cs fg bg (framebuffer_draw_char fb cx cy c fg bg m))"

definition framebuffer_draw_string :: "framebuffer \<Rightarrow> nat \<Rightarrow> nat \<Rightarrow> u8 list option \<Rightarrow> nat \<Rightarrow> nat \<Rightarrow> mem \<Rightarrow> mem" where
  "framebuffer_draw_string fb x y str fg bg m =
     (case str of None \<Rightarrow> m | Some s \<Rightarrow> draw_chars fb x x y (takeWhile (\<lambda>c. c \<noteq> 0) s) fg bg m)"

definition framebuffer_is_available :: "framebuffer \<Rightarrow> bool" where
  "framebuffer_is_available fb = (fb_addr fb \<noteq> 0)"

section \<open>Bounds\<close>

text \<open>A mode whose lines hold its pixels and whose pixels lie in one run of memory.\<close>

definition fb_ok :: "framebuffer \<Rightarrow> bool" where
  "fb_ok fb \<longleftrightarrow> 24 \<le> fb_bpp fb \<and> fb_width fb * (fb_bpp fb div 8) \<le> fb_pitch fb \<and> fb_height fb * fb_pitch fb < 2 ^ 32 \<and>
     fb_pitch fb < 2 ^ 32 \<and> fb_addr fb + fb_height fb * fb_pitch fb < 2 ^ 64"

definition frame_only :: "framebuffer \<Rightarrow> mem \<Rightarrow> mem \<Rightarrow> bool" where
  "frame_only fb m m' \<longleftrightarrow> (\<forall>a. a < fb_addr fb \<or> fb_addr fb + fb_height fb * fb_pitch fb \<le> a \<longrightarrow> m' a = m a)"

lemma outside_refl [simp]: "frame_only fb m m"
  by (simp add: frame_only_def)

lemma outside_trans: "frame_only fb a b \<Longrightarrow> frame_only fb b c \<Longrightarrow> frame_only fb a c"
  by (simp add: frame_only_def)

lemma outside_fold: "(\<And>i m. frame_only fb m (f i m)) \<Longrightarrow> frame_only fb m (fold f is m)"
  by (induction "is" arbitrary: m) (auto intro: outside_trans)

lemma pixel_in_frame:
  assumes "fb_ok fb" "x < fb_width fb" "y < fb_height fb"
  shows "pixel_addr fb x y = fb_addr fb + y * fb_pitch fb + x * (fb_bpp fb div 8)"
    "pixel_addr fb x y + 3 \<le> fb_addr fb + fb_height fb * fb_pitch fb"
proof -
  let ?b = "fb_bpp fb div 8" and ?p = "fb_pitch fb"
  have k: "24 \<le> fb_bpp fb" "fb_width fb * ?b \<le> ?p" "fb_height fb * ?p < 2 ^ 32" "?p < 2 ^ 32" "fb_addr fb + fb_height fb * ?p < 2 ^ 64"
    using assms(1) by (auto simp: fb_ok_def)
  have b: "3 \<le> ?b" using k(1) by linarith
  have "Suc x * ?b \<le> fb_width fb * ?b" using assms(2) by (intro mult_le_mono1) simp
  then have x: "x * ?b + 3 \<le> ?p" using b k(2) by simp
  have "Suc y * ?p \<le> fb_height fb * ?p" using assms(3) by (intro mult_le_mono1) simp
  then have y: "y * ?p + ?p \<le> fb_height fb * ?p" by simp
  have w: "y * ?p < 2 ^ 32" "x * ?b < 2 ^ 32" using x y k(3,4) by linarith+
  show e: "pixel_addr fb x y = fb_addr fb + y * ?p + x * ?b"
    using w x y k(5) by (simp add: pixel_addr_def add64_nowrap)
  show "pixel_addr fb x y + 3 \<le> fb_addr fb + fb_height fb * ?p" unfolding e using x y by linarith
qed

lemma write_pixel_outside:
  assumes "fb_ok fb"
  shows "frame_only fb m (framebuffer_write_pixel fb x y color m)"
proof (cases "x \<ge> fb_width fb \<or> y \<ge> fb_height fb")
  case False
  let ?p = "pixel_addr fb x y"
  have p: "fb_addr fb \<le> ?p" "?p + 3 \<le> fb_addr fb + fb_height fb * fb_pitch fb" "fb_addr fb + fb_height fb * fb_pitch fb < 2 ^ 64"
    using pixel_in_frame[OF assms, of x y] False assms by (auto simp: fb_ok_def)
  have q: "add64 ?p 1 = ?p + 1" "add64 ?p 2 = ?p + 2" using p(2,3) by (simp_all add: add64_nowrap)
  show ?thesis using False p(1,2) unfolding framebuffer_write_pixel_def Let_def q by (simp add: frame_only_def)
qed (simp add: framebuffer_write_pixel_def)

lemma draw_char_outside: "fb_ok fb \<Longrightarrow> frame_only fb m (framebuffer_draw_char fb x y c fg bg m)"
  unfolding framebuffer_draw_char_def Let_def by (auto intro!: outside_fold write_pixel_outside)

lemma draw_chars_outside: "fb_ok fb \<Longrightarrow> frame_only fb m (draw_chars fb x cx cy cs fg bg m)"
  by (induction cs arbitrary: cx cy m) (auto intro: outside_trans[OF draw_char_outside])

datatype drawing = PutPixel nat nat nat | FillRect nat nat nat nat nat | Clear nat | DrawString nat nat "u8 list option" nat nat

fun draw :: "framebuffer \<Rightarrow> drawing \<Rightarrow> mem \<Rightarrow> mem" where
  "draw fb (PutPixel x y c) = framebuffer_put_pixel fb x y c"
| "draw fb (FillRect x y w h c) = framebuffer_fill_rect fb x y w h c"
| "draw fb (Clear c) = framebuffer_clear fb c"
| "draw fb (DrawString x y s fg bg) = framebuffer_draw_string fb x y s fg bg"

text \<open>C17 (drawing_in_frame): no sequence of drawing operations, whatever its coordinates, sizes and strings, changes a byte of memory
  outside the framebuffer, for a mode of at least 24 bits per pixel whose rows fit the pitch and whose memory does not wrap (\<open>fb_ok\<close>).\<close>

theorem drawing_in_frame:
  assumes "fb_ok fb"
  shows "frame_only fb m (fold (draw fb) ds m)"
proof (rule outside_fold)
  fix d m
  have r: "frame_only fb m (framebuffer_fill_rect fb x y w h c m)" for x y w h c m
    unfolding framebuffer_fill_rect_def by (auto intro!: outside_fold write_pixel_outside[OF assms])
  show "frame_only fb m (draw fb d m)"
  proof (cases d)
    case (PutPixel x y c)
    then show ?thesis using write_pixel_outside[OF assms] by (simp add: framebuffer_put_pixel_def)
  next
    case (DrawString x y s fg bg)
    then show ?thesis using draw_chars_outside[OF assms] by (simp add: framebuffer_draw_string_def split: option.split)
  qed (use r in \<open>simp_all add: framebuffer_clear_def\<close>)
qed

definition vga_mode :: framebuffer where
  "vga_mode = \<lparr>fb_addr = 0xFFFFFFFFBD000000, fb_width = 640, fb_height = 480, fb_pitch = 2560, fb_bpp = 32, fb_type = 1, red_pos = 16,
     red_size = 8, green_pos = 8, green_size = 8, blue_pos = 0, blue_size = 8\<rparr>"

theorem drawing_in_frame_witness:
  "frame_only vga_mode (\<lambda>_. 0) (fold (draw vga_mode) [FillRect 600 470 100 100 255, DrawString 636 1 (Some (bytes ''gOS'')) 1 0] (\<lambda>_. 0))"
  by (rule drawing_in_frame) (simp add: fb_ok_def vga_mode_def)

text \<open>The character code indexes the font directly, but the table starts at the space: the glyph drawn for \<^verbatim>\<open>A\<close> is that of \<^verbatim>\<open>a\<close>.\<close>

lemma font_shifted: "g_font8x8 ! 65 = [0, 0, 0x1E, 0x30, 0x3E, 0x33, 0x6E, 0]"
  by (simp add: g_font8x8_def nth_append)

end
