(* ===== verification/Gos_Platform.thy ===== *)
theory Gos_Platform
  imports Gos_Proc
begin

text \<open>
  Processor tables and platform devices: the segment descriptors (\<^verbatim>\<open>hal/gdt\<close>) and the task state segment
  (\<^verbatim>\<open>hal/tss\<close>), the interrupt controller (\<^verbatim>\<open>drivers/pic\<close>), the interval timer (\<^verbatim>\<open>drivers/pit\<close>), the real-time clock
  (\<^verbatim>\<open>drivers/rtc\<close>) and timekeeping (\<^verbatim>\<open>time\<close>). Port accesses are recorded in a trace; what a port reads after a
  trace is the parameter \<open>dev\<close>.
\<close>

section \<open>\<^verbatim>\<open>hal/gdt/gdt.c\<close>\<close>

abbreviation "GDT_MAX_ENTRIES \<equiv> 9 :: nat"

record gdt_entry =
  limit_low :: u16
  base_low :: u16
  base_middle :: u8
  access :: u8
  granularity :: u8
  base_high :: u8

text \<open>The task state segment without its reserved words; the seven \<^verbatim>\<open>ist\<close> fields are a list.\<close>

record tss64 =
  rsp0 :: u64
  rsp1 :: u64
  rsp2 :: u64
  ist :: "u64 list"
  iomap_base :: u16

text \<open>The tables, and the registers that \<^verbatim>\<open>lgdt\<close>, \<^verbatim>\<open>ltr\<close> and the segment reload load.\<close>

record tables =
  g_gdt :: "gdt_entry list"
  g_gdt_ptr :: "u16 \<times> u64"
  g_tss :: tss64
  gdtr :: "u16 \<times> u64"
  task_register :: u16
  code_segment :: u16
  data_segments :: u16

definition gdt_set_entry :: "int \<Rightarrow> u32 \<Rightarrow> u32 \<Rightarrow> u8 \<Rightarrow> u8 \<Rightarrow> tables \<Rightarrow> tables" where
  "gdt_set_entry index base limit acc gran st =
     (if index < 0 \<or> index \<ge> int GDT_MAX_ENTRIES then st
      else st\<lparr>g_gdt := (g_gdt st)[nat index := \<lparr>
        limit_low = ucast (limit AND 0xFFFF),
        base_low = ucast (base AND 0xFFFF),
        base_middle = ucast (drop_bit 16 base AND 0xFF),
        access = acc,
        granularity = ucast ((drop_bit 16 limit AND 0x0F) OR (ucast gran AND 0xF0)),
        base_high = ucast (drop_bit 24 base AND 0xFF)\<rparr>]\<rparr>)"

text \<open>
  The 16 byte descriptor lies over two entries: the high half of the base and the reserved word are the fields
  of the second one, which is cleared at the end.
\<close>

definition gdt_set_tss :: "int \<Rightarrow> u64 \<Rightarrow> u32 \<Rightarrow> tables \<Rightarrow> tables" where
  "gdt_set_tss index tss_addr limit st =
     (if index < 0 \<or> index \<ge> int GDT_MAX_ENTRIES - 1 then st
      else let base_hi = ucast (drop_bit 32 tss_addr AND 0xFFFFFFFF) :: u32;
               st = st\<lparr>g_gdt := (g_gdt st)[nat index := \<lparr>
                 limit_low = ucast (limit AND 0xFFFF),
                 base_low = ucast (tss_addr AND 0xFFFF),
                 base_middle = ucast (drop_bit 16 tss_addr AND 0xFF),
                 access = 0x80 OR 0x00 OR 0x09,
                 granularity = ucast (drop_bit 16 limit AND 0x0F),
                 base_high = ucast (drop_bit 24 tss_addr AND 0xFF)\<rparr>,
               nat index + 1 := \<lparr>limit_low = ucast base_hi, base_low = ucast (drop_bit 16 base_hi),
                 base_middle = 0, access = 0, granularity = 0, base_high = 0\<rparr>]\<rparr>
           in gdt_set_entry (index + 1) 0 0 0 0 st)"

definition gdt_load_tss :: "u16 \<Rightarrow> tables \<Rightarrow> tables" where
  "gdt_load_tss selector st = st\<lparr>task_register := selector\<rparr>"

text \<open>What \<^verbatim>\<open>gdt_dump\<close> reads back from an entry: base and limit.\<close>

definition gdt_decode :: "gdt_entry \<Rightarrow> u32 \<times> u32" where
  "gdt_decode e = (ucast (base_low e) OR push_bit 16 (ucast (base_middle e)) OR push_bit 24 (ucast (base_high e)),
     ucast (limit_low e) OR push_bit 16 (ucast (granularity e AND 0x0F)))"

definition gdt_dump :: "tables \<Rightarrow> (nat \<times> u32 \<times> u32 \<times> u8 \<times> u8) list" where
  "gdt_dump st = map (\<lambda>i. let e = g_gdt st ! i in (i, fst (gdt_decode e), snd (gdt_decode e), access e, granularity e))
     (filter (\<lambda>i. \<not> (access (g_gdt st ! i) = 0 \<and> i > 0)) [0..<GDT_MAX_ENTRIES])"

section \<open>\<^verbatim>\<open>hal/tss/tss.c\<close>\<close>

definition tss_set_ist :: "int \<Rightarrow> u64 \<Rightarrow> tables \<Rightarrow> tables" where
  "tss_set_ist index stack_top st =
     (if index < 1 \<or> index > 7 then st
      else st\<lparr>g_tss := (g_tss st)\<lparr>ist := (ist (g_tss st))[nat index - 1 := stack_top]\<rparr>\<rparr>)"

definition tss_get_size :: u32 where
  "tss_get_size = 104"

text \<open>The addresses of the table and of the ends of the three exception stacks are the linker's.\<close>

definition tss_init :: "u64 \<Rightarrow> u64 \<Rightarrow> u64 \<Rightarrow> u64 \<Rightarrow> u64 \<Rightarrow> tables \<Rightarrow> tables" where
  "tss_init tss_addr ist1 ist2 ist3 cur_rsp st =
     (let st = st\<lparr>g_tss := \<lparr>rsp0 = 0, rsp1 = 0, rsp2 = 0, ist = replicate 7 0, iomap_base = 0\<rparr>\<rparr>;
          st = st\<lparr>g_tss := (g_tss st)\<lparr>rsp0 := cur_rsp\<rparr>\<rparr>;
          st = tss_set_ist 1 ist1 st;
          st = tss_set_ist 2 ist2 st;
          st = tss_set_ist 3 ist3 st;
          st = st\<lparr>g_tss := (g_tss st)\<lparr>iomap_base := 104\<rparr>\<rparr>;
          st = gdt_set_tss 6 tss_addr (104 - 1) st;
          st = st\<lparr>gdtr := g_gdt_ptr st\<rparr>
      in gdt_load_tss 0x30 st)"

definition gdt_init :: "u64 \<Rightarrow> u64 \<Rightarrow> u64 \<Rightarrow> u64 \<Rightarrow> u64 \<Rightarrow> u64 \<Rightarrow> tables \<Rightarrow> tables" where
  "gdt_init gdt_addr tss_addr ist1 ist2 ist3 cur_rsp st =
     (let st = st\<lparr>g_gdt := replicate GDT_MAX_ENTRIES \<lparr>limit_low = 0, base_low = 0, base_middle = 0, access = 0, granularity = 0, base_high = 0\<rparr>\<rparr>;
          st = gdt_set_entry 0 0 0 0 0 st;
          st = gdt_set_entry 1 0 0 (0x80 OR 0x00 OR 0x10 OR 0x0A) 0x20 st;
          st = gdt_set_entry 2 0 0 (0x80 OR 0x00 OR 0x10 OR 0x02) 0x20 st;
          st = gdt_set_entry 3 0 0xFFFFFFFF (0x80 OR 0x60 OR 0x10 OR 0x0A) (0x80 OR 0x40) st;
          st = gdt_set_entry 4 0 0 (0x80 OR 0x60 OR 0x10 OR 0x02) 0x20 st;
          st = gdt_set_entry 5 0 0 (0x80 OR 0x60 OR 0x10 OR 0x0A) 0x20 st;
          st = gdt_set_entry 6 0 0 0 0 st;
          st = gdt_set_entry 7 0 0 0 0 st;
          st = st\<lparr>g_gdt_ptr := (8 * 9 - 1, gdt_addr)\<rparr>;
          st = st\<lparr>gdtr := g_gdt_ptr st\<rparr>;
          st = st\<lparr>code_segment := 0x08, data_segments := 0x10\<rparr>
      in tss_init tss_addr ist1 ist2 ist3 cur_rsp st)"

section \<open>Port accesses\<close>

datatype io = Out nat u8 | In nat | OutW nat u16 | InW nat | OutL nat u32 | InL nat

type_synonym device = "io list \<Rightarrow> nat \<Rightarrow> u8"
type_synonym wdevice = "io list \<Rightarrow> nat \<Rightarrow> u16"
type_synonym ldevice = "io list \<Rightarrow> nat \<Rightarrow> u32"

definition outb :: "nat \<Rightarrow> u8 \<Rightarrow> io list \<Rightarrow> io list" where
  "outb p v tr = tr @ [Out p v]"

definition inb :: "device \<Rightarrow> nat \<Rightarrow> io list \<Rightarrow> u8 \<times> io list" where
  "inb dev p tr = (dev tr p, tr @ [In p])"

definition io_wait :: "io list \<Rightarrow> io list" where
  "io_wait tr = outb 0x80 0 tr"

definition outw :: "nat \<Rightarrow> u16 \<Rightarrow> io list \<Rightarrow> io list" where
  "outw p v tr = tr @ [OutW p v]"

definition inw :: "wdevice \<Rightarrow> nat \<Rightarrow> io list \<Rightarrow> u16 \<times> io list" where
  "inw dev p tr = (dev tr p, tr @ [InW p])"

definition outl :: "nat \<Rightarrow> u32 \<Rightarrow> io list \<Rightarrow> io list" where
  "outl p v tr = tr @ [OutL p v]"

definition inl :: "ldevice \<Rightarrow> nat \<Rightarrow> io list \<Rightarrow> u32 \<times> io list" where
  "inl dev p tr = (dev tr p, tr @ [InL p])"

section \<open>\<^verbatim>\<open>drivers/pic/pic.c\<close>\<close>

abbreviation "PIC1_COMMAND \<equiv> 0x20 :: nat"
abbreviation "PIC1_DATA \<equiv> 0x21 :: nat"
abbreviation "PIC2_COMMAND \<equiv> 0xA0 :: nat"
abbreviation "PIC2_DATA \<equiv> 0xA1 :: nat"

definition pic_init :: "device \<Rightarrow> io list \<Rightarrow> io list" where
  "pic_init dev tr =
     (let (a1, tr) = inb dev PIC1_DATA tr;
          (a2, tr) = inb dev PIC2_DATA tr;
          tr = io_wait (outb PIC1_COMMAND (0x10 OR 0x01) tr);
          tr = io_wait (outb PIC2_COMMAND (0x10 OR 0x01) tr);
          tr = io_wait (outb PIC1_DATA 32 tr);
          tr = io_wait (outb PIC2_DATA 40 tr);
          tr = io_wait (outb PIC1_DATA (push_bit 2 1) tr);
          tr = io_wait (outb PIC2_DATA 2 tr);
          tr = io_wait (outb PIC1_DATA 0x01 tr);
          tr = io_wait (outb PIC2_DATA 0x01 tr);
          tr = outb PIC1_DATA a1 tr
      in outb PIC2_DATA a2 tr)"

definition pic_send_eoi :: "u8 \<Rightarrow> io list \<Rightarrow> io list" where
  "pic_send_eoi irq tr =
     (let tr = (if irq \<ge> 8 then outb PIC2_COMMAND 0x20 tr else tr) in outb PIC1_COMMAND 0x20 tr)"

definition pic_port :: "u8 \<Rightarrow> nat" where
  "pic_port irq = (if irq < 8 then PIC1_DATA else PIC2_DATA)"

definition pic_mask_irq :: "device \<Rightarrow> u8 \<Rightarrow> io list \<Rightarrow> io list" where
  "pic_mask_irq dev irq tr =
     (let (m, tr) = inb dev (pic_port irq) tr in outb (pic_port irq) (m OR push_bit (unat (irq AND 7)) 1) tr)"

definition pic_unmask_irq :: "device \<Rightarrow> u8 \<Rightarrow> io list \<Rightarrow> io list" where
  "pic_unmask_irq dev irq tr =
     (let (m, tr) = inb dev (pic_port irq) tr in outb (pic_port irq) (m AND NOT (push_bit (unat (irq AND 7)) 1)) tr)"

definition pic_disable :: "io list \<Rightarrow> io list" where
  "pic_disable tr = outb PIC2_DATA 0xFF (outb PIC1_DATA 0xFF tr)"

text \<open>The two reads of the last line are taken from left to right.\<close>

definition pic_read_both :: "device \<Rightarrow> u8 \<Rightarrow> io list \<Rightarrow> u16 \<times> io list" where
  "pic_read_both dev cmd tr =
     (let tr = outb PIC2_COMMAND cmd (outb PIC1_COMMAND cmd tr);
          (hi, tr) = inb dev PIC2_COMMAND tr;
          (lo, tr) = inb dev PIC1_COMMAND tr
      in (push_bit 8 (ucast hi) OR ucast lo, tr))"

definition pic_get_irr :: "device \<Rightarrow> io list \<Rightarrow> u16 \<times> io list" where
  "pic_get_irr dev tr = pic_read_both dev 0x0A tr"

definition pic_get_isr :: "device \<Rightarrow> io list \<Rightarrow> u16 \<times> io list" where
  "pic_get_isr dev tr = pic_read_both dev 0x0B tr"

definition pic_irq_to_vector :: "u8 \<Rightarrow> u8" where
  "pic_irq_to_vector irq = (if irq < 8 then 32 + irq else 40 + irq)"

definition pit_handle_irq0 :: "sched \<times> io list \<Rightarrow> (sched \<times> io list) option" where
  "pit_handle_irq0 s = Option.bind (pit_handle_tick (fst s)) (\<lambda>st. Some (st, pic_send_eoi 0 (snd s)))"

section \<open>\<^verbatim>\<open>drivers/pic/pic_irq.c\<close>, spurious interrupts\<close>

definition pic_handle_irq7 :: "device \<Rightarrow> io list \<Rightarrow> io list" where
  "pic_handle_irq7 dev tr =
     (let (isr, tr) = pic_get_isr dev tr in if isr AND 0x80 = 0 then tr else pic_send_eoi 7 tr)"

definition pic_handle_irq15 :: "device \<Rightarrow> io list \<Rightarrow> io list" where
  "pic_handle_irq15 dev tr =
     (let (isr, tr) = pic_get_isr dev tr in if isr AND 0x8000 = 0 then outb PIC1_COMMAND 0x20 tr else pic_send_eoi 15 tr)"

section \<open>\<^verbatim>\<open>drivers/pit/pit.c\<close>, programming\<close>

abbreviation "PIT_FREQUENCY \<equiv> 1193182 :: nat"

text \<open>Returns \<^verbatim>\<open>g_pit_divisor\<close> and the trace.\<close>

definition pit_set_frequency :: "nat \<Rightarrow> io list \<Rightarrow> nat \<times> io list" where
  "pit_set_frequency hz tr =
     (let hz = (if hz = 0 then 18 else hz);
          divisor = PIT_FREQUENCY div hz;
          divisor = (if divisor > 65535 then 0 else divisor);
          tr = io_wait (outb 0x43 (0x00 OR 0x30 OR 0x04 OR 0x00) tr);
          tr = io_wait (outb 0x40 (of_nat (divisor mod 256)) tr);
          tr = outb 0x40 (of_nat (divisor div 256 mod 256)) tr
      in (divisor, tr))"

definition pit_init :: "io list \<Rightarrow> nat \<times> io list" where
  "pit_init tr = pit_set_frequency PIT_HZ tr"

section \<open>\<^verbatim>\<open>time/time.c\<close>\<close>

definition time_get_ms :: "sched \<Rightarrow> nat" where
  "time_get_ms st = pit_get_ticks st * (1000 div PIT_HZ) mod 2 ^ 64"

definition time_get_us :: "sched \<Rightarrow> nat" where
  "time_get_us st = time_get_ms st * 1000 mod 2 ^ 64"

definition time_sleep_ms :: "(sched \<Rightarrow> sched option) \<Rightarrow> nat \<Rightarrow> sched \<Rightarrow> sched option" where
  "time_sleep_ms irq ms st = pit_sleep_ms irq (ms mod 2 ^ 32) st"

definition time_get_timespec :: "sched \<Rightarrow> nat \<times> nat" where
  "time_get_timespec st = (let ms = time_get_ms st in (ms div 1000, ms mod 1000 * 1000000))"

section \<open>\<^verbatim>\<open>drivers/rtc/rtc.c\<close>\<close>

record rtc_time =
  second :: u8
  minute :: u8
  hour :: u8
  day :: u8
  month :: u8
  year :: nat
  century :: u8

definition rtc_read_reg :: "device \<Rightarrow> u8 \<Rightarrow> io list \<Rightarrow> u8 \<times> io list" where
  "rtc_read_reg dev reg tr = inb dev 0x71 (io_wait (outb 0x70 reg tr))"

definition rtc_write_reg :: "u8 \<Rightarrow> u8 \<Rightarrow> io list \<Rightarrow> io list" where
  "rtc_write_reg reg val tr = outb 0x71 val (io_wait (outb 0x70 reg tr))"

definition bcd_to_binary :: "u8 \<Rightarrow> u8" where
  "bcd_to_binary bcd = drop_bit 4 bcd * 10 + (bcd AND 0x0F)"

partial_function (option) rtc_wait_update :: "device \<Rightarrow> io list \<Rightarrow> io list option" where
  "rtc_wait_update dev tr =
     (case rtc_read_reg dev 0x0A tr of (a, tr) \<Rightarrow>
        if a AND 0x80 \<noteq> 0 then rtc_wait_update dev (io_wait tr) else Some tr)"

definition rtc_convert_hour :: "u8 \<Rightarrow> u8 \<Rightarrow> u8" where
  "rtc_convert_hour status_b h =
     (let h = (if status_b AND 0x04 = 0 then bcd_to_binary h else h)
      in if status_b AND 0x02 = 0 \<and> h AND 0x80 \<noteq> 0 then of_nat ((unat (h AND 0x7F) + 12) mod 24) else h)"

definition rtc_read_time :: "device \<Rightarrow> io list \<Rightarrow> (rtc_time \<times> io list) option" where
  "rtc_read_time dev tr =
     (let (status_b, tr) = rtc_read_reg dev 0x0B tr;
          conv = (\<lambda>v. if status_b AND 0x04 = 0 then bcd_to_binary v else v)
      in Option.bind (rtc_wait_update dev tr) (\<lambda>tr.
           let (s, tr) = rtc_read_reg dev 0x00 tr;
               (mi, tr) = rtc_read_reg dev 0x02 tr;
               (h, tr) = rtc_read_reg dev 0x04 tr;
               (d, tr) = rtc_read_reg dev 0x07 tr;
               (mo, tr) = rtc_read_reg dev 0x08 tr;
               (y, tr) = rtc_read_reg dev 0x09 tr
           in Some (\<lparr>second = conv s, minute = conv mi, hour = rtc_convert_hour status_b h, day = conv d, month = conv mo,
                year = 2000 + unat (conv y), century = 20\<rparr>, tr)))"

definition days_in_month :: "nat list" where
  "days_in_month = [0, 31, 28, 31, 30, 31, 30, 31, 31, 30, 31, 30, 31]"

text \<open>The sum over the months before; a month beyond 13 reads past the table.\<close>

definition rtc_seconds :: "rtc_time \<Rightarrow> nat res" where
  "rtc_seconds t =
     (let y = int (year t) - 2000;
          ms = [1..<unat (month t)]
      in if \<exists>m\<in>set ms. m \<ge> length days_in_month then Inl OutOfBounds
         else let days = (y * 365 + y div 4 + int (sum_list (map ((!) days_in_month) ms)) + int (unat (day t)) - 1) mod 2 ^ 64
              in Inr (nat ((days * 86400 + int (unat (hour t)) * 3600 + int (unat (minute t)) * 60 + int (unat (second t))) mod 2 ^ 64)))"

definition rtc_get_timestamp :: "device \<Rightarrow> io list \<Rightarrow> (nat res \<times> io list) option" where
  "rtc_get_timestamp dev tr = Option.bind (rtc_read_time dev tr) (\<lambda>(t, tr). Some (rtc_seconds t, tr))"

definition rtc_init :: "device \<Rightarrow> io list \<Rightarrow> (rtc_time \<times> io list) option" where
  "rtc_init dev tr =
     (let (_, tr) = rtc_read_reg dev 0x0B tr;
          (_, tr) = rtc_read_reg dev 0x32 tr
      in Option.bind (rtc_read_time dev tr) (\<lambda>(t, tr). Some (t, pic_unmask_irq dev 8 tr)))"

definition rtc_handle_irq :: "device \<Rightarrow> io list \<Rightarrow> io list" where
  "rtc_handle_irq dev tr = snd (rtc_read_reg dev 0x0C tr)"

section \<open>Descriptors\<close>

lemma gdt_entry_nth:
  assumes "length (g_gdt st) = GDT_MAX_ENTRIES" "0 \<le> index" "index < int GDT_MAX_ENTRIES"
  shows "g_gdt (gdt_set_entry index base limit acc gran st) ! nat index = \<lparr>limit_low = ucast (limit AND 0xFFFF),
    base_low = ucast (base AND 0xFFFF), base_middle = ucast (drop_bit 16 base AND 0xFF), access = acc,
    granularity = ucast ((drop_bit 16 limit AND 0x0F) OR (ucast gran AND 0xF0)), base_high = ucast (drop_bit 24 base AND 0xFF)\<rparr>"
  using assms by (simp add: gdt_set_entry_def)

lemma mask_bits_eq: "(0xFFFF :: u32) = mask 16" "(0xFF :: u32) = mask 8" "(0x0F :: u32) = mask 4" "(0xF0 :: u32) = push_bit 4 (mask 4)"
  "(0xFFFFF :: u32) = mask 20" "(0x0F :: u8) = mask 4" "(0xFFFF :: u64) = mask 16" "(0xFF :: u64) = mask 8" "(0xFFFFFFFF :: u64) = mask 32"
  by (simp_all add: mask_eq_exp_minus_1 push_bit_eq_mult)

lemma split_base: "(ucast (ucast (b AND 0xFFFF :: u32) :: u16) :: u32) OR push_bit 16 (ucast (ucast (drop_bit 16 b AND 0xFF) :: u8)) OR
    push_bit 24 (ucast (ucast (drop_bit 24 b AND 0xFF) :: u8)) = b" (is "?l = b")
proof (rule bit_eqI)
  fix n
  show "bit ?l n \<longleftrightarrow> bit b n" unfolding mask_bits_eq by (cases "n < 16"; cases "n < 24") (auto simp: bit_simps dest: bit_imp_le_length)
qed

lemma split_limit: "(ucast (ucast (l AND 0xFFFF :: u32) :: u16) :: u32) OR
    push_bit 16 (ucast (ucast ((drop_bit 16 l AND 0x0F) OR (ucast (g :: u8) AND 0xF0)) AND 0x0F :: u8)) = l AND 0xFFFFF" (is "?l = ?r")
proof (rule bit_eqI)
  fix n
  show "bit ?l n \<longleftrightarrow> bit ?r n" unfolding mask_bits_eq by (cases "n < 16"; cases "n < 20") (auto simp: bit_simps dest: bit_imp_le_length)
qed

text \<open>The fields of a segment descriptor encode its base and its 20 bit limit exactly: what \<^verbatim>\<open>gdt_dump\<close> decodes
  from an entry is what \<^verbatim>\<open>gdt_set_entry\<close> was given.\<close>

lemma gdt_entry_roundtrip:
  assumes "length (g_gdt st) = GDT_MAX_ENTRIES" "0 \<le> index" "index < int GDT_MAX_ENTRIES"
  shows "gdt_decode (g_gdt (gdt_set_entry index base limit acc gran st) ! nat index) = (base, limit AND 0xFFFFF)"
  unfolding gdt_entry_nth[OF assms] gdt_decode_def by (simp only: gdt_entry.simps split_base split_limit)

text \<open>The base the processor takes from a 16 byte system descriptor at entry \<open>i\<close>.\<close>

definition system_base :: "tables \<Rightarrow> nat \<Rightarrow> u64" where
  "system_base st i = ucast (fst (gdt_decode (g_gdt st ! i))) OR
     push_bit 32 (ucast (limit_low (g_gdt st ! (i + 1)))) OR push_bit 48 (ucast (base_low (g_gdt st ! (i + 1))))"

lemma split_tss: "(ucast ((ucast (ucast (a AND 0xFFFF :: u64) :: u16) :: u32) OR push_bit 16 (ucast (ucast (drop_bit 16 a AND 0xFF) :: u8)) OR
    push_bit 24 (ucast (ucast (drop_bit 24 a AND 0xFF) :: u8))) :: u64) = a AND 0xFFFFFFFF" (is "?l = ?r")
proof (rule bit_eqI)
  fix n
  show "bit ?l n \<longleftrightarrow> bit ?r n" unfolding mask_bits_eq by (cases "n < 16"; cases "n < 24"; cases "n < 32") (auto simp: bit_simps dest: bit_imp_le_length)
qed

text \<open>The task state segment is installed at the wrong address: \<^verbatim>\<open>gdt_set_tss\<close> clears the second half of the
  descriptor it has just written, so the processor is given the low 32 bits of the address only.\<close>

lemma tss_base_truncated:
  assumes "length (g_gdt st) = GDT_MAX_ENTRIES" "0 \<le> index" "index < int GDT_MAX_ENTRIES - 1"
  shows "system_base (gdt_set_tss index tss_addr limit st) (nat index) = tss_addr AND 0xFFFFFFFF"
proof -
  let ?s = "gdt_set_tss index tss_addr limit st"
  have n: "nat (index + 1) = nat index + 1" "nat index + 1 < GDT_MAX_ENTRIES" "\<not> (index < 0 \<or> int GDT_MAX_ENTRIES - 1 \<le> index)"
    "\<not> (index + 1 < 0 \<or> int GDT_MAX_ENTRIES \<le> index + 1)" using assms(2,3) by auto
  have e: "g_gdt ?s ! nat index = \<lparr>limit_low = ucast (limit AND 0xFFFF), base_low = ucast (tss_addr AND 0xFFFF),
      base_middle = ucast (drop_bit 16 tss_addr AND 0xFF), access = 0x80 OR 0x00 OR 0x09,
      granularity = ucast (drop_bit 16 limit AND 0x0F), base_high = ucast (drop_bit 24 tss_addr AND 0xFF)\<rparr>"
    unfolding gdt_set_tss_def gdt_set_entry_def Let_def if_not_P[OF n(3)] if_not_P[OF n(4)] using n(1,2) assms(1) by simp
  have "limit_low (g_gdt ?s ! (nat index + 1)) = 0 \<and> base_low (g_gdt ?s ! (nat index + 1)) = 0"
    unfolding gdt_set_tss_def gdt_set_entry_def Let_def if_not_P[OF n(3)] if_not_P[OF n(4)] using n(1,2) assms(1) by simp
  then have "system_base ?s (nat index) = ucast (fst (gdt_decode (g_gdt ?s ! nat index)))" by (simp add: system_base_def)
  also have "\<dots> = tss_addr AND 0xFFFFFFFF" unfolding e gdt_decode_def by (simp only: gdt_entry.simps fst_conv split_tss)
  finally show ?thesis .
qed

definition zero_tables :: tables where
  "zero_tables = \<lparr>g_gdt = replicate 9 \<lparr>limit_low = 0, base_low = 0, base_middle = 0, access = 0, granularity = 0, base_high = 0\<rparr>,
     g_gdt_ptr = (0, 0), g_tss = \<lparr>rsp0 = 0, rsp1 = 0, rsp2 = 0, ist = [], iomap_base = 0\<rparr>, gdtr = (0, 0), task_register = 0,
     code_segment = 0, data_segments = 0\<rparr>"

lemma update_numeral: "(x # xs)[numeral v := y] = x # xs[pred_numeral v := y]"
  by (simp add: numeral_eq_Suc)

lemma replicate_9: "replicate 9 x = [x, x, x, x, x, x, x, x, x]"
  by (simp add: numeral_eq_Suc)

text \<open>The boot table: access rights of the segments and the loaded selectors.\<close>

lemma gdt_init_segments:
  "map access (g_gdt (gdt_init ga ta i1 i2 i3 sp st)) = [0, 0x9A, 0x92, 0xFA, 0xF2, 0xFA, 0x89, 0, 0]"
  "code_segment (gdt_init ga ta i1 i2 i3 sp st) = 8" "data_segments (gdt_init ga ta i1 i2 i3 sp st) = 16"
  "task_register (gdt_init ga ta i1 i2 i3 sp st) = 0x30" "gdtr (gdt_init ga ta i1 i2 i3 sp st) = (71, ga)"
  by (simp_all add: gdt_init_def tss_init_def gdt_set_entry_def gdt_set_tss_def tss_set_ist_def gdt_load_tss_def Let_def replicate_9 update_numeral)

section \<open>Interrupt controller\<close>

lemma pic_mask_bits:
  "pic_mask_irq dev irq tr = tr @ [In (pic_port irq), Out (pic_port irq) (set_bit (unat (irq AND 7)) (dev tr (pic_port irq)))]"
  "pic_unmask_irq dev irq tr = tr @ [In (pic_port irq), Out (pic_port irq) (unset_bit (unat (irq AND 7)) (dev tr (pic_port irq)))]"
  by (simp_all add: pic_mask_irq_def pic_unmask_irq_def inb_def outb_def set_bit_eq_or unset_bit_eq_and_not)

text \<open>Interrupts 8 to 15 arrive at vectors 40 to 47; the conversion gives 48 to 55 for them.\<close>

lemma pic_vector_wrong: "pic_irq_to_vector 8 = 48" "pic_irq_to_vector 15 = 55"
  by (simp_all add: pic_irq_to_vector_def)

lemma pit_divisor_range:
  assumes "0 < hz" "hz \<le> PIT_FREQUENCY"
  shows "fst (pit_set_frequency hz tr) \<le> 65535 \<and> (fst (pit_set_frequency hz tr) = 0 \<longleftrightarrow> 65535 < PIT_FREQUENCY div hz)"
  using assms by (auto simp: pit_set_frequency_def Let_def div_eq_0_iff)

section \<open>Clock\<close>

lemma bcd_roundtrip:
  assumes "n < 100"
  shows "bcd_to_binary (of_nat (n div 10 * 16 + n mod 10)) = of_nat n"
proof -
  have "list_all (\<lambda>n. bcd_to_binary (of_nat (n div 10 * 16 + n mod 10)) = of_nat n) [0..<100]"
    by (simp add: bcd_to_binary_def upt_conv_Cons)
  then show ?thesis using assms by (simp add: list_all_iff del: upt_rec_numeral)
qed

text \<open>In the 12 hour BCD format the conversion destroys the afternoon bit before it is tested: 1 pm reads as 81.\<close>

lemma rtc_pm_lost: "rtc_convert_hour 0 0x81 = 81"
  by (simp add: rtc_convert_hour_def bcd_to_binary_def)

end
