(* ===== verification/Gos_Input.thy ===== *)
theory Gos_Input
  imports Gos_Fifo Gos_Platform
begin

text \<open>
  Input and command lines: the keyboard (\<^verbatim>\<open>drivers/keyboard/keyboard.c\<close>), the kernel command line (\<^verbatim>\<open>kernel/cmdline.c\<close>) and the console
  (\<^verbatim>\<open>drivers/console/console.c\<close>). Characters are bytes; a C string is the list of its bytes before the terminator.
\<close>

section \<open>\<^verbatim>\<open>drivers/keyboard/keyboard.c\<close>\<close>

abbreviation "KEYBOARD_BUFFER_SIZE \<equiv> 256 :: nat"

record keyboard =
  key_buffer :: "u8 list"
  key_head :: nat
  key_tail :: nat
  key_shift :: bool
  key_ctrl :: bool
  key_alt :: bool

definition g_scancode_to_ascii :: "u8 list" where
  "g_scancode_to_ascii = [
    0, 0, 49, 50, 51, 52, 53, 54, 55, 56, 57, 48, 45, 61, 8, 9,
    113, 119, 101, 114, 116, 121, 117, 105, 111, 112, 91, 93, 10, 0, 97, 115,
    100, 102, 103, 104, 106, 107, 108, 59, 39, 96, 0, 92, 122, 120, 99, 118,
    98, 110, 109, 44, 46, 47, 0, 42, 0, 32, 0, 0, 0, 0, 0, 0,
    0, 0, 0, 0, 0, 0, 0, 0, 0, 0, 0, 0, 0, 0, 0, 0,
    0, 0, 0, 0, 0, 0, 0, 0, 0, 0, 0] @ replicate 37 0"

definition shifted_digits :: "u8 list" where
  "shifted_digits = [41, 33, 64, 35, 36, 37, 94, 38, 42, 40]"

partial_function (option) keyboard_drain :: "device \<Rightarrow> io list \<Rightarrow> io list option" where
  "keyboard_drain dev tr =
     (case inb dev 0x64 tr of (s, tr) \<Rightarrow>
        if s AND 0x01 \<noteq> 0 then keyboard_drain dev (snd (inb dev 0x60 tr)) else Some tr)"

definition keyboard_init :: "device \<Rightarrow> io list \<Rightarrow> io list option" where
  "keyboard_init dev tr = Option.bind (keyboard_drain dev tr) (\<lambda>tr. Some (pic_unmask_irq dev 1 tr))"

definition key_translate :: "bool \<Rightarrow> bool \<Rightarrow> u8 \<Rightarrow> u8" where
  "key_translate shift ctrl c =
     (let c = (if shift
               then if 97 \<le> c \<and> c \<le> 122 then c - 97 + 65
                    else if 48 \<le> c \<and> c \<le> 57 then shifted_digits ! unat (c - 48) else c
               else c)
      in if ctrl \<and> 97 \<le> c \<and> c \<le> 122 then c - 97 + 1 else c)"

definition key_store :: "u8 \<Rightarrow> keyboard \<Rightarrow> keyboard" where
  "key_store c k =
     (let next = (key_head k + 1) mod KEYBOARD_BUFFER_SIZE in
      if next \<noteq> key_tail k then k\<lparr>key_buffer := (key_buffer k)[key_head k := c], key_head := next\<rparr> else k)"

definition key_event :: "u8 \<Rightarrow> keyboard \<Rightarrow> keyboard" where
  "key_event sc k =
     (if sc AND 0x80 \<noteq> 0
      then let key = sc AND 0x7F;
               k = (if key = 0x2A \<or> key = 0x36 then k\<lparr>key_shift := False\<rparr> else k);
               k = (if key = 0x1D then k\<lparr>key_ctrl := False\<rparr> else k)
           in if key = 0x38 then k\<lparr>key_alt := False\<rparr> else k
      else if sc = 0x2A \<or> sc = 0x36 then k\<lparr>key_shift := True\<rparr>
      else if sc = 0x1D then k\<lparr>key_ctrl := True\<rparr>
      else if sc = 0x38 then k\<lparr>key_alt := True\<rparr>
      else let c = g_scancode_to_ascii ! unat sc in
        if c \<noteq> 0 then key_store (key_translate (key_shift k) (key_ctrl k) c) k else k)"

definition keyboard_handle_irq :: "device \<Rightarrow> keyboard \<times> io list \<Rightarrow> keyboard \<times> io list" where
  "keyboard_handle_irq dev s = (case inb dev 0x60 (snd s) of (sc, tr) \<Rightarrow> (key_event sc (fst s), tr))"

definition pic_handle_irq1 :: "device \<Rightarrow> keyboard \<times> io list \<Rightarrow> keyboard \<times> io list" where
  "pic_handle_irq1 dev s = (case keyboard_handle_irq dev s of (k, tr) \<Rightarrow> (k, pic_send_eoi 1 tr))"

definition keyboard_has_input :: "keyboard \<Rightarrow> bool" where
  "keyboard_has_input k = (key_head k \<noteq> key_tail k)"

definition key_take :: "keyboard \<Rightarrow> u8 \<times> keyboard" where
  "key_take k = (key_buffer k ! key_tail k, k\<lparr>key_tail := (key_tail k + 1) mod KEYBOARD_BUFFER_SIZE\<rparr>)"

text \<open>\<open>irq\<close> is what happens while the processor is halted.\<close>

partial_function (option) keyboard_get_char :: "(keyboard \<Rightarrow> keyboard option) \<Rightarrow> keyboard \<Rightarrow> (u8 \<times> keyboard) option" where
  "keyboard_get_char irq k =
     (if key_head k = key_tail k then Option.bind (irq k) (keyboard_get_char irq) else Some (key_take k))"

partial_function (option) keyboard_get_scancode :: "(keyboard \<Rightarrow> keyboard option) \<Rightarrow> keyboard \<Rightarrow> (u8 \<times> keyboard) option" where
  "keyboard_get_scancode irq k =
     (if key_head k = key_tail k then Option.bind (irq k) (keyboard_get_scancode irq) else Some (key_take k))"

section \<open>\<^verbatim>\<open>kernel/cmdline.c\<close>\<close>

abbreviation "SP \<equiv> 32 :: u8"

text \<open>Skipping spaces, then everything up to the next space.\<close>

abbreviation skip_spaces :: "u8 list \<Rightarrow> u8 list" where
  "skip_spaces p \<equiv> dropWhile (\<lambda>c. c = SP) p"

abbreviation skip_token :: "u8 list \<Rightarrow> u8 list" where
  "skip_token p \<equiv> dropWhile (\<lambda>c. c \<noteq> SP) p"

lemma skip_shorter: "skip_spaces p \<noteq> [] \<Longrightarrow> length (skip_token (skip_spaces p)) < length p"
proof -
  assume a: "skip_spaces p \<noteq> []"
  then have "hd (skip_spaces p) \<noteq> SP" using hd_dropWhile[OF a] by simp
  then obtain c q where q: "skip_spaces p = c # q" "c \<noteq> SP" using a by (cases "skip_spaces p") auto
  have "length (skip_token (c # q)) \<le> length q" using q(2) length_dropWhile_le[of _ q] by simp
  moreover have "length (c # q) \<le> length p" using length_dropWhile_le[of "\<lambda>c. c = SP" p] q(1) by simp
  ultimately show ?thesis using q(1) by simp
qed

function cmd_tokens :: "u8 list \<Rightarrow> u8 list list" where
  "cmd_tokens p =
     (let q = skip_spaces p in
      if q = [] then [] else takeWhile (\<lambda>c. c \<noteq> SP) q # cmd_tokens (skip_token q))"
  by pat_completeness auto
termination
  by (relation "measure length") (auto intro: skip_shorter)

declare cmd_tokens.simps [simp del]

datatype cmd_arg = CmdValue "u8 list" "u8 list" | CmdFlag "u8 list"

definition cmd_arg_of :: "u8 list \<Rightarrow> cmd_arg" where
  "cmd_arg_of t =
     (let token = take 255 t in
      if (61 :: u8) \<in> set token
      then CmdValue (takeWhile (\<lambda>c. c \<noteq> 61) token) (drop 1 (dropWhile (\<lambda>c. c \<noteq> 61) token)) else CmdFlag token)"

text \<open>The new \<^verbatim>\<open>g_cmdline\<close> and what is logged.\<close>

definition cmdline_parse :: "u8 list option \<Rightarrow> u8 list option \<Rightarrow> u8 list option \<times> cmd_arg list" where
  "cmdline_parse cmdline g_cmdline =
     (case cmdline of None \<Rightarrow> (g_cmdline, [])
      | Some s \<Rightarrow> if s = [] then (g_cmdline, []) else (Some s, map cmd_arg_of (cmd_tokens s)))"

text \<open>
  After the last token the scan reaches the end of the string; the comparison there is with the empty string.
\<close>

function has_flag_loop :: "u8 list \<Rightarrow> u8 list \<Rightarrow> bool" where
  "has_flag_loop flag p =
     (if p = [] then False
      else let q = skip_spaces p in
        if take (length flag) q = flag \<and> (drop (length flag) q = [] \<or> hd (drop (length flag) q) = SP) then True
        else if q = [] then False else has_flag_loop flag (skip_token q))"
  by pat_completeness auto
termination
  by (relation "measure (length \<circ> snd)") (auto intro: skip_shorter)

declare has_flag_loop.simps [simp del]

definition cmdline_has_flag :: "u8 list \<Rightarrow> u8 list option \<Rightarrow> bool" where
  "cmdline_has_flag flag g_cmdline = (case g_cmdline of None \<Rightarrow> False | Some p \<Rightarrow> has_flag_loop flag p)"

function get_value_loop :: "u8 list \<Rightarrow> u8 list \<Rightarrow> u8 list option" where
  "get_value_loop key p =
     (if p = [] then None
      else let q = skip_spaces p in
        if take (length key) q = key \<and> drop (length key) q \<noteq> [] \<and> hd (drop (length key) q) = 61 then Some (drop (length key + 1) q)
        else if q = [] then None else get_value_loop key (skip_token q))"
  by pat_completeness auto
termination
  by (relation "measure (length \<circ> snd)") (auto intro: skip_shorter)

declare get_value_loop.simps [simp del]

definition cmdline_get_value :: "u8 list \<Rightarrow> u8 list option \<Rightarrow> u8 list option" where
  "cmdline_get_value key g_cmdline = (case g_cmdline of None \<Rightarrow> None | Some p \<Rightarrow> get_value_loop key p)"

section \<open>\<^verbatim>\<open>drivers/console/console.c\<close>\<close>

abbreviation "MAX_COMMANDS \<equiv> 16 :: nat"
abbreviation "CONSOLE_CMD_MAX_LEN \<equiv> 256 :: nat"

text \<open>The handler of a command is an identifier, \<open>None\<close> for \<^verbatim>\<open>NULL\<close>.\<close>

record console_cmd =
  cmd_name :: "u8 list"
  cmd_help_text :: "u8 list"
  cmd_handler :: "nat option"

record console =
  g_commands :: "console_cmd list"
  g_cmd_count :: nat

definition console_register_command :: "u8 list \<Rightarrow> u8 list \<Rightarrow> nat option \<Rightarrow> console \<Rightarrow> console" where
  "console_register_command name help handler st =
     (if g_cmd_count st \<ge> MAX_COMMANDS then st
      else st\<lparr>g_commands := (g_commands st)[g_cmd_count st :=
             \<lparr>cmd_name = strn_field 32 name, cmd_help_text = strn_field 128 help, cmd_handler = handler\<rparr>],
           g_cmd_count := g_cmd_count st + 1\<rparr>)"

definition console_init :: "console \<Rightarrow> console" where
  "console_init st =
     (let st = st\<lparr>g_commands := map (\<lambda>c. c\<lparr>cmd_name := (cmd_name c)[0 := 0]\<rparr>) (g_commands st)\<rparr>;
          st = console_register_command (bytes ''help'') (bytes ''Show available commands'') (Some 0) st;
          st = console_register_command (bytes ''reboot'') (bytes ''Reboot the system'') (Some 1) st;
          st = console_register_command (bytes ''shutdown'') (bytes ''Shutdown the system'') (Some 2) st;
          st = console_register_command (bytes ''meminfo'') (bytes ''Show memory info'') (Some 3) st;
          st = console_register_command (bytes ''pci'') (bytes ''List PCI devices'') (Some 4) st
      in console_register_command (bytes ''proc'') (bytes ''List processes'') (Some 5) st)"

function parse_args :: "nat \<Rightarrow> u8 list \<Rightarrow> u8 list list" where
  "parse_args room p =
     (if p = [] \<or> room = 0 then []
      else let q = skip_spaces p in
        if q = [] then [] else takeWhile (\<lambda>c. c \<noteq> SP) q # parse_args (room - 1) (drop 1 (skip_token q)))"
  by pat_completeness auto
termination
  by (relation "measure fst") auto

declare parse_args.simps [simp del]

datatype console_result = Ignored | Called "nat option" "u8 list list" | Unknown "u8 list"

definition console_process_line :: "u8 list option \<Rightarrow> console \<Rightarrow> console_result" where
  "console_process_line line st =
     (case line of None \<Rightarrow> Ignored
      | Some l \<Rightarrow>
          if l = [] then Ignored
          else let argv = parse_args 16 (take (CONSOLE_CMD_MAX_LEN - 1) l) in
            if argv = [] then Ignored
            else case find (\<lambda>i. takeWhile (\<lambda>c. c \<noteq> 0) (cmd_name (g_commands st ! i)) = hd argv) [0..<g_cmd_count st] of
                   Some i \<Rightarrow> Called (cmd_handler (g_commands st ! i)) argv
                 | None \<Rightarrow> Unknown (hd argv))"

text \<open>One character of \<^verbatim>\<open>console_run\<close>: the new line buffer, what is echoed and the line that is executed, if any.\<close>

definition console_key :: "u8 \<Rightarrow> u8 list \<Rightarrow> u8 list \<times> u8 list \<times> u8 list option" where
  "console_key c line =
     (if c = 0 then (line, [], None)
      else if c = 10 \<or> c = 13 then ([], [13, 10], Some line)
      else if c = 8 \<or> c = 127 then if length line > 0 then (butlast line, [8, 32, 8], None) else (line, [], None)
      else if length line < CONSOLE_CMD_MAX_LEN - 1 then (line @ [c], [c], None)
      else (line, [], None))"

definition cmd_help :: "console \<Rightarrow> u8 list list" where
  "cmd_help st = bytes ''Available commands:'' # map (\<lambda>i. bytes ''  '' @ takeWhile (\<lambda>c. c \<noteq> 0) (cmd_name (g_commands st ! i)) @ bytes '' - '' @
     takeWhile (\<lambda>c. c \<noteq> 0) (cmd_help_text (g_commands st ! i))) [0..<g_cmd_count st]"

section \<open>The key buffer is a bounded queue\<close>

definition kb_inv :: "keyboard \<Rightarrow> bool" where
  "kb_inv k \<longleftrightarrow> length (key_buffer k) = KEYBOARD_BUFFER_SIZE \<and> key_head k < KEYBOARD_BUFFER_SIZE \<and> key_tail k < KEYBOARD_BUFFER_SIZE"

definition kb_elems :: "keyboard \<Rightarrow> u8 list" where
  "kb_elems k = circ (key_buffer k) KEYBOARD_BUFFER_SIZE (key_tail k) (dist KEYBOARD_BUFFER_SIZE (key_tail k) (key_head k))"

definition key_push :: "keyboard \<Rightarrow> u8 \<Rightarrow> (bool \<times> keyboard) res" where
  "key_push k c = Inr (Suc (key_head k) mod KEYBOARD_BUFFER_SIZE \<noteq> key_tail k, key_store c k)"

definition key_pop :: "keyboard \<Rightarrow> (u8 option \<times> keyboard) res" where
  "key_pop k = Inr (if keyboard_has_input k then (Some (fst (key_take k)), snd (key_take k)) else (None, k))"

interpretation kb: bounded_fifo kb_inv kb_elems "\<lambda>_. KEYBOARD_BUFFER_SIZE - 1" key_push key_pop
proof
  fix s :: keyboard and x :: u8
  assume inv: "kb_inv s"
  have c: "key_tail s < KEYBOARD_BUFFER_SIZE" "key_head s < KEYBOARD_BUFFER_SIZE" "length (key_buffer s) = KEYBOARD_BUFFER_SIZE"
    using inv by (auto simp: kb_inv_def)
  note d = dist_props[OF c(1,2)]
  have l: "length (kb_elems s) = dist KEYBOARD_BUFFER_SIZE (key_tail s) (key_head s)" by (simp add: kb_elems_def)
  show "length (kb_elems s) \<le> KEYBOARD_BUFFER_SIZE - 1" using l d(1) by simp
  show "\<not> length (kb_elems s) < KEYBOARD_BUFFER_SIZE - 1 \<Longrightarrow> key_push s x = Inr (False, s)"
    using l d(1,3) by (simp add: key_push_def key_store_def)
  show "length (kb_elems s) < KEYBOARD_BUFFER_SIZE - 1 \<Longrightarrow> \<exists>s'. key_push s x = Inr (True, s') \<and> kb_inv s' \<and>
      kb_elems s' = kb_elems s @ [x] \<and> KEYBOARD_BUFFER_SIZE - 1 = KEYBOARD_BUFFER_SIZE - 1"
  proof -
    assume "length (kb_elems s) < KEYBOARD_BUFFER_SIZE - 1"
    then have n: "Suc (key_head s) mod KEYBOARD_BUFFER_SIZE \<noteq> key_tail s" using l d(3) by simp
    have "kb_elems (key_store x s) = kb_elems s @ [x]"
      using circ_push[OF c(1,2) n c(3), of x] n by (simp add: kb_elems_def key_store_def Let_def)
    then show ?thesis using n inv by (simp add: key_push_def kb_inv_def key_store_def Let_def)
  qed
  show "kb_elems s = [] \<Longrightarrow> key_pop s = Inr (None, s)"
    using l d(2) by (simp add: key_pop_def keyboard_has_input_def)
  show "kb_elems s = y # ys \<Longrightarrow> \<exists>s'. key_pop s = Inr (Some y, s') \<and> kb_inv s' \<and> kb_elems s' = ys \<and>
      KEYBOARD_BUFFER_SIZE - 1 = KEYBOARD_BUFFER_SIZE - 1" for y ys
  proof -
    assume e: "kb_elems s = y # ys"
    then have n: "key_head s \<noteq> key_tail s" using l d(2) by fastforce
    have "kb_elems s = fst (key_take s) # kb_elems (snd (key_take s))"
      using circ_pop[OF c(1,2) n, of "key_buffer s"] by (simp add: kb_elems_def key_take_def)
    then show ?thesis using e n inv by (simp add: key_pop_def keyboard_has_input_def kb_inv_def key_take_def)
  qed
qed

lemma key_event_inv: "kb_inv k \<Longrightarrow> kb_inv (key_event sc k)"
  by (simp add: key_event_def key_store_def kb_inv_def Let_def)

text \<open>A key press that has a character appends its translation, unless the buffer is full; every other event leaves the buffer alone.\<close>

lemma key_event_elems:
  assumes "kb_inv k"
  shows "kb_elems (key_event sc k) = kb_elems k \<or>
    (sc AND 0x80 = 0 \<and> kb_elems (key_event sc k) = kb_elems k @ [key_translate (key_shift k) (key_ctrl k) (g_scancode_to_ascii ! unat sc)])"
proof -
  have s: "kb_elems (key_store c k) = kb_elems k \<or> kb_elems (key_store c k) = kb_elems k @ [c]" for c
  proof (cases "length (kb_elems k) < KEYBOARD_BUFFER_SIZE - 1")
    case True
    then show ?thesis using kb.push_ok[OF assms, of c] by (auto simp: key_push_def)
  next
    case False
    then show ?thesis using kb.push_full[OF assms False, of c] by (simp add: key_push_def)
  qed
  have f: "kb_elems (k\<lparr>key_shift := b\<rparr>) = kb_elems k" "kb_elems (k\<lparr>key_ctrl := b\<rparr>) = kb_elems k" "kb_elems (k\<lparr>key_alt := b\<rparr>) = kb_elems k"
    "kb_elems (k\<lparr>key_shift := b, key_ctrl := b'\<rparr>) = kb_elems k" for b b' by (simp_all add: kb_elems_def)
  show ?thesis using s[of "key_translate (key_shift k) (key_ctrl k) (g_scancode_to_ascii ! unat sc)"]
    by (simp add: key_event_def Let_def f)
qed

text \<open>Shift and control: the letter, its capital, its control character, and a shifted digit.\<close>

lemma key_translate_examples:
  "map (\<lambda>(s, c). key_translate s c (g_scancode_to_ascii ! 0x1E)) [(False, False), (True, False), (False, True)] = [97, 65, 1]"
  "key_translate True False (g_scancode_to_ascii ! 0x03) = 64"
  by (simp_all add: key_translate_def g_scancode_to_ascii_def shifted_digits_def Let_def)

section \<open>Command lines\<close>

lemma takeWhile_token: "SP \<notin> set t \<Longrightarrow> u = [] \<or> hd u = SP \<Longrightarrow> takeWhile (\<lambda>c. c \<noteq> SP) (t @ u) = t"
  by (induction t) (cases u; auto)+

lemma take_prefix_token:
  assumes "SP \<notin> set t" "q = w @ r" "SP \<notin> set w" "r = [] \<or> hd r = SP"
  shows "take (length t) q = t \<and> (drop (length t) q = [] \<or> hd (drop (length t) q) = SP) \<longleftrightarrow> t = w"
proof
  assume a: "take (length t) q = t \<and> (drop (length t) q = [] \<or> hd (drop (length t) q) = SP)"
  define u where "u = drop (length t) q"
  have q: "q = t @ u" "u = [] \<or> hd u = SP" using a append_take_drop_id[of "length t" q] by (auto simp: u_def)
  have "takeWhile (\<lambda>c. c \<noteq> SP) (t @ u) = t" by (rule takeWhile_token[OF assms(1) q(2)])
  moreover have "takeWhile (\<lambda>c. c \<noteq> SP) (w @ r) = w" by (rule takeWhile_token[OF assms(3,4)])
  ultimately show "t = w" using q(1) assms(2) by simp
qed (use assms in auto)

lemma has_flag_tokens:
  assumes "flag \<noteq> []" "SP \<notin> set flag"
  shows "has_flag_loop flag p \<longleftrightarrow> flag \<in> set (cmd_tokens p)"
proof (induction "length p" arbitrary: p rule: less_induct)
  case less
  let ?q = "skip_spaces p"
  show ?case
  proof (cases "?q = []")
    case True
    have "\<not> has_flag_loop flag p" using assms(1) by (subst has_flag_loop.simps) (simp add: Let_def True)
    moreover have "cmd_tokens p = []" by (subst cmd_tokens.simps) (simp add: Let_def True)
    ultimately show ?thesis by simp
  next
    case False
    let ?w = "takeWhile (\<lambda>c. c \<noteq> SP) ?q" and ?r = "skip_token ?q"
    have "SP \<notin> set ?w" by (auto dest: set_takeWhileD)
    moreover have "?r = [] \<or> hd ?r = SP" using hd_dropWhile[of "\<lambda>c. c \<noteq> SP" ?q] by blast
    ultimately have e: "take (length flag) ?q = flag \<and> (drop (length flag) ?q = [] \<or> hd (drop (length flag) ?q) = SP) \<longleftrightarrow> flag = ?w"
      using take_prefix_token[OF assms(2), of ?q ?w ?r] by simp
    have p: "p \<noteq> []" using False by auto
    have t: "cmd_tokens p = ?w # cmd_tokens ?r" using False by (subst cmd_tokens.simps) (simp add: Let_def)
    have "has_flag_loop flag p = (flag = ?w \<or> has_flag_loop flag ?r)"
      unfolding has_flag_loop.simps[of flag p] Let_def e using p False by (simp only: if_False if_True split: if_split) blast
    then show ?thesis using less[OF skip_shorter[OF False]] t by auto
  qed
qed

lemma skip_spaces_drop: "r = [] \<or> hd r = SP \<Longrightarrow> skip_spaces (drop 1 r) = skip_spaces r"
  by (cases r) auto

lemma parse_args_tokens: "parse_args n p = take n (cmd_tokens p)"
proof (induction n arbitrary: p)
  case 0
  then show ?case by (subst parse_args.simps) simp
next
  case (Suc n)
  let ?q = "skip_spaces p"
  show ?case
  proof (cases "?q = []")
    case True
    then show ?thesis by (subst parse_args.simps, subst cmd_tokens.simps) (auto simp: Let_def)
  next
    case False
    let ?r = "skip_token ?q"
    have r: "?r = [] \<or> hd ?r = SP" using hd_dropWhile[of "\<lambda>c. c \<noteq> SP" ?q] by blast
    have "cmd_tokens (drop 1 ?r) = cmd_tokens ?r"
      by (subst (1 2) cmd_tokens.simps) (simp only: skip_spaces_drop[OF r])
    moreover have "parse_args (Suc n) p = takeWhile (\<lambda>c. c \<noteq> SP) ?q # parse_args n (drop 1 ?r)"
      using False by (subst parse_args.simps) (auto simp: Let_def)
    moreover have "cmd_tokens p = takeWhile (\<lambda>c. c \<noteq> SP) ?q # cmd_tokens ?r" using False by (subst cmd_tokens.simps) (simp add: Let_def)
    ultimately show ?thesis using Suc.IH by simp
  qed
qed

text \<open>A flag is found exactly if it is one of the space-separated words of the kernel command line, and the console
  splits its lines into the same words, up to its limit of arguments.\<close>

lemma flag_is_token:
  assumes "flag \<noteq> []" "SP \<notin> set flag"
  shows "(cmdline_has_flag flag (Some p) \<longleftrightarrow> flag \<in> set (cmd_tokens p)) \<and> parse_args n p = take n (cmd_tokens p)"
  using has_flag_tokens[OF assms] parse_args_tokens by (simp add: cmdline_has_flag_def)

text \<open>The value returned for a key runs to the end of the command line, over all later arguments.\<close>

lemma get_value_unterminated: "cmdline_get_value (bytes ''a'') (Some (bytes ''a=1 b=2'')) = Some (bytes ''1 b=2'')"
  by (simp add: cmdline_get_value_def bytes_def get_value_loop.simps)

lemma console_line_bound:
  assumes "length line < CONSOLE_CMD_MAX_LEN"
  shows "length (fst (console_key c line)) < CONSOLE_CMD_MAX_LEN"
  using assms by (auto simp: console_key_def)

end
