(* ===== verification/Gos_Serial.thy ===== *)
theory Gos_Serial
  imports Gos_Platform
begin

text \<open>
  The serial port of \<^verbatim>\<open>drivers/serial\<close>: detection and set-up of the UART, polled output and
  input, and its interrupt routine, on the port trace of \<^theory_text>\<open>Gos_Platform\<close>. What a port read returns
  is the device's answer to the trace so far. Polling may not end: \<^const>\<open>None\<close>. Log messages are left out.
\<close>

abbreviation (input) "SERIAL_COM1 \<equiv> 0x3F8 :: nat"
abbreviation (input) "UART_DATA \<equiv> 0 :: nat"
abbreviation (input) "UART_IER \<equiv> 1 :: nat"
abbreviation (input) "UART_IIR \<equiv> 2 :: nat"
abbreviation (input) "UART_FCR \<equiv> 2 :: nat"
abbreviation (input) "UART_LCR \<equiv> 3 :: nat"
abbreviation (input) "UART_MCR \<equiv> 4 :: nat"
abbreviation (input) "UART_LSR \<equiv> 5 :: nat"
abbreviation (input) "UART_SCRATCH \<equiv> 7 :: nat"
abbreviation (input) "UART_LSR_DR \<equiv> 0x01 :: u8"
abbreviation (input) "UART_LSR_THRE \<equiv> 0x20 :: u8"

record serial =
  serial_ready :: bool
  strace :: "io list"

definition serial_port_exists :: "device \<Rightarrow> nat \<Rightarrow> io list \<Rightarrow> bool \<times> io list" where
  "serial_port_exists dev port tr =
     (case inb dev (port + UART_SCRATCH) (io_wait (outb (port + UART_SCRATCH) 0xAB tr)) of (v, tr) \<Rightarrow> (v = 0xAB, tr))"

definition serial_init :: "device \<Rightarrow> serial \<Rightarrow> serial" where
  "serial_init dev s =
     (case serial_port_exists dev SERIAL_COM1 (strace s) of (present, tr) \<Rightarrow>
        if \<not> present then s\<lparr>strace := tr\<rparr>
        else let tr = outb (SERIAL_COM1 + UART_IER) 0x00 tr;
                 tr = outb (SERIAL_COM1 + UART_LCR) 0x80 tr;
                 tr = outb (SERIAL_COM1 + UART_DATA) 0x01 tr;
                 tr = outb (SERIAL_COM1 + UART_IER) 0x00 tr;
                 tr = outb (SERIAL_COM1 + UART_LCR) 0x03 tr;
                 tr = outb (SERIAL_COM1 + UART_FCR) (0x01 OR 0x02 OR 0x04 OR 0xC0) tr;
                 tr = outb (SERIAL_COM1 + UART_MCR) (0x01 OR 0x02 OR 0x08) tr
             in s\<lparr>serial_ready := True, strace := snd (inb dev (SERIAL_COM1 + UART_IIR) tr)\<rparr>)"

definition serial_is_initialized :: "serial \<Rightarrow> bool" where
  "serial_is_initialized s = serial_ready s"

definition serial_ready_to_write :: "device \<Rightarrow> io list \<Rightarrow> bool \<times> io list" where
  "serial_ready_to_write dev tr = (case inb dev (SERIAL_COM1 + UART_LSR) tr of (v, tr) \<Rightarrow> (v AND UART_LSR_THRE \<noteq> 0, tr))"

definition serial_ready_to_read :: "device \<Rightarrow> io list \<Rightarrow> bool \<times> io list" where
  "serial_ready_to_read dev tr = (case inb dev (SERIAL_COM1 + UART_LSR) tr of (v, tr) \<Rightarrow> (v AND UART_LSR_DR \<noteq> 0, tr))"

partial_function (option) serial_poll :: "(io list \<Rightarrow> bool \<times> io list) \<Rightarrow> io list \<Rightarrow> io list option" where
  "serial_poll ready tr = (case ready tr of (b, tr') \<Rightarrow> if b then Some tr' else serial_poll ready tr')"

definition serial_putc :: "device \<Rightarrow> u8 \<Rightarrow> serial \<Rightarrow> serial option" where
  "serial_putc dev c s =
     (if \<not> serial_ready s then Some s
      else map_option (\<lambda>tr. s\<lparr>strace := outb (SERIAL_COM1 + UART_DATA) c tr\<rparr>)
             (serial_poll (serial_ready_to_write dev) (strace s)))"

fun serial_puts_loop :: "device \<Rightarrow> u8 list \<Rightarrow> serial \<Rightarrow> serial option" where
  "serial_puts_loop dev [] s = Some s"
| "serial_puts_loop dev (c # cs) s =
     (if c = 0 then Some s
      else Option.bind (if c = 10 then serial_putc dev 13 s else Some s) (\<lambda>s.
           Option.bind (serial_putc dev c s) (serial_puts_loop dev cs)))"

text \<open>The argument is the text up to its NUL, \<^const>\<open>None\<close> for a null pointer.\<close>

definition serial_puts :: "device \<Rightarrow> u8 list option \<Rightarrow> serial \<Rightarrow> serial option" where
  "serial_puts dev str s = (case str of None \<Rightarrow> Some s | Some cs \<Rightarrow> serial_puts_loop dev cs s)"

fun serial_putcs :: "device \<Rightarrow> u8 list \<Rightarrow> serial \<Rightarrow> serial option" where
  "serial_putcs dev [] s = Some s"
| "serial_putcs dev (c # cs) s = Option.bind (serial_putc dev c s) (serial_putcs dev cs)"

definition hex_nibble :: "u64 \<Rightarrow> nat \<Rightarrow> u8" where
  "hex_nibble v i = (let n = ucast (drop_bit (i * 4) v) AND 0xF :: u8 in if n < 10 then 48 + n else 65 + n - 10)"

definition serial_puthex :: "device \<Rightarrow> u64 \<Rightarrow> serial \<Rightarrow> serial option" where
  "serial_puthex dev v s =
     Option.bind (serial_puts dev (Some (bytes ''0x'')) s) (serial_putcs dev (map (hex_nibble v) (rev [0..<16])))"

text \<open>The digits in the order they are stored in the buffer, least significant first.\<close>

fun putdec_digits :: "nat \<Rightarrow> u8 list" where
  "putdec_digits v = (if v = 0 then [] else of_nat (48 + v mod 10) # putdec_digits (v div 10))"

declare putdec_digits.simps [simp del]

definition serial_putdec :: "device \<Rightarrow> u64 \<Rightarrow> serial \<Rightarrow> serial option" where
  "serial_putdec dev v s =
     (if v = 0 then serial_putc dev 48 s else serial_putcs dev (rev (putdec_digits (unat v))) s)"

definition serial_getc :: "device \<Rightarrow> serial \<Rightarrow> (u8 \<times> serial) option" where
  "serial_getc dev s =
     (if \<not> serial_ready s then Some (0, s)
      else map_option (\<lambda>tr. case inb dev (SERIAL_COM1 + UART_DATA) tr of (v, tr) \<Rightarrow> (v, s\<lparr>strace := tr\<rparr>))
             (serial_poll (serial_ready_to_read dev) (strace s)))"

partial_function (option) serial_drain :: "device \<Rightarrow> serial \<Rightarrow> serial option" where
  "serial_drain dev s =
     (case serial_ready_to_read dev (strace s) of (b, tr) \<Rightarrow>
        if \<not> b then Some (s\<lparr>strace := tr\<rparr>)
        else Option.bind (serial_getc dev (s\<lparr>strace := tr\<rparr>)) (\<lambda>r. serial_drain dev (snd r)))"

definition serial_handle_irq :: "device \<Rightarrow> serial \<Rightarrow> serial option" where
  "serial_handle_irq dev s =
     (case inb dev (SERIAL_COM1 + UART_IIR) (strace s) of (iir, tr) \<Rightarrow>
        let s = s\<lparr>strace := tr\<rparr> in
        if iir AND 0x01 = 0 \<and> drop_bit 1 iir AND 0x07 = 4 then serial_drain dev s else Some s)"

definition serial_enable_interrupts :: "serial \<Rightarrow> serial" where
  "serial_enable_interrupts s = s\<lparr>strace := outb (SERIAL_COM1 + UART_IER) (0x01 OR 0x02) (strace s)\<rparr>"

definition serial_disable_interrupts :: "serial \<Rightarrow> serial" where
  "serial_disable_interrupts s = s\<lparr>strace := outb (SERIAL_COM1 + UART_IER) 0x00 (strace s)\<rparr>"

definition serial_handle_irq0 :: "device \<Rightarrow> serial \<Rightarrow> serial option" where
  "serial_handle_irq0 dev s = map_option (\<lambda>s. s\<lparr>strace := pic_send_eoi 4 (strace s)\<rparr>) (serial_handle_irq dev s)"

section \<open>What is sent\<close>

text \<open>The bytes a trace sends, and the UART's promise that its transmitter becomes empty again.\<close>

definition sent :: "io list \<Rightarrow> u8 list" where
  "sent tr = concat (map (\<lambda>x. case x of Out p v \<Rightarrow> if p = SERIAL_COM1 then [v] else [] | _ \<Rightarrow> []) tr)"

definition transmits :: "device \<Rightarrow> bool" where
  "transmits dev \<longleftrightarrow> (\<forall>tr. \<exists>n. dev (tr @ replicate n (In (SERIAL_COM1 + UART_LSR))) (SERIAL_COM1 + UART_LSR) AND UART_LSR_THRE \<noteq> 0)"

definition crlf :: "u8 list \<Rightarrow> u8 list" where
  "crlf cs = concat (map (\<lambda>c. if c = 10 then [13, 10] else [c]) (takeWhile (\<lambda>c. c \<noteq> 0) cs))"

lemma sent_append [simp]: "sent (xs @ ys) = sent xs @ sent ys"
  by (simp add: sent_def)

lemma sent_simps [simp]: "sent [] = []" "sent [In p] = []" "sent [Out SERIAL_COM1 v] = [v]" "sent (replicate n (In p)) = []"
  by (simp_all add: sent_def)

lemma poll_ends:
  assumes "dev (tr @ replicate n (In (SERIAL_COM1 + UART_LSR))) (SERIAL_COM1 + UART_LSR) AND UART_LSR_THRE \<noteq> 0"
  shows "\<exists>k. serial_poll (serial_ready_to_write dev) tr = Some (tr @ replicate k (In (SERIAL_COM1 + UART_LSR)))"
  using assms
proof (induction n arbitrary: tr)
  case 0
  then show ?case by (subst serial_poll.simps) (auto simp: serial_ready_to_write_def inb_def intro!: exI[of _ 1])
next
  case (Suc n)
  let ?p = "In (SERIAL_COM1 + UART_LSR)"
  have "dev ((tr @ [?p]) @ replicate n ?p) (SERIAL_COM1 + UART_LSR) AND UART_LSR_THRE \<noteq> 0" using Suc.prems by simp
  from Suc.IH[OF this] obtain k where k: "serial_poll (serial_ready_to_write dev) (tr @ [?p]) = Some (tr @ replicate (Suc k) ?p)" by auto
  show ?case
  proof (cases "dev tr (SERIAL_COM1 + UART_LSR) AND UART_LSR_THRE = 0")
    case True
    then show ?thesis using k by (subst serial_poll.simps) (auto simp: serial_ready_to_write_def inb_def intro!: exI[of _ "Suc k"])
  next
    case False
    then show ?thesis by (subst serial_poll.simps) (auto simp: serial_ready_to_write_def inb_def intro!: exI[of _ 1])
  qed
qed

lemma putc_sends:
  assumes "transmits dev" "serial_ready s"
  shows "\<exists>s'. serial_putc dev c s = Some s' \<and> serial_ready s' \<and> sent (strace s') = sent (strace s) @ [c]"
proof -
  obtain n where "dev (strace s @ replicate n (In (SERIAL_COM1 + UART_LSR))) (SERIAL_COM1 + UART_LSR) AND UART_LSR_THRE \<noteq> 0"
    using assms(1) unfolding transmits_def by blast
  from poll_ends[of dev "strace s" n, OF this] obtain k where
    k: "serial_poll (serial_ready_to_write dev) (strace s) = Some (strace s @ replicate k (In (SERIAL_COM1 + UART_LSR)))" ..
  show ?thesis using assms(2) by (simp add: serial_putc_def k outb_def)
qed

lemma puts_loop_sends:
  "transmits dev \<Longrightarrow> serial_ready s \<Longrightarrow>
     \<exists>s'. serial_puts_loop dev cs s = Some s' \<and> serial_ready s' \<and> sent (strace s') = sent (strace s) @ crlf cs"
proof (induction cs arbitrary: s)
  case Nil then show ?case by (simp add: crlf_def)
next
  case (Cons c cs)
  show ?case
  proof (cases "c = 0")
    case True then show ?thesis using Cons.prems by (simp add: crlf_def)
  next
    case False
    obtain s1 where s1: "(if c = 10 then serial_putc dev 13 s else Some s) = Some s1" "serial_ready s1"
      "sent (strace s1) = sent (strace s) @ (if c = 10 then [13] else [])"
      using putc_sends[OF Cons.prems, of 13] Cons.prems(2) by (cases "c = 10") auto
    obtain s2 where s2: "serial_putc dev c s1 = Some s2" "serial_ready s2" "sent (strace s2) = sent (strace s1) @ [c]"
      using putc_sends[OF Cons.prems(1) s1(2)] by blast
    obtain s3 where s3: "serial_puts_loop dev cs s2 = Some s3" "serial_ready s3" "sent (strace s3) = sent (strace s2) @ crlf cs"
      using Cons.IH[OF Cons.prems(1) s2(2)] by blast
    show ?thesis using False s1 s2 s3 by (auto simp: crlf_def)
  qed
qed

lemma putcs_sends:
  "transmits dev \<Longrightarrow> serial_ready s \<Longrightarrow>
     \<exists>s'. serial_putcs dev cs s = Some s' \<and> serial_ready s' \<and> sent (strace s') = sent (strace s) @ cs"
proof (induction cs arbitrary: s)
  case (Cons c cs)
  obtain s1 where s1: "serial_putc dev c s = Some s1" "serial_ready s1" "sent (strace s1) = sent (strace s) @ [c]"
    using putc_sends[OF Cons.prems] by blast
  then show ?case using Cons.IH[OF Cons.prems(1) s1(2)] by auto
qed simp

text \<open>Reading decimal digits back.\<close>

definition decimal :: "u8 list \<Rightarrow> nat" where
  "decimal ds = foldl (\<lambda>a d. 10 * a + (unat d - 48)) 0 ds"

lemma digit_byte: "m < 10 \<Longrightarrow> unat (of_nat (48 + m) :: u8) = 48 + m"
  by (simp add: unat_of_nat del: of_nat_add)

lemma putdec_digits_ok: "decimal (rev (putdec_digits v)) = v \<and> (\<forall>d\<in>set (putdec_digits v). 48 \<le> unat d \<and> unat d \<le> 57) \<and>
    (v \<noteq> 0 \<longrightarrow> putdec_digits v \<noteq> [] \<and> last (putdec_digits v) \<noteq> 48)"
proof (induction v rule: putdec_digits.induct)
  case (1 v)
  show ?case
  proof (cases "v = 0")
    case True then show ?thesis by (simp add: putdec_digits.simps decimal_def)
  next
    case False
    note IH = 1[OF False]
    have d: "unat (of_nat (48 + v mod 10) :: u8) = 48 + v mod 10" by (rule digit_byte) simp
    have e: "putdec_digits v = of_nat (48 + v mod 10) # putdec_digits (v div 10)" using False by (subst putdec_digits.simps) simp
    have "decimal (rev (putdec_digits v)) = 10 * (v div 10) + v mod 10" using IH d unfolding e decimal_def by (simp del: of_nat_add)
    moreover have "last (putdec_digits v) \<noteq> 48"
    proof (cases "v div 10 = 0")
      case True
      then have "unat (last (putdec_digits v)) = 48 + v" using d \<open>v \<noteq> 0\<close> by (simp add: e putdec_digits.simps div_eq_0_iff del: of_nat_add)
      then show ?thesis using False by auto
    next
      case False
      then show ?thesis using IH by (simp add: e)
    qed
    moreover have "\<forall>x\<in>set (putdec_digits v). 48 \<le> unat x \<and> unat x \<le> 57" using IH d unfolding e by (simp del: of_nat_add)
    ultimately show ?thesis using e by simp
  qed
qed

text \<open>C22 (serial_output): after the port has been initialised, on a UART whose transmitter keeps becoming empty, \<^verbatim>\<open>serial_puts\<close> returns and has sent the
  text up to its NUL with a carriage return before each line feed, and \<^verbatim>\<open>serial_putdec\<close> returns and has sent the decimal
  digits of its argument without leading zeros.\<close>

theorem serial_output:
  assumes "transmits dev" "serial_ready s"
  shows "(\<exists>s'. serial_puts dev (Some cs) s = Some s' \<and> sent (strace s') = sent (strace s) @ crlf cs) \<and>
    (\<exists>s' ds. serial_putdec dev v s = Some s' \<and> sent (strace s') = sent (strace s) @ ds \<and> decimal ds = unat v \<and>
       (\<forall>d\<in>set ds. 48 \<le> unat d \<and> unat d \<le> 57) \<and> ds \<noteq> [] \<and> (v \<noteq> 0 \<longrightarrow> hd ds \<noteq> 48))"
proof -
  have "\<exists>s' ds. serial_putdec dev v s = Some s' \<and> sent (strace s') = sent (strace s) @ ds \<and> decimal ds = unat v \<and>
       (\<forall>d\<in>set ds. 48 \<le> unat d \<and> unat d \<le> 57) \<and> ds \<noteq> [] \<and> (v \<noteq> 0 \<longrightarrow> hd ds \<noteq> 48)"
  proof (cases "v = 0")
    case True
    then show ?thesis using putc_sends[OF assms, of 48] by (auto simp: serial_putdec_def decimal_def)
  next
    case False
    then have "unat v \<noteq> 0" by (simp add: unat_eq_0)
    then have "putdec_digits (unat v) \<noteq> []" "hd (rev (putdec_digits (unat v))) \<noteq> 48" "decimal (rev (putdec_digits (unat v))) = unat v"
      "\<forall>d\<in>set (rev (putdec_digits (unat v))). 48 \<le> unat d \<and> unat d \<le> 57"
      using putdec_digits_ok[of "unat v"] by (simp_all add: hd_rev)
    then show ?thesis using putcs_sends[OF assms, of "rev (putdec_digits (unat v))"] False
      by (metis serial_putdec_def rev_is_Nil_conv)
  qed
  then show ?thesis using puts_loop_sends[OF assms, of cs] by (auto simp: serial_puts_def)
qed

theorem serial_output_witness:
  "\<exists>s'. serial_puts (\<lambda>_ _. 0x20) (Some [104, 105, 10, 0]) \<lparr>serial_ready = True, strace = []\<rparr> = Some s' \<and>
     sent (strace s') = [104, 105, 13, 10]"
proof -
  have "transmits (\<lambda>_ _. 0x20)" by (simp add: transmits_def)
  from serial_output[OF this, of "\<lparr>serial_ready = True, strace = []\<rparr>" "[104, 105, 10, 0]"] show ?thesis
    by (auto simp: crlf_def)
qed

text \<open>The interrupt routine looks for cause 4 after shifting; a received-data interrupt of the UART (identification \<^verbatim>\<open>0x04\<close>) is cause 2
  there and leaves the data unread.\<close>

lemma serial_irq_leaves_data:
  "dev (strace s) (SERIAL_COM1 + UART_IIR) = 0xC4 \<Longrightarrow>
     serial_handle_irq dev s = Some (s\<lparr>strace := strace s @ [In (SERIAL_COM1 + UART_IIR)]\<rparr>)"
  by (simp add: serial_handle_irq_def inb_def)

end
