(* ===== verification/Gos_Files.thy ===== *)
theory Gos_Files
  imports Gos_Ipc Gos_Serial
begin

text \<open>
  The file layer: the mount and descriptor tables of \<^verbatim>\<open>fs/vfs/vfs.c\<close>, the in-memory files of
  \<^verbatim>\<open>fs/tmpfs/tmpfs.c\<close> on the kernel heap and the device nodes of \<^verbatim>\<open>fs/devfs/devfs.c\<close>. Nodes
  are objects at the addresses the heap hands out, buffers are addresses in the heap's memory.
  A pointer into a static table is the index plus one, 0 is \<^verbatim>\<open>NULL\<close>; log messages are left out.
\<close>

section \<open>State\<close>

abbreviation (input) "VFS_NAME_MAX \<equiv> 256 :: nat"
abbreviation (input) "VFS_PATH_MAX \<equiv> 4096 :: nat"
abbreviation (input) "VFS_MAX_MOUNTS \<equiv> 16 :: nat"
abbreviation (input) "VFS_MAX_OPEN \<equiv> 256 :: nat"
abbreviation (input) "VFS_NODE_DEVICE \<equiv> 4 :: nat"
abbreviation (input) "TMPFS_MAX_FILES \<equiv> 64 :: nat"
abbreviation (input) "TMPFS_MAX_SIZE \<equiv> 256 * 1024 :: nat"
abbreviation (input) "DEVFS_MAX_DEVICES \<equiv> 32 :: nat"
abbreviation (input) "DEV_TYPE_CHAR \<equiv> 1 :: nat"
abbreviation (input) "SIZEOF_VFS_NODE \<equiv> 360 :: nat"

record vfs_node =
  v_name :: "u8 list"
  v_type :: nat
  v_size :: nat
  v_permissions :: nat
  v_uid :: nat
  v_gid :: nat
  v_ctime :: nat
  v_mtime :: nat
  v_refcount :: nat
  v_mount :: nat
  v_ops :: nat
  v_private :: nat
  v_parent :: nat
  v_next_sibling :: nat
  v_first_child :: nat

definition zero_node :: vfs_node where
  "zero_node = \<lparr>v_name = replicate VFS_NAME_MAX 0, v_type = 0, v_size = 0, v_permissions = 0, v_uid = 0, v_gid = 0, v_ctime = 0,
     v_mtime = 0, v_refcount = 0, v_mount = 0, v_ops = 0, v_private = 0, v_parent = 0, v_next_sibling = 0, v_first_child = 0\<rparr>"

record vfs_mount =
  mountpoint :: "u8 list"
  m_root :: nat
  m_ops :: nat
  m_private :: nat

record vfs_file =
  f_fd :: int
  f_flags :: nat
  f_offset :: nat
  f_node :: nat
  f_refcount :: int

record tmpfs_node =
  t_name :: "u8 list"
  t_type :: nat
  t_data :: nat
  t_size :: nat
  t_capacity :: nat
  t_valid :: bool

text \<open>The callbacks a device can have: those of \<^verbatim>\<open>devfs.c\<close>, or one registered from elsewhere.\<close>

datatype dev_fn = DevNullRead | DevNullWrite | DevZeroRead | DevZeroWrite | DevRandomRead | DevConsoleRead | DevConsoleWrite | DevOther nat

record devfs_device =
  d_name :: "u8 list"
  d_type :: nat
  d_read :: "dev_fn option"
  d_write :: "dev_fn option"
  d_valid :: bool

record fsys =
  fheap :: heap
  vnodes :: "nat \<Rightarrow> vfs_node"
  g_mounts :: "vfs_mount list"
  g_open_files :: "vfs_file list"
  g_tmpfs_nodes :: "tmpfs_node list"
  g_tmpfs_used :: nat
  g_devfs_devices :: "devfs_device list"
  dev_seed :: u32
  fserial :: serial

type_synonym fs_rw = "nat \<Rightarrow> nat \<Rightarrow> nat \<Rightarrow> nat \<Rightarrow> fsys \<Rightarrow> (int \<times> fsys) res option"

record vfs_ops =
  op_lookup :: "(nat \<Rightarrow> u8 list \<Rightarrow> fsys \<Rightarrow> (nat \<times> fsys) res option) option"
  op_read :: "fs_rw option"
  op_write :: "fs_rw option"
  op_readdir :: "fs_rw option"

definition fs_mem :: "(mem \<Rightarrow> mem) \<Rightarrow> fsys \<Rightarrow> fsys" where
  "fs_mem f s = s\<lparr>fheap := heap_upd f (fheap s)\<rparr>"

definition upd_node :: "nat \<Rightarrow> (vfs_node \<Rightarrow> vfs_node) \<Rightarrow> fsys \<Rightarrow> fsys" where
  "upd_node p f s = s\<lparr>vnodes := (vnodes s)(p := f (vnodes s p))\<rparr>"

definition upd_file :: "nat \<Rightarrow> (vfs_file \<Rightarrow> vfs_file) \<Rightarrow> fsys \<Rightarrow> fsys" where
  "upd_file i f s = s\<lparr>g_open_files := (g_open_files s)[i := f (g_open_files s ! i)]\<rparr>"

definition upd_tmp :: "nat \<Rightarrow> (tmpfs_node \<Rightarrow> tmpfs_node) \<Rightarrow> fsys \<Rightarrow> fsys" where
  "upd_tmp i f s = s\<lparr>g_tmpfs_nodes := (g_tmpfs_nodes s)[i := f (g_tmpfs_nodes s ! i)]\<rparr>"

text \<open>\<^verbatim>\<open>strncpy\<close> of \<open>n\<close> bytes into a field.\<close>

definition strn_copy :: "nat \<Rightarrow> u8 list \<Rightarrow> u8 list \<Rightarrow> u8 list" where
  "strn_copy n s old = (let t = take n (takeWhile (\<lambda>c. c \<noteq> 0) s) in t @ replicate (n - length t) 0 @ drop n old)"

section \<open>\<^verbatim>\<open>fs/vfs/vfs.c\<close>\<close>

text \<open>A zeroed node from the heap.\<close>

definition new_node :: "(vfs_node \<Rightarrow> vfs_node) \<Rightarrow> fsys \<Rightarrow> (nat \<times> fsys) res option" where
  "new_node f s = ro_bind (kzalloc SIZEOF_VFS_NODE (fheap s)) (\<lambda>(p, h).
     let s = s\<lparr>fheap := h\<rparr> in Some (Inr (p, if p \<noteq> 0 then upd_node p (\<lambda>_. f zero_node) s else s)))"

definition vfs_alloc_node :: "fsys \<Rightarrow> (nat \<times> fsys) res option" where
  "vfs_alloc_node s = new_node (\<lambda>n. n\<lparr>v_refcount := 1\<rparr>) s"

definition vfs_free_node :: "nat \<Rightarrow> fsys \<Rightarrow> fsys" where
  "vfs_free_node p s =
     (if p = 0 then s
      else let s = upd_node p (\<lambda>n. n\<lparr>v_refcount := (v_refcount n + (2 ^ 32 - 1)) mod 2 ^ 32\<rparr>) s
           in if v_refcount (vnodes s p) = 0 then s\<lparr>fheap := kfree p (fheap s)\<rparr> else s)"

definition vfs_init :: "fsys \<Rightarrow> fsys" where
  "vfs_init s = s\<lparr>g_mounts := map (\<lambda>m. m\<lparr>m_root := 0, m_ops := 0\<rparr>) (g_mounts s),
                  g_open_files := map (\<lambda>f. f\<lparr>f_fd := -1\<rparr>) (g_open_files s)\<rparr>"

definition vfs_register_root :: "nat \<Rightarrow> nat \<Rightarrow> fsys \<Rightarrow> fsys" where
  "vfs_register_root ops private s =
     (if ops = 0 then s
      else s\<lparr>g_mounts := (g_mounts s)[0 := (g_mounts s ! 0)\<lparr>m_ops := ops, m_private := private,
               mountpoint := [47, 0] @ drop 2 (mountpoint (g_mounts s ! 0))\<rparr>]\<rparr>)"

definition vfs_mount_at :: "u8 list \<Rightarrow> nat \<Rightarrow> nat \<Rightarrow> fsys \<Rightarrow> int \<times> fsys" where
  "vfs_mount_at path ops private s =
     (case find (\<lambda>i. m_ops (g_mounts s ! i) = 0) [1..<VFS_MAX_MOUNTS] of
        Some i \<Rightarrow> (0, s\<lparr>g_mounts := (g_mounts s)[i := (g_mounts s ! i)\<lparr>m_ops := ops, m_private := private,
                     mountpoint := strn_copy (VFS_PATH_MAX - 1) path (mountpoint (g_mounts s ! i))\<rparr>]\<rparr>)
      | None \<Rightarrow> (-1, s))"

definition vfs_open :: "u8 list \<Rightarrow> nat \<Rightarrow> fsys \<Rightarrow> int \<times> fsys" where
  "vfs_open path flags s = (-1, s)"

text \<open>The two checks every descriptor operation starts with.\<close>

definition bad_fd :: "int \<Rightarrow> fsys \<Rightarrow> bool" where
  "bad_fd fd s \<longleftrightarrow> fd < 0 \<or> fd \<ge> int VFS_MAX_OPEN \<or> f_fd (g_open_files s ! nat fd) < 0"

definition vfs_close :: "int \<Rightarrow> fsys \<Rightarrow> int \<times> fsys" where
  "vfs_close fd s =
     (if bad_fd fd s then (-1, s)
      else let i = nat fd; s = upd_file i (\<lambda>f. f\<lparr>f_fd := -1\<rparr>) s; n = f_node (g_open_files s ! i)
           in (0, if n \<noteq> 0 then upd_file i (\<lambda>f. f\<lparr>f_node := 0\<rparr>) (vfs_free_node n s) else s))"

text \<open>The tables of operations are found by their address; \<open>sel\<close> selects the entry.\<close>

definition vfs_rw :: "(nat \<Rightarrow> vfs_ops) \<Rightarrow> (vfs_ops \<Rightarrow> fs_rw option) \<Rightarrow> int \<Rightarrow> nat \<Rightarrow> nat \<Rightarrow> fsys \<Rightarrow> (int \<times> fsys) res option" where
  "vfs_rw ot sel fd buf n s =
     (if bad_fd fd s then Some (Inr (-1, s))
      else let i = nat fd; f = g_open_files s ! i in
        if f_node f = 0 \<or> v_ops (vnodes s (f_node f)) = 0 then Some (Inr (-1, s))
        else case sel (ot (v_ops (vnodes s (f_node f)))) of None \<Rightarrow> Some (Inr (-1, s))
        | Some call \<Rightarrow>
            ro_bind (call (f_node f) (f_offset f) buf n s) (\<lambda>(ret, s).
              Some (Inr (ret, if ret > 0 then upd_file i (\<lambda>f. f\<lparr>f_offset := add64 (f_offset f) (nat ret)\<rparr>) s else s))))"

definition vfs_read :: "(nat \<Rightarrow> vfs_ops) \<Rightarrow> int \<Rightarrow> nat \<Rightarrow> nat \<Rightarrow> fsys \<Rightarrow> (int \<times> fsys) res option" where
  "vfs_read ot = vfs_rw ot op_read"

definition vfs_write :: "(nat \<Rightarrow> vfs_ops) \<Rightarrow> int \<Rightarrow> nat \<Rightarrow> nat \<Rightarrow> fsys \<Rightarrow> (int \<times> fsys) res option" where
  "vfs_write ot = vfs_rw ot op_write"

definition vfs_seek :: "int \<Rightarrow> int \<Rightarrow> int \<Rightarrow> fsys \<Rightarrow> int \<times> fsys" where
  "vfs_seek fd off whence s =
     (if bad_fd fd s then (-1, s)
      else let i = nat fd; f = g_open_files s ! i; u64 = (\<lambda>x. nat (x mod 2 ^ 64)) in
        if whence = 0 then (to_int (u64 off), upd_file i (\<lambda>f. f\<lparr>f_offset := u64 off\<rparr>) s)
        else if whence = 1 then (let o' = u64 (int (f_offset f) + off) in (to_int o', upd_file i (\<lambda>f. f\<lparr>f_offset := o'\<rparr>) s))
        else if whence = 2 then
          (if f_node f \<noteq> 0 then (let o' = u64 (int (v_size (vnodes s (f_node f))) + off) in (to_int o', upd_file i (\<lambda>f. f\<lparr>f_offset := o'\<rparr>) s))
           else (to_int (f_offset f), s))
        else (-1, s))"

section \<open>\<^verbatim>\<open>fs/tmpfs/tmpfs.c\<close>\<close>

definition tmpfs_find :: "u8 list \<Rightarrow> fsys \<Rightarrow> nat option" where
  "tmpfs_find name s =
     find (\<lambda>i. t_valid (g_tmpfs_nodes s ! i) \<and> cstr_eq (t_name (g_tmpfs_nodes s ! i)) name) [0..<TMPFS_MAX_FILES]"

definition tmpfs_create_node :: "u8 list \<Rightarrow> nat \<Rightarrow> fsys \<Rightarrow> nat option \<times> fsys" where
  "tmpfs_create_node name type s =
     (if g_tmpfs_used s \<ge> TMPFS_MAX_FILES then (None, s)
      else case find (\<lambda>i. \<not> t_valid (g_tmpfs_nodes s ! i)) [0..<TMPFS_MAX_FILES] of
        Some i \<Rightarrow> (Some i, upd_tmp i (\<lambda>n. n\<lparr>t_name := strn_field VFS_NAME_MAX name, t_type := type, t_data := 0, t_size := 0,
                      t_capacity := 0, t_valid := True\<rparr>) (s\<lparr>g_tmpfs_used := inc64 (g_tmpfs_used s)\<rparr>))
      | None \<Rightarrow> (None, s))"

definition tmpfs_vfs_lookup :: "nat \<Rightarrow> u8 list \<Rightarrow> fsys \<Rightarrow> (nat \<times> fsys) res option" where
  "tmpfs_vfs_lookup parent name s =
     (case tmpfs_find name s of None \<Rightarrow> Some (Inr (0, s))
      | Some i \<Rightarrow> new_node (\<lambda>v. v\<lparr>v_name := strn_copy (VFS_NAME_MAX - 1) name (v_name v), v_type := t_type (g_tmpfs_nodes s ! i),
                     v_size := t_size (g_tmpfs_nodes s ! i), v_private := Suc i\<rparr>) s)"

definition tmpfs_vfs_read :: fs_rw where
  "tmpfs_vfs_read node off buf n s =
     (if node = 0 \<or> v_private (vnodes s node) = 0 then Some (Inr (- EINVAL, s))
      else let tn = g_tmpfs_nodes s ! (v_private (vnodes s node) - 1) in
        if off \<ge> t_size tn then Some (Inr (0, s))
        else let n = (if add64 off n > t_size tn then sub64 (t_size tn) off else n)
             in Some (Inr (to_int n, fs_mem (\<lambda>m. memcpy m buf (add64 (t_data tn) off) n) s)))"

text \<open>The doubling loop; \<^const>\<open>None\<close> when it does not end.\<close>

partial_function (option) tmpfs_grow :: "nat \<Rightarrow> nat \<Rightarrow> nat option" where
  "tmpfs_grow new_cap need = (if new_cap < need then tmpfs_grow (new_cap * 2 mod 2 ^ 64) need else Some new_cap)"

definition tmpfs_put :: "nat \<Rightarrow> nat \<Rightarrow> nat \<Rightarrow> nat \<Rightarrow> nat \<Rightarrow> fsys \<Rightarrow> int \<times> fsys" where
  "tmpfs_put node i off buf n s =
     (let s = fs_mem (\<lambda>m. memcpy m (add64 (t_data (g_tmpfs_nodes s ! i)) off) buf n) s;
          s = (if add64 off n > t_size (g_tmpfs_nodes s ! i) then upd_tmp i (\<lambda>t. t\<lparr>t_size := add64 off n\<rparr>) s else s)
      in (to_int n, upd_node node (\<lambda>v. v\<lparr>v_size := t_size (g_tmpfs_nodes s ! i)\<rparr>) s))"

definition tmpfs_vfs_write :: fs_rw where
  "tmpfs_vfs_write node off buf n s =
     (if node = 0 \<or> v_private (vnodes s node) = 0 then Some (Inr (- EINVAL, s))
      else let i = v_private (vnodes s node) - 1; tn = g_tmpfs_nodes s ! i in
        if add64 off n > t_capacity tn then
          Option.bind (tmpfs_grow (if t_capacity tn \<noteq> 0 then t_capacity tn * 2 mod 2 ^ 64 else 256) (add64 off n)) (\<lambda>new_cap.
            if new_cap > TMPFS_MAX_SIZE then Some (Inr (- ENOSPC, s))
            else ro_bind (krealloc (t_data tn) new_cap (fheap s)) (\<lambda>(new_data, h).
              let s = s\<lparr>fheap := h\<rparr> in
              if new_data = 0 then Some (Inr (- ENOMEM, s))
              else Some (Inr (tmpfs_put node i off buf n (upd_tmp i (\<lambda>t. t\<lparr>t_data := new_data, t_capacity := new_cap\<rparr>) s)))))
        else Some (Inr (tmpfs_put node i off buf n s)))"

definition g_tmpfs_ops :: vfs_ops where
  "g_tmpfs_ops = \<lparr>op_lookup = Some tmpfs_vfs_lookup, op_read = Some tmpfs_vfs_read, op_write = Some tmpfs_vfs_write, op_readdir = None\<rparr>"

definition tmpfs_init :: "fsys \<Rightarrow> fsys" where
  "tmpfs_init s = s\<lparr>g_tmpfs_nodes := map (\<lambda>n. n\<lparr>t_valid := False\<rparr>) (g_tmpfs_nodes s)\<rparr>"

section \<open>\<^verbatim>\<open>fs/devfs/devfs.c\<close>\<close>

definition dev_null_read :: "nat \<Rightarrow> nat \<Rightarrow> nat \<Rightarrow> fsys \<Rightarrow> int \<times> fsys" where
  "dev_null_read buf n off s = (0, s)"

definition dev_null_write :: "nat \<Rightarrow> nat \<Rightarrow> nat \<Rightarrow> fsys \<Rightarrow> int \<times> fsys" where
  "dev_null_write buf n off s = (to_int n, s)"

definition dev_zero_read :: "nat \<Rightarrow> nat \<Rightarrow> nat \<Rightarrow> fsys \<Rightarrow> int \<times> fsys" where
  "dev_zero_read buf n off s = (if buf = 0 then (0, s) else (to_int n, fs_mem (\<lambda>m. memset m buf 0 n) s))"

definition dev_zero_write :: "nat \<Rightarrow> nat \<Rightarrow> nat \<Rightarrow> fsys \<Rightarrow> int \<times> fsys" where
  "dev_zero_write buf n off s = (- EIO, s)"

fun lcg_bytes :: "nat \<Rightarrow> u32 \<Rightarrow> u8 list \<times> u32" where
  "lcg_bytes 0 seed = ([], seed)"
| "lcg_bytes (Suc n) seed =
     (let seed = seed * 1103515245 + 12345; r = lcg_bytes n seed in (ucast (drop_bit 16 seed) # fst r, snd r))"

definition dev_random_read :: "nat \<Rightarrow> nat \<Rightarrow> nat \<Rightarrow> fsys \<Rightarrow> int \<times> fsys" where
  "dev_random_read buf n off s =
     (if buf = 0 then (0, s)
      else (to_int n, fs_mem (\<lambda>m. store m buf (fst (lcg_bytes n (dev_seed s)))) (s\<lparr>dev_seed := snd (lcg_bytes n (dev_seed s))\<rparr>)))"

definition dev_console_read :: "device \<Rightarrow> nat \<Rightarrow> nat \<Rightarrow> nat \<Rightarrow> fsys \<Rightarrow> (int \<times> fsys) option" where
  "dev_console_read dev buf n off s =
     (if buf = 0 \<or> n = 0 then Some (0, s)
      else map_option (\<lambda>(c, u). (1, fs_mem (\<lambda>m. m(buf := c)) (s\<lparr>fserial := u\<rparr>))) (serial_getc dev (fserial s)))"

definition dev_console_write :: "device \<Rightarrow> nat \<Rightarrow> nat \<Rightarrow> nat \<Rightarrow> fsys \<Rightarrow> (int \<times> fsys) option" where
  "dev_console_write dev buf n off s =
     (if buf = 0 then Some (0, s)
      else map_option (\<lambda>u. (to_int n, s\<lparr>fserial := u\<rparr>)) (serial_putcs dev (load (hmem (fheap s)) buf n) (fserial s)))"

type_synonym dev_ext = "nat \<Rightarrow> nat \<Rightarrow> nat \<Rightarrow> nat \<Rightarrow> fsys \<Rightarrow> (int \<times> fsys) option"

fun dev_call :: "device \<Rightarrow> dev_ext \<Rightarrow> dev_fn \<Rightarrow> nat \<Rightarrow> nat \<Rightarrow> nat \<Rightarrow> fsys \<Rightarrow> (int \<times> fsys) option" where
  "dev_call dev ext DevNullRead buf n off s = Some (dev_null_read buf n off s)"
| "dev_call dev ext DevNullWrite buf n off s = Some (dev_null_write buf n off s)"
| "dev_call dev ext DevZeroRead buf n off s = Some (dev_zero_read buf n off s)"
| "dev_call dev ext DevZeroWrite buf n off s = Some (dev_zero_write buf n off s)"
| "dev_call dev ext DevRandomRead buf n off s = Some (dev_random_read buf n off s)"
| "dev_call dev ext DevConsoleRead buf n off s = dev_console_read dev buf n off s"
| "dev_call dev ext DevConsoleWrite buf n off s = dev_console_write dev buf n off s"
| "dev_call dev ext (DevOther i) buf n off s = ext i buf n off s"

definition devfs_register :: "u8 list \<Rightarrow> nat \<Rightarrow> dev_fn option \<Rightarrow> dev_fn option \<Rightarrow> fsys \<Rightarrow> int \<times> fsys" where
  "devfs_register name type r w s =
     (case find (\<lambda>i. \<not> d_valid (g_devfs_devices s ! i)) [0..<DEVFS_MAX_DEVICES] of
        Some i \<Rightarrow> (0, s\<lparr>g_devfs_devices := (g_devfs_devices s)[i := \<lparr>d_name = strn_field 32 name, d_type = type, d_read = r,
                     d_write = w, d_valid = True\<rparr>]\<rparr>)
      | None \<Rightarrow> (- ENOSPC, s))"

definition devfs_init :: "fsys \<Rightarrow> fsys" where
  "devfs_init s =
     (let s = s\<lparr>g_devfs_devices := map (\<lambda>d. d\<lparr>d_valid := False\<rparr>) (g_devfs_devices s)\<rparr>;
          s = snd (devfs_register (bytes ''null'') DEV_TYPE_CHAR (Some DevNullRead) (Some DevNullWrite) s);
          s = snd (devfs_register (bytes ''zero'') DEV_TYPE_CHAR (Some DevZeroRead) (Some DevZeroWrite) s);
          s = snd (devfs_register (bytes ''random'') DEV_TYPE_CHAR (Some DevRandomRead) None s)
      in snd (devfs_register (bytes ''console'') DEV_TYPE_CHAR (Some DevConsoleRead) (Some DevConsoleWrite) s))"

definition devfs_find :: "u8 list \<Rightarrow> fsys \<Rightarrow> nat option" where
  "devfs_find name s =
     find (\<lambda>i. d_valid (g_devfs_devices s ! i) \<and> cstr_eq (d_name (g_devfs_devices s ! i)) name) [0..<DEVFS_MAX_DEVICES]"

definition devfs_vfs_lookup :: "nat \<Rightarrow> u8 list \<Rightarrow> fsys \<Rightarrow> (nat \<times> fsys) res option" where
  "devfs_vfs_lookup parent name s =
     (case devfs_find name s of None \<Rightarrow> Some (Inr (0, s))
      | Some i \<Rightarrow> new_node (\<lambda>v. v\<lparr>v_name := strn_copy (VFS_NAME_MAX - 1) name (v_name v), v_type := VFS_NODE_DEVICE, v_private := Suc i\<rparr>) s)"

definition devfs_vfs_rw :: "device \<Rightarrow> dev_ext \<Rightarrow> (devfs_device \<Rightarrow> dev_fn option) \<Rightarrow> fs_rw" where
  "devfs_vfs_rw dev ext sel node off buf n s =
     (if node = 0 \<or> v_private (vnodes s node) = 0 then Some (Inr (- EINVAL, s))
      else case sel (g_devfs_devices s ! (v_private (vnodes s node) - 1)) of
        None \<Rightarrow> Some (Inr (- EIO, s))
      | Some f \<Rightarrow> map_option Inr (dev_call dev ext f buf n off s))"

definition devfs_vfs_read :: "device \<Rightarrow> dev_ext \<Rightarrow> fs_rw" where
  "devfs_vfs_read dev ext = devfs_vfs_rw dev ext d_read"

definition devfs_vfs_write :: "device \<Rightarrow> dev_ext \<Rightarrow> fs_rw" where
  "devfs_vfs_write dev ext = devfs_vfs_rw dev ext d_write"

definition g_devfs_ops :: "device \<Rightarrow> dev_ext \<Rightarrow> vfs_ops" where
  "g_devfs_ops dev ext = \<lparr>op_lookup = Some devfs_vfs_lookup, op_read = Some (devfs_vfs_read dev ext),
     op_write = Some (devfs_vfs_write dev ext), op_readdir = None\<rparr>"

section \<open>Growing a file\<close>

definition zero_or_pow :: "nat \<Rightarrow> bool" where
  "zero_or_pow c \<longleftrightarrow> c = 0 \<or> (\<exists>k \<le> 63. c = 2 ^ k)"

lemma zero_or_pow_double: "zero_or_pow c \<Longrightarrow> zero_or_pow (c * 2 mod 2 ^ 64)"
proof -
  assume "zero_or_pow c"
  then consider "c = 0" | k where "k \<le> 63" "c = 2 ^ k" by (auto simp: zero_or_pow_def)
  then show ?thesis
  proof cases
    case 1 then show ?thesis by (simp add: zero_or_pow_def)
  next
    case 2
    have c: "c * 2 = 2 ^ Suc k" using 2 by simp
    show ?thesis
    proof (cases "k = 63")
      case True then show ?thesis using 2 by (simp add: zero_or_pow_def)
    next
      case False
      then have "(2::nat) ^ Suc k < 2 ^ 64" using 2 by (intro power_strict_increasing) auto
      then have "c * 2 mod 2 ^ 64 = 2 ^ Suc k" using c by (simp only: mod_less)
      then show ?thesis using False 2(1) unfolding zero_or_pow_def by (intro disjI2 exI[of _ "Suc k"]) linarith
    qed
  qed
qed

lemma zero_or_pow_bound: "zero_or_pow c \<Longrightarrow> c \<le> 2 ^ 63"
  unfolding zero_or_pow_def by (elim disjE exE conjE) (simp_all only: power_increasing one_le_numeral le0)

lemma tmpfs_grow_Some:
  assumes "tmpfs_grow c need = Some r"
  shows "zero_or_pow c \<longrightarrow> need \<le> r \<and> zero_or_pow r"
proof (rule tmpfs_grow.raw_induct[where P = "\<lambda>c need r. zero_or_pow c \<longrightarrow> need \<le> r \<and> zero_or_pow r", OF _ assms])
  fix f and c need r :: nat
  assume IH: "\<And>c need r. f c need = Some r \<Longrightarrow> zero_or_pow c \<longrightarrow> need \<le> r \<and> zero_or_pow r"
    and f: "(if c < need then f (c * 2 mod 2 ^ 64) need else Some c) = Some r"
  show "zero_or_pow c \<longrightarrow> need \<le> r \<and> zero_or_pow r"
  proof (cases "c < need")
    case True
    then have "f (c * 2 mod 2 ^ 64) need = Some r" using f by (simp only: if_True)
    from IH[OF this] show ?thesis using zero_or_pow_double by blast
  next
    case False then show ?thesis using f by simp
  qed
qed

lemma tmpfs_grow_ends:
  assumes "k \<le> 63" "need \<le> 2 ^ 63"
  shows "\<exists>j. tmpfs_grow (2 ^ k) need = Some (2 ^ j) \<and> need \<le> 2 ^ j \<and> k \<le> j \<and> j \<le> 63 \<and> (\<forall>i. k \<le> i \<longrightarrow> need \<le> 2 ^ i \<longrightarrow> j \<le> i)"
  using assms
proof (induction "63 - k" arbitrary: k)
  case 0
  then have "k = 63" by simp
  then show ?case using 0 by (subst tmpfs_grow.simps) (auto intro!: exI[of _ 63])
next
  case (Suc d)
  show ?case
  proof (cases "2 ^ k < need")
    case True
    have "d = 63 - Suc k" "Suc k \<le> 63" using Suc.hyps(2) by linarith+
    from Suc.hyps(1)[OF this Suc.prems(2)] obtain j where j: "tmpfs_grow (2 ^ Suc k) need = Some (2 ^ j)" "need \<le> 2 ^ j" "Suc k \<le> j" "j \<le> 63"
      "\<forall>i. Suc k \<le> i \<longrightarrow> need \<le> 2 ^ i \<longrightarrow> j \<le> i" by blast
    have "(2::nat) ^ Suc k < 2 ^ 64" using \<open>Suc k \<le> 63\<close> by (intro power_strict_increasing) auto
    then have m: "(2::nat) ^ k * 2 mod 2 ^ 64 = 2 ^ Suc k" by (simp only: power_Suc2[symmetric] mod_less)
    have g: "tmpfs_grow (2 ^ k) need = Some (2 ^ j)" using True j(1) m by (subst tmpfs_grow.simps) (simp only: if_True)
    have "j \<le> i" if "k \<le> i" "need \<le> 2 ^ i" for i using j(5) that True by (cases "i = k") auto
    then show ?thesis using g j by (intro exI[of _ j]) auto
  next
    case False
    then have "tmpfs_grow (2 ^ k) need = Some (2 ^ k)" by (subst tmpfs_grow.simps) simp
    then show ?thesis using False Suc.prems by (intro exI[of _ k]) auto
  qed
qed

text \<open>C34 (tmpfs_grow_total): the doubling loop of \<^verbatim>\<open>tmpfs_vfs_write\<close> ends exactly if the end of the write is at most
  \<open>2 ^ 63\<close>; for a larger one the capacity wraps to zero and the loop runs forever.\<close>

theorem tmpfs_grow_total:
  assumes "8 \<le> k" "k \<le> 63" "need < 2 ^ 64"
  shows "(\<exists>r. tmpfs_grow (2 ^ k) need = Some r) \<longleftrightarrow> need \<le> 2 ^ 63"
proof
  assume "\<exists>r. tmpfs_grow (2 ^ k) need = Some r"
  then obtain r where "need \<le> r" "zero_or_pow r" using tmpfs_grow_Some assms(2) unfolding zero_or_pow_def by blast
  then show "need \<le> 2 ^ 63" using zero_or_pow_bound by (blast intro: order_trans)
qed (use tmpfs_grow_ends[OF assms(2)] in blast)

theorem tmpfs_grow_total_witness: "(\<exists>r. tmpfs_grow 256 1000 = Some r) \<and> (\<nexists>r. tmpfs_grow 256 (2 ^ 63 + 1) = Some r)"
  using tmpfs_grow_total[of 8 1000] tmpfs_grow_total[of 8 "2 ^ 63 + 1"] by simp

section \<open>Files in the heap\<close>

text \<open>A file has no storage yet or owns a block of the heap that holds its capacity; no two files share a block.\<close>

definition tmp_block :: "fsys \<Rightarrow> nat set \<Rightarrow> tmpfs_node \<Rightarrow> bool" where
  "tmp_block s us t \<longleftrightarrow> (t_data t = 0 \<and> t_capacity t = 0 \<and> t_size t = 0) \<or>
     (t_data t \<in> us \<and> t_capacity t \<le> heap_bsize (fheap s) (t_data t) \<and> t_size t \<le> t_capacity t \<and> (\<exists>k. 8 \<le> k \<and> k \<le> 18 \<and> t_capacity t = 2 ^ k))"

definition tmp_inv :: "fsys \<Rightarrow> nat set \<Rightarrow> bool" where
  "tmp_inv s us \<longleftrightarrow> heap_ok (fheap s) us \<and> length (g_tmpfs_nodes s) = TMPFS_MAX_FILES \<and>
     (\<forall>i < TMPFS_MAX_FILES. t_valid (g_tmpfs_nodes s ! i) \<longrightarrow> tmp_block s us (g_tmpfs_nodes s ! i)) \<and>
     (\<forall>i < TMPFS_MAX_FILES. \<forall>j < TMPFS_MAX_FILES. t_valid (g_tmpfs_nodes s ! i) \<and> t_valid (g_tmpfs_nodes s ! j) \<and> i \<noteq> j \<longrightarrow>
        t_data (g_tmpfs_nodes s ! i) = 0 \<or> t_data (g_tmpfs_nodes s ! i) \<noteq> t_data (g_tmpfs_nodes s ! j))"

definition contents :: "fsys \<Rightarrow> nat \<Rightarrow> u8 list" where
  "contents s i = load (hmem (fheap s)) (t_data (g_tmpfs_nodes s ! i)) (t_size (g_tmpfs_nodes s ! i))"

lemma memcpy_store:
  assumes "d + n \<le> p \<or> p + n \<le> d"
  shows "memcpy m d p n = store m d (load m p n)"
proof
  fix x
  have "d \<le> p \<or> p + n \<le> d" using assms by linarith
  then show "memcpy m d p n x = store m d (load m p n) x" by (auto simp: memcpy_spec store_def nth_load)
qed

lemma same_load: "hp.same us h h' \<Longrightarrow> u \<in> us \<Longrightarrow> u \<le> p \<Longrightarrow> p + n \<le> u + heap_bsize h u \<Longrightarrow> load (hmem h') p n = load (hmem h) p n"
  by (rule load_cong) (auto simp: hp.same_def)

lemma tmp_invD:
  assumes "tmp_inv s us" "i < TMPFS_MAX_FILES" "t_valid (g_tmpfs_nodes s ! i)"
  shows "heap_ok (fheap s) us" "length (g_tmpfs_nodes s) = TMPFS_MAX_FILES" "tmp_block s us (g_tmpfs_nodes s ! i)"
    "j < TMPFS_MAX_FILES \<Longrightarrow> t_valid (g_tmpfs_nodes s ! j) \<Longrightarrow> i \<noteq> j \<Longrightarrow>
       t_data (g_tmpfs_nodes s ! i) = 0 \<or> t_data (g_tmpfs_nodes s ! i) \<noteq> t_data (g_tmpfs_nodes s ! j)"
  using assms unfolding tmp_inv_def by blast+

text \<open>Another file's block, and the block a buffer is in, stay as they are.\<close>

lemma contents_same:
  assumes "tmp_inv s us" "j < TMPFS_MAX_FILES" "t_valid (g_tmpfs_nodes s ! j)" "hp.same vs (fheap s) (fheap s')"
    "t_data (g_tmpfs_nodes s ! j) = 0 \<or> t_data (g_tmpfs_nodes s ! j) \<in> vs" "g_tmpfs_nodes s' ! j = g_tmpfs_nodes s ! j"
  shows "contents s' j = contents s j"
proof (cases "t_data (g_tmpfs_nodes s ! j) \<in> vs")
  case True
  note D = tmp_invD(1,3)[OF assms(1-3)]
  show ?thesis
  proof (cases "t_data (g_tmpfs_nodes s ! j) = 0")
    case True
    then have "t_size (g_tmpfs_nodes s ! j) = 0" using D hp.bound_law[OF D(1)] by (auto simp: tmp_block_def)
    then show ?thesis using assms(6) by (simp add: contents_def)
  next
    case False
    then have "t_size (g_tmpfs_nodes s ! j) \<le> heap_bsize (fheap s) (t_data (g_tmpfs_nodes s ! j))" using D by (auto simp: tmp_block_def)
    then show ?thesis using same_load[OF assms(4) True] assms(6) by (simp add: contents_def)
  qed
next
  case False
  then have "t_data (g_tmpfs_nodes s ! j) = 0" using assms(5) by blast
  then have "t_size (g_tmpfs_nodes s ! j) = 0" using tmp_invD(1,3)[OF assms(1-3)] hp.bound_law[of "fheap s" us 0] by (auto simp: tmp_block_def)
  then show ?thesis using assms(6) by (simp add: contents_def)
qed

definition written :: "u8 list \<Rightarrow> u8 list \<Rightarrow> nat \<Rightarrow> u8 list \<Rightarrow> bool" where
  "written old new off bs \<longleftrightarrow> length new = max (length old) (off + length bs) \<and>
     (\<forall>k < length bs. new ! (off + k) = bs ! k) \<and> (\<forall>k < length old. k < off \<or> off + length bs \<le> k \<longrightarrow> new ! k = old ! k)"

lemma pow18: "k \<le> 18 \<Longrightarrow> (2::nat) ^ k \<le> 262144"
  using power_increasing[of k 18 "2 :: nat"] by simp

lemma tmpfs_put_ok:
  assumes inv: "tmp_inv s us" and i: "i < TMPFS_MAX_FILES" "t_valid (g_tmpfs_nodes s ! i)"
    and n: "0 < n" "off + n \<le> t_capacity (g_tmpfs_nodes s ! i)"
    and q: "q \<in> us" "t_data (g_tmpfs_nodes s ! i) \<noteq> q" "q \<le> buf" "buf + n \<le> q + heap_bsize (fheap s) q"
  shows "\<exists>s'. tmpfs_put node i off buf n s = (int n, s') \<and> tmp_inv s' us \<and>
    written (contents s i) (contents s' i) off (load (hmem (fheap s)) buf n) \<and> off + n \<le> t_size (g_tmpfs_nodes s' ! i) \<and>
    (\<forall>j < TMPFS_MAX_FILES. j \<noteq> i \<and> t_valid (g_tmpfs_nodes s ! j) \<longrightarrow> contents s' j = contents s j) \<and>
    (\<forall>j < TMPFS_MAX_FILES. t_valid (g_tmpfs_nodes s' ! j) = t_valid (g_tmpfs_nodes s ! j) \<and> t_data (g_tmpfs_nodes s' ! j) = t_data (g_tmpfs_nodes s ! j)) \<and>
    (\<forall>p. v_private (vnodes s' p) = v_private (vnodes s p)) \<and> (\<forall>u\<in>us. heap_bsize (fheap s') u = heap_bsize (fheap s) u)"
proof -
  let ?t = "g_tmpfs_nodes s ! i" and ?h = "fheap s" and ?d = "t_data (g_tmpfs_nodes s ! i)"
  note D = tmp_invD[OF inv i]
  have t: "?d \<in> us" "t_capacity ?t \<le> heap_bsize ?h ?d" "t_size ?t \<le> t_capacity ?t" "t_capacity ?t \<le> 262144"
    using D(3) n pow18 by (auto simp: tmp_block_def)
  define bs where "bs = load (hmem ?h) buf n"
  have bs: "length bs = n" by (simp add: bs_def)
  have b: "?d + heap_bsize ?h ?d < 2 ^ 64" "0 < ?d" using hp.bound_law[OF D(1) t(1)] by auto
  have a1: "add64 off n = off + n" using n(2) t(4) by (intro add64_nowrap) simp
  have a2: "add64 ?d off = ?d + off" using b n(2) t(2) by (intro add64_nowrap) linarith
  have dj: "?d + off + n \<le> buf \<or> buf + n \<le> ?d + off"
    using hp.disjoint_law[OF D(1) t(1) q(1,2)] q(3,4) n(2) t(2) by linarith
  let ?h1 = "heap_upd (\<lambda>m. store m (?d + off) bs) ?h"
  have h1: "heap_upd (\<lambda>m. memcpy m (add64 ?d off) buf n) ?h = ?h1"
    using dj by (simp add: heap_upd_def a2 memcpy_store bs_def)
  have fit: "off + length bs \<le> heap_bsize ?h ?d" using bs n(2) t(2) by linarith
  note S = hr.store_block[OF D(1) t(1) fit]
  let ?t' = "?t\<lparr>t_size := max (t_size ?t) (off + n)\<rparr>"
  define s' where "s' = upd_node node (\<lambda>v. v\<lparr>v_size := max (t_size ?t) (off + n)\<rparr>) (s\<lparr>fheap := ?h1, g_tmpfs_nodes := (g_tmpfs_nodes s)[i := ?t']\<rparr>)"
  have il: "i < length (g_tmpfs_nodes s)" using i(1) D(2) by simp
  have ti: "to_int n = int n" using n(2) t(4) by (intro to_int_small) simp
  have e: "tmpfs_put node i off buf n s = (int n, s')"
  proof (cases "off + n > t_size ?t")
    case True
    then show ?thesis using il by (simp add: s'_def tmpfs_put_def Let_def fs_mem_def h1 a1 ti upd_tmp_def upd_node_def max_def)
  next
    case False
    then have "?t' = ?t" "max (t_size ?t) (off + n) = t_size ?t" by (simp_all add: max_def)
    then show ?thesis using False il by (simp add: s'_def tmpfs_put_def Let_def fs_mem_def h1 a1 ti upd_tmp_def upd_node_def)
  qed
  have sel: "fheap s' = ?h1" "g_tmpfs_nodes s' = (g_tmpfs_nodes s)[i := ?t']" "\<And>p. v_private (vnodes s' p) = v_private (vnodes s p)"
    by (simp_all add: s'_def upd_node_def)
  have nd: "g_tmpfs_nodes s' ! j = (if j = i then ?t' else g_tmpfs_nodes s ! j)" for j using sel(2) il by simp
  have vd: "t_valid (g_tmpfs_nodes s' ! j) = t_valid (g_tmpfs_nodes s ! j)" "t_data (g_tmpfs_nodes s' ! j) = t_data (g_tmpfs_nodes s ! j)" for j
    by (simp_all add: nd)
  have blk: "tmp_block s' us (g_tmpfs_nodes s' ! j)" if "j < TMPFS_MAX_FILES" "t_valid (g_tmpfs_nodes s ! j)" for j
  proof (cases "j = i")
    case True
    then show ?thesis using D(3) n S(3)[OF t(1)] t unfolding nd tmp_block_def sel(1) by auto
  next
    case False
    have "tmp_block s us (g_tmpfs_nodes s ! j)" by (rule tmp_invD(3)[OF inv that])
    then show ?thesis using False S(3) unfolding nd tmp_block_def sel(1) by auto
  qed
  have inv': "tmp_inv s' us"
    unfolding tmp_inv_def
  proof (intro conjI allI impI)
    show "heap_ok (fheap s') us" using S(1) sel(1) by simp
    show "length (g_tmpfs_nodes s') = TMPFS_MAX_FILES" using D(2) sel(2) by simp
    show "tmp_block s' us (g_tmpfs_nodes s' ! j)" if "j < TMPFS_MAX_FILES" "t_valid (g_tmpfs_nodes s' ! j)" for j
      using blk that vd by simp
    show "t_data (g_tmpfs_nodes s' ! j) = 0 \<or> t_data (g_tmpfs_nodes s' ! j) \<noteq> t_data (g_tmpfs_nodes s' ! k)"
      if "j < TMPFS_MAX_FILES" "k < TMPFS_MAX_FILES" "t_valid (g_tmpfs_nodes s' ! j) \<and> t_valid (g_tmpfs_nodes s' ! k) \<and> j \<noteq> k" for j k
      using tmp_invD(4)[OF inv that(1), of k] that vd by simp
  qed
  have oth: "contents s' j = contents s j" if "j < TMPFS_MAX_FILES" "j \<noteq> i" "t_valid (g_tmpfs_nodes s ! j)" for j
  proof (rule contents_same[OF inv that(1,3), where vs = "us - {?d}"])
    show "hp.same (us - {?d}) (fheap s) (fheap s')" using S(2) sel(1) by simp
    show "g_tmpfs_nodes s' ! j = g_tmpfs_nodes s ! j" using nd that(2) by simp
    have "tmp_block s us (g_tmpfs_nodes s ! j)" by (rule tmp_invD(3)[OF inv that(1,3)])
    then show "t_data (g_tmpfs_nodes s ! j) = 0 \<or> t_data (g_tmpfs_nodes s ! j) \<in> us - {?d}"
      using D(4)[OF that(1,3)] that(2) b(2) by (auto simp: tmp_block_def)
  qed
  have "written (contents s i) (contents s' i) off bs"
    unfolding written_def contents_def nd sel(1) S(4) using bs by (auto simp: nth_load store_def max_def)
  then show ?thesis using e inv' oth vd nd[of i] sel(3) S(3) sel(1)
    by (intro exI[of _ s']) (simp add: bs_def)
qed

lemma tmpfs_enlarge:
  assumes inv: "tmp_inv s us" and i: "i < TMPFS_MAX_FILES" "t_valid (g_tmpfs_nodes s ! i)" and d: "d = t_data (g_tmpfs_nodes s ! i)"
    and r: "nd \<noteq> 0" "nd = d \<or> nd \<notin> us" "heap_ok h' (insert nd (us - {d}))" "2 ^ k \<le> heap_bsize h' nd" "hp.same (us - {d}) (fheap s) h'"
      "d \<noteq> 0 \<Longrightarrow> \<forall>x < heap_bsize (fheap s) d. hmem h' (nd + x) = hmem (fheap s) (d + x)"
    and k: "8 \<le> k" "k \<le> 18" "t_capacity (g_tmpfs_nodes s ! i) \<le> 2 ^ k"
    and s1: "s1 = upd_tmp i (\<lambda>t. t\<lparr>t_data := nd, t_capacity := 2 ^ k\<rparr>) (s\<lparr>fheap := h'\<rparr>)"
  shows "tmp_inv s1 (insert nd (us - {d}))"
    "\<forall>j < TMPFS_MAX_FILES. t_valid (g_tmpfs_nodes s ! j) \<longrightarrow> contents s1 j = contents s j"
proof -
  let ?t = "g_tmpfs_nodes s ! i"
  note D = tmp_invD[OF inv i]
  have il: "i < length (g_tmpfs_nodes s)" using i(1) D(2) by simp
  have nd: "g_tmpfs_nodes s1 ! j = (if j = i then ?t\<lparr>t_data := nd, t_capacity := 2 ^ k\<rparr> else g_tmpfs_nodes s ! j)" for j
    using il s1 by (simp add: upd_tmp_def)
  have h: "fheap s1 = h'" "length (g_tmpfs_nodes s1) = TMPFS_MAX_FILES" using s1 D(2) by (simp_all add: upd_tmp_def)
  have vd: "t_valid (g_tmpfs_nodes s1 ! j) = t_valid (g_tmpfs_nodes s ! j)" for j by (simp add: nd)
  have z0: "0 \<notin> us" using hp.bound_law[OF D(1)] by blast
  have own: "t_data (g_tmpfs_nodes s ! j) = 0 \<or> t_data (g_tmpfs_nodes s ! j) \<in> us - {d}" if "j < TMPFS_MAX_FILES" "t_valid (g_tmpfs_nodes s ! j)" "j \<noteq> i" for j
    using tmp_invD(3)[OF inv that(1,2)] tmp_invD(4)[OF inv that(1,2) i] that(3) d by (auto simp: tmp_block_def)
  show "tmp_inv s1 (insert nd (us - {d}))"
    unfolding tmp_inv_def
  proof (intro conjI allI impI)
    show "heap_ok (fheap s1) (insert nd (us - {d}))" "length (g_tmpfs_nodes s1) = TMPFS_MAX_FILES" using r(3) h by simp_all
    show "tmp_block s1 (insert nd (us - {d})) (g_tmpfs_nodes s1 ! j)" if j: "j < TMPFS_MAX_FILES" "t_valid (g_tmpfs_nodes s1 ! j)" for j
    proof (cases "j = i")
      case True
      have "t_size ?t \<le> t_capacity ?t" using D(3) by (auto simp: tmp_block_def)
      then have "t_size ?t \<le> 2 ^ k" using k(3) by linarith
      then show ?thesis using True r(4) k(1,2) by (auto simp: tmp_block_def nd h)
    next
      case False
      then have "tmp_block s us (g_tmpfs_nodes s ! j)" "t_data (g_tmpfs_nodes s ! j) = 0 \<or> t_data (g_tmpfs_nodes s ! j) \<in> us - {d}"
        using j vd tmp_invD(3)[OF inv j(1)] own[OF j(1)] by auto
      then show ?thesis using False hp.same_bsize[OF r(5)] z0 by (auto simp: tmp_block_def nd h)
    qed
    show "t_data (g_tmpfs_nodes s1 ! j) = 0 \<or> t_data (g_tmpfs_nodes s1 ! j) \<noteq> t_data (g_tmpfs_nodes s1 ! l)"
      if jl: "j < TMPFS_MAX_FILES" "l < TMPFS_MAX_FILES" "t_valid (g_tmpfs_nodes s1 ! j) \<and> t_valid (g_tmpfs_nodes s1 ! l) \<and> j \<noteq> l" for j l
      using own[OF jl(1)] own[OF jl(2)] tmp_invD(4)[OF inv jl(1), of l] jl r(1,2) vd by (auto simp: nd)
  qed
  show "\<forall>j < TMPFS_MAX_FILES. t_valid (g_tmpfs_nodes s ! j) \<longrightarrow> contents s1 j = contents s j"
  proof (intro allI impI)
    fix j assume j: "j < TMPFS_MAX_FILES" "t_valid (g_tmpfs_nodes s ! j)"
    show "contents s1 j = contents s j"
    proof (cases "j = i")
      case False
      then show ?thesis using contents_same[OF inv j, of "us - {d}" s1] r(5) h own[OF j] nd by simp
    next
      case True
      show ?thesis
      proof (cases "d = 0")
        case z: True
        have "t_size ?t = 0" using D(3) d z z0 by (auto simp: tmp_block_def)
        then show ?thesis using True by (simp add: contents_def nd)
      next
        case z: False
        then have "t_size ?t \<le> heap_bsize (fheap s) d" using D(3) d by (auto simp: tmp_block_def)
        then have "load (hmem h') nd (t_size ?t) = load (hmem (fheap s)) d (t_size ?t)" using r(6)[OF z] by (simp add: load_def)
        then show ?thesis using True d h by (simp add: contents_def nd)
      qed
    qed
  qed
qed

text \<open>Reading a range of a file into a buffer; the range is cut at the end of the file.\<close>

lemma tmpfs_read_any:
  assumes inv: "tmp_inv s us" and i: "i < TMPFS_MAX_FILES" "t_valid (g_tmpfs_nodes s ! i)"
    and node: "node \<noteq> 0" "v_private (vnodes s node) = Suc i" and n: "0 < n" "n < 2 ^ 63" "off < t_size (g_tmpfs_nodes s ! i)"
    and q: "q \<in> us" "t_data (g_tmpfs_nodes s ! i) \<noteq> q" "q \<le> buf" "buf + n \<le> q + heap_bsize (fheap s) q"
    and k: "k = min n (t_size (g_tmpfs_nodes s ! i) - off)"
  shows "\<exists>m. tmpfs_vfs_read node off buf n s = Some (Inr (int k, fs_mem (\<lambda>_. m) s)) \<and>
    load m buf k = take k (drop off (contents s i)) \<and> hp.same (us - {q}) (fheap s) (heap_upd (\<lambda>_. m) (fheap s)) \<and>
    heap_ok (heap_upd (\<lambda>_. m) (fheap s)) us"
proof -
  let ?t = "g_tmpfs_nodes s ! i" and ?h = "fheap s" and ?d = "t_data (g_tmpfs_nodes s ! i)"
  note D = tmp_invD[OF inv i]
  have t: "?d \<in> us" "t_capacity ?t \<le> heap_bsize ?h ?d" "t_size ?t \<le> t_capacity ?t" "t_capacity ?t \<le> 262144"
    using D(3) n pow18 by (auto simp: tmp_block_def)
  have b: "?d + heap_bsize ?h ?d < 2 ^ 64" using hp.bound_law[OF D(1) t(1)] by auto
  have kn: "k \<le> n" "off + k \<le> t_size ?t" "k \<le> 262144" using k n(3) t by auto
  have a: "add64 off n = off + n" "add64 ?d off = ?d + off" "sub64 (t_size ?t) off = t_size ?t - off"
    using b n(2,3) t by (auto intro: add64_nowrap sub64_nowrap)
  have dj: "buf + k \<le> ?d + off \<or> ?d + off + k \<le> buf"
    using hp.disjoint_law[OF D(1) t(1) q(1,2)] q(3,4) kn t(2,3) by linarith
  have ti: "to_int k = int k" using kn(3) by (intro to_int_small) simp
  let ?bs = "load (hmem ?h) (?d + off) k"
  let ?m = "store (hmem ?h) buf ?bs"
  have pi: "v_private (vnodes s node) - 1 = i" using node(2) by simp
  have cnt: "(if add64 off n > t_size ?t then sub64 (t_size ?t) off else n) = k" using k a by (simp add: min_def) linarith
  have "tmpfs_vfs_read node off buf n s = Some (Inr (int k, fs_mem (\<lambda>m. memcpy m buf (?d + off) k) s))"
    using node n(3) unfolding tmpfs_vfs_read_def Let_def pi cnt by (simp add: a(2) ti)
  moreover have "fs_mem (\<lambda>m. memcpy m buf (?d + off) k) s = fs_mem (\<lambda>_. ?m) s"
    using memcpy_store[OF dj, of "hmem ?h"] by (simp add: fs_mem_def heap_upd_def)
  moreover have "load ?m buf k = take k (drop off (contents s i))"
  proof -
    have "load ?m buf k = ?bs" using load_store[of "hmem ?h" buf ?bs] by simp
    also have "\<dots> = take k (drop off (contents s i))" using kn by (intro nth_equalityI) (simp_all add: contents_def nth_load add.assoc)
    finally show ?thesis .
  qed
  moreover have u: "heap_upd (\<lambda>_. ?m) ?h = heap_upd (\<lambda>m. store m (q + (buf - q)) ?bs) ?h" using q(3) by (simp add: heap_upd_def)
  have fit: "buf - q + length ?bs \<le> heap_bsize ?h q" using q(3,4) kn by simp
  have "hp.same (us - {q}) ?h (heap_upd (\<lambda>_. ?m) ?h)" "heap_ok (heap_upd (\<lambda>_. ?m) ?h) us"
    unfolding u using hr.store_block(1,2)[OF D(1) q(1) fit] by auto
  ultimately show ?thesis by auto
qed

lemma tmpfs_read_ok:
  assumes inv: "tmp_inv s us" and i: "i < TMPFS_MAX_FILES" "t_valid (g_tmpfs_nodes s ! i)"
    and node: "node \<noteq> 0" "v_private (vnodes s node) = Suc i" and n: "0 < n" "off + n \<le> t_size (g_tmpfs_nodes s ! i)"
    and q: "q \<in> us" "t_data (g_tmpfs_nodes s ! i) \<noteq> q" "q \<le> buf" "buf + n \<le> q + heap_bsize (fheap s) q"
  shows "\<exists>s'. tmpfs_vfs_read node off buf n s = Some (Inr (int n, s')) \<and>
    load (hmem (fheap s')) buf n = take n (drop off (contents s i))"
proof -
  have "t_size (g_tmpfs_nodes s ! i) \<le> 262144" using tmp_invD(3)[OF inv i] pow18 by (fastforce simp: tmp_block_def)
  then have *: "n < 2 ^ 63" "off < t_size (g_tmpfs_nodes s ! i)" "n = min n (t_size (g_tmpfs_nodes s ! i) - off)" using n by auto
  from tmpfs_read_any[OF inv i node n(1) *(1,2) q *(3)] show ?thesis by (auto simp: fs_mem_def heap_upd_def)
qed

lemma written_range: "written old new off bs \<Longrightarrow> take (length bs) (drop off new) = bs"
  unfolding written_def by (intro nth_equalityI) auto

lemma capacity_next:
  assumes "tmp_block s us t" "t_capacity t < 262144"
  shows "\<exists>k. (if t_capacity t \<noteq> 0 then t_capacity t * 2 mod 2 ^ 64 else 256) = 2 ^ k \<and> 8 \<le> k \<and> k \<le> 18 \<and> t_capacity t \<le> 2 ^ k"
proof (cases "t_capacity t = 0")
  case True then show ?thesis by (intro exI[of _ 8]) simp
next
  case False
  then obtain k where k: "8 \<le> k" "k \<le> 18" "t_capacity t = 2 ^ k" using assms(1) by (auto simp: tmp_block_def)
  have "k \<noteq> 18" using assms(2) k(3) by auto
  then have "Suc k \<le> 18" using k(2) by simp
  then have "(2::nat) ^ Suc k \<le> 262144" by (rule pow18)
  then have "t_capacity t * 2 mod 2 ^ 64 = 2 ^ Suc k" using k(3) by simp
  then show ?thesis using k False \<open>Suc k \<le> 18\<close> by (intro exI[of _ "Suc k"]) simp
qed

lemma tmpfs_put_read:
  assumes inv: "tmp_inv s us" and i: "i < TMPFS_MAX_FILES" "t_valid (g_tmpfs_nodes s ! i)"
    and node: "node \<noteq> 0" "v_private (vnodes s node) = Suc i"
    and n: "0 < n" "off + n \<le> t_capacity (g_tmpfs_nodes s ! i)"
    and q: "q \<in> us" "t_data (g_tmpfs_nodes s ! i) \<noteq> q" "q \<le> buf" "buf + n \<le> q + heap_bsize (fheap s) q"
    and r: "r \<in> us" "t_data (g_tmpfs_nodes s ! i) \<noteq> r" "r \<le> dst" "dst + n \<le> r + heap_bsize (fheap s) r"
  shows "\<exists>s'. tmpfs_put node i off buf n s = (int n, s') \<and> written (contents s i) (contents s' i) off (load (hmem (fheap s)) buf n) \<and>
     (\<forall>j < TMPFS_MAX_FILES. j \<noteq> i \<and> t_valid (g_tmpfs_nodes s ! j) \<longrightarrow> contents s' j = contents s j) \<and>
     (\<exists>us' s''. tmp_inv s' us' \<and> tmpfs_vfs_read node off dst n s' = Some (Inr (int n, s'')) \<and>
        load (hmem (fheap s'')) dst n = load (hmem (fheap s)) buf n)"
proof -
  from tmpfs_put_ok[OF inv i n q] obtain s' where s': "tmpfs_put node i off buf n s = (int n, s')" "tmp_inv s' us"
    "written (contents s i) (contents s' i) off (load (hmem (fheap s)) buf n)" "off + n \<le> t_size (g_tmpfs_nodes s' ! i)"
    "\<forall>j < TMPFS_MAX_FILES. j \<noteq> i \<and> t_valid (g_tmpfs_nodes s ! j) \<longrightarrow> contents s' j = contents s j"
    "\<forall>j < TMPFS_MAX_FILES. t_valid (g_tmpfs_nodes s' ! j) = t_valid (g_tmpfs_nodes s ! j) \<and> t_data (g_tmpfs_nodes s' ! j) = t_data (g_tmpfs_nodes s ! j)"
    "\<forall>p. v_private (vnodes s' p) = v_private (vnodes s p)" "\<forall>u\<in>us. heap_bsize (fheap s') u = heap_bsize (fheap s) u" by blast
  have R: "t_valid (g_tmpfs_nodes s' ! i)" "v_private (vnodes s' node) = Suc i" "t_data (g_tmpfs_nodes s' ! i) \<noteq> r"
    "dst + n \<le> r + heap_bsize (fheap s') r" using s' i node r by auto
  from tmpfs_read_ok[OF s'(2) i(1) R(1) node(1) R(2) n(1) s'(4) r(1) R(3) r(3) R(4)] obtain s'' where
    s'': "tmpfs_vfs_read node off dst n s' = Some (Inr (int n, s''))" "load (hmem (fheap s'')) dst n = take n (drop off (contents s' i))" by blast
  have "take n (drop off (contents s' i)) = load (hmem (fheap s)) buf n" using written_range[OF s'(3)] by simp
  then show ?thesis using s' s'' by (intro exI[of _ s']) auto
qed

lemma tmpfs_write_grow:
  assumes inv: "tmp_inv s us" and i: "i < TMPFS_MAX_FILES" "t_valid (g_tmpfs_nodes s ! i)"
    and node: "node \<noteq> 0" "v_private (vnodes s node) = Suc i" and n: "0 < n" "off + n \<le> TMPFS_MAX_SIZE"
    and q: "q \<in> us" "\<forall>j < TMPFS_MAX_FILES. t_valid (g_tmpfs_nodes s ! j) \<longrightarrow> t_data (g_tmpfs_nodes s ! j) \<noteq> q"
      "q \<le> buf" "buf + n \<le> q + heap_bsize (fheap s) q"
    and d: "d \<in> us" "\<forall>j < TMPFS_MAX_FILES. t_valid (g_tmpfs_nodes s ! j) \<longrightarrow> t_data (g_tmpfs_nodes s ! j) \<noteq> d"
      "d \<le> dst" "dst + n \<le> d + heap_bsize (fheap s) d"
    and grow: "t_capacity (g_tmpfs_nodes s ! i) < off + n"
    and room: "\<forall>k \<le> TMPFS_MAX_SIZE. heap_can k (fheap s)"
  shows "\<exists>r s'. tmpfs_vfs_write node off buf n s = Some (Inr (r, s')) \<and>
    (r = - ENOMEM \<and> s' = s \<and> t_capacity (g_tmpfs_nodes s ! i) < off + n \<and>
       (\<exists>c. off + n \<le> c \<and> c \<le> TMPFS_MAX_SIZE \<and> krealloc (t_data (g_tmpfs_nodes s ! i)) c (fheap s) = Some (Inr (0, fheap s))) \<or>
     r = int n \<and> written (contents s i) (contents s' i) off (load (hmem (fheap s)) buf n) \<and>
     (\<forall>j < TMPFS_MAX_FILES. j \<noteq> i \<and> t_valid (g_tmpfs_nodes s ! j) \<longrightarrow> contents s' j = contents s j) \<and>
     (\<exists>us' s''. tmp_inv s' us' \<and> tmpfs_vfs_read node off dst n s' = Some (Inr (int n, s'')) \<and>
        load (hmem (fheap s'')) dst n = load (hmem (fheap s)) buf n))"
proof -
  let ?t = "g_tmpfs_nodes s ! i" and ?d = "t_data (g_tmpfs_nodes s ! i)"
  note D = tmp_invD[OF inv i]
  have a: "add64 off n = off + n" using n(2) by (intro add64_nowrap) simp
  have qi: "?d \<noteq> q" "?d \<noteq> d" using q(2) d(2) i by blast+
  have False: "\<not> off + n \<le> t_capacity ?t" using grow by simp
  let ?c = "if t_capacity ?t \<noteq> 0 then t_capacity ?t * 2 mod 2 ^ 64 else 256"
  obtain k where k: "?c = 2 ^ k" "8 \<le> k" "k \<le> 18" "t_capacity ?t \<le> 2 ^ k" using capacity_next[OF D(3)] False n(2) by auto
  from tmpfs_grow_ends[of k "off + n"] k(3) n(2) obtain j where j: "tmpfs_grow (2 ^ k) (off + n) = Some (2 ^ j)" "off + n \<le> 2 ^ j" "k \<le> j"
    "\<forall>i. k \<le> i \<longrightarrow> off + n \<le> 2 ^ i \<longrightarrow> j \<le> i" by auto
  have j18: "j \<le> 18" using j(4) k(3) n(2) by simp
  have le: "(2::nat) ^ j \<le> 262144" by (rule pow18[OF j18])
  have pi: "v_private (vnodes s node) - 1 = i" using node(2) by simp
  have w: "tmpfs_vfs_write node off buf n s = ro_bind (krealloc ?d (2 ^ j) (fheap s)) (\<lambda>(new_data, h).
      if new_data = 0 then Some (Inr (- ENOMEM, s\<lparr>fheap := h\<rparr>))
      else Some (Inr (tmpfs_put node i off buf n (upd_tmp i (\<lambda>t. t\<lparr>t_data := new_data, t_capacity := 2 ^ j\<rparr>) (s\<lparr>fheap := h\<rparr>)))))"
    using False node le unfolding tmpfs_vfs_write_def Let_def pi a k(1) by (simp add: j(1) split_def)
  have cn: "heap_can (2 ^ j) (fheap s)" "(2::nat) ^ j \<le> 0x2000000" "(0::nat) < 2 ^ j" "?d = 0 \<or> ?d \<in> us"
    using room le D(3) by (auto simp: tmp_block_def)
  show ?thesis
  proof (cases rule: hr.realloc_cases[OF D(1) cn(3,2,1,4)])
    case 1
    then have "tmpfs_vfs_write node off buf n s = Some (Inr (- ENOMEM, s))" using w by (simp add: ro_bind_def)
    moreover have "(2::nat) ^ j \<le> TMPFS_MAX_SIZE" using le by simp
    ultimately show ?thesis using 1 grow j(2) by blast
  next
    case (2 nd h)
    define s1 where "s1 = upd_tmp i (\<lambda>t. t\<lparr>t_data := nd, t_capacity := 2 ^ j\<rparr>) (s\<lparr>fheap := h\<rparr>)"
    have kj: "8 \<le> j" "t_capacity ?t \<le> 2 ^ j" using k(2) j(3) False j(2) by simp_all
    note E = tmpfs_enlarge[OF inv i refl 2(2-7) kj(1) j18 kj(2) s1_def]
    have il: "i < length (g_tmpfs_nodes s)" using i(1) D(2) by simp
    have n1: "g_tmpfs_nodes s1 ! l = (if l = i then ?t\<lparr>t_data := nd, t_capacity := 2 ^ j\<rparr> else g_tmpfs_nodes s ! l)" for l
      using il by (simp add: s1_def upd_tmp_def)
    have h1: "fheap s1 = h" "vnodes s1 = vnodes s" by (simp_all add: s1_def upd_tmp_def)
    have qs: "q \<in> us - {?d}" "d \<in> us - {?d}" using q(1) d(1) qi by simp_all
    have bq: "heap_bsize h q = heap_bsize (fheap s) q" "heap_bsize h d = heap_bsize (fheap s) d" using hp.same_bsize[OF 2(6)] qs by blast+
    have ld: "load (hmem h) buf n = load (hmem (fheap s)) buf n" by (rule same_load[OF 2(6) qs(1) q(3,4)])
    have "\<exists>s'. tmpfs_put node i off buf n s1 = (int n, s') \<and> written (contents s1 i) (contents s' i) off (load (hmem (fheap s1)) buf n) \<and>
       (\<forall>j < TMPFS_MAX_FILES. j \<noteq> i \<and> t_valid (g_tmpfs_nodes s1 ! j) \<longrightarrow> contents s' j = contents s1 j) \<and>
       (\<exists>us' s''. tmp_inv s' us' \<and> tmpfs_vfs_read node off dst n s' = Some (Inr (int n, s'')) \<and>
          load (hmem (fheap s'')) dst n = load (hmem (fheap s1)) buf n)"
      by (rule tmpfs_put_read[OF E(1), where q = q and r = d])
         (use i node n(1) j(2) qs q(1,3,4) d(1,3,4) 2(2,3) bq in \<open>auto simp: n1 h1\<close>)
    then obtain s' where s': "tmpfs_put node i off buf n s1 = (int n, s')" "written (contents s1 i) (contents s' i) off (load (hmem (fheap s)) buf n)"
       "\<forall>j < TMPFS_MAX_FILES. j \<noteq> i \<and> t_valid (g_tmpfs_nodes s1 ! j) \<longrightarrow> contents s' j = contents s1 j"
       "\<exists>us' s''. tmp_inv s' us' \<and> tmpfs_vfs_read node off dst n s' = Some (Inr (int n, s'')) \<and>
          load (hmem (fheap s'')) dst n = load (hmem (fheap s)) buf n" using h1 ld by auto
    have "tmpfs_vfs_write node off buf n s = Some (Inr (int n, s'))"
      using w 2(1,2) s'(1) by (simp add: ro_bind_def s1_def)
    moreover have "contents s1 i = contents s i" using E(2) i by blast
    moreover have "\<forall>j < TMPFS_MAX_FILES. j \<noteq> i \<and> t_valid (g_tmpfs_nodes s ! j) \<longrightarrow> contents s' j = contents s j"
      using s'(3) E(2) n1 by auto
    ultimately show ?thesis using s'(2,4) by (intro exI[of _ "int n"] exI[of _ s']) simp
  qed
qed

text \<open>C7 (tmpfs_write_read): a write of \<open>n > 0\<close> bytes that ends within the 256 KiB limit, with pages left for the heap to grow by the
  limit, returns. It fails with \<^verbatim>\<open>-ENOMEM\<close>, changing nothing, only when the file's capacity does not suffice and \<^verbatim>\<open>krealloc\<close>
  gives NULL. Otherwise the file afterwards holds the written bytes at the offset and its old bytes elsewhere, no other
  file changes, and reading the range back into any buffer \<open>dst\<close> outside the files, whatever it held, delivers the written bytes there.\<close>

theorem tmpfs_write_read:
  assumes inv: "tmp_inv s us" and i: "i < TMPFS_MAX_FILES" "t_valid (g_tmpfs_nodes s ! i)"
    and node: "node \<noteq> 0" "v_private (vnodes s node) = Suc i" and n: "0 < n" "off + n \<le> TMPFS_MAX_SIZE"
    and q: "q \<in> us" "\<forall>j < TMPFS_MAX_FILES. t_valid (g_tmpfs_nodes s ! j) \<longrightarrow> t_data (g_tmpfs_nodes s ! j) \<noteq> q"
      "q \<le> buf" "buf + n \<le> q + heap_bsize (fheap s) q"
    and d: "d \<in> us" "\<forall>j < TMPFS_MAX_FILES. t_valid (g_tmpfs_nodes s ! j) \<longrightarrow> t_data (g_tmpfs_nodes s ! j) \<noteq> d"
      "d \<le> dst" "dst + n \<le> d + heap_bsize (fheap s) d"
    and room: "\<forall>k \<le> TMPFS_MAX_SIZE. heap_can k (fheap s)"
  shows "\<exists>r s'. tmpfs_vfs_write node off buf n s = Some (Inr (r, s')) \<and>
    (r = - ENOMEM \<and> s' = s \<and> t_capacity (g_tmpfs_nodes s ! i) < off + n \<and>
       (\<exists>c. off + n \<le> c \<and> c \<le> TMPFS_MAX_SIZE \<and> krealloc (t_data (g_tmpfs_nodes s ! i)) c (fheap s) = Some (Inr (0, fheap s))) \<or>
     r = int n \<and> written (contents s i) (contents s' i) off (load (hmem (fheap s)) buf n) \<and>
     (\<forall>j < TMPFS_MAX_FILES. j \<noteq> i \<and> t_valid (g_tmpfs_nodes s ! j) \<longrightarrow> contents s' j = contents s j) \<and>
     (\<exists>us' s''. tmp_inv s' us' \<and> tmpfs_vfs_read node off dst n s' = Some (Inr (int n, s'')) \<and>
        load (hmem (fheap s'')) dst n = load (hmem (fheap s)) buf n))"
proof -
  let ?t = "g_tmpfs_nodes s ! i" and ?d = "t_data (g_tmpfs_nodes s ! i)"
  note D = tmp_invD[OF inv i]
  have a: "add64 off n = off + n" using n(2) by (intro add64_nowrap) simp
  have qi: "?d \<noteq> q" "?d \<noteq> d" using q(2) d(2) i by blast+
  show ?thesis
  proof (cases "off + n \<le> t_capacity ?t")
    case True
    from tmpfs_put_read[OF inv i node n(1) True q(1) qi(1) q(3,4) d(1) qi(2) d(3,4)] obtain s' where s':
      "tmpfs_put node i off buf n s = (int n, s')" "written (contents s i) (contents s' i) off (load (hmem (fheap s)) buf n)"
      "\<forall>j < TMPFS_MAX_FILES. j \<noteq> i \<and> t_valid (g_tmpfs_nodes s ! j) \<longrightarrow> contents s' j = contents s j"
      "\<exists>us' s''. tmp_inv s' us' \<and> tmpfs_vfs_read node off dst n s' = Some (Inr (int n, s'')) \<and>
        load (hmem (fheap s'')) dst n = load (hmem (fheap s)) buf n" by blast
    have "tmpfs_vfs_write node off buf n s = Some (Inr (int n, s'))"
      using True node s'(1) by (simp add: tmpfs_vfs_write_def Let_def a)
    then show ?thesis using s'(2-4) by blast
  next
    case False
    then show ?thesis using tmpfs_write_grow[OF inv i node n q d _ room] by simp
  qed
qed

text \<open>A file system with one empty file, reached through the node at address 1.\<close>

definition fs_example :: "heap \<Rightarrow> fsys" where
  "fs_example h = \<lparr>fheap = h, vnodes = (\<lambda>_. zero_node\<lparr>v_private := 1\<rparr>), g_mounts = [], g_open_files = [],
     g_tmpfs_nodes = \<lparr>t_name = [], t_type = 1, t_data = 0, t_size = 0, t_capacity = 0, t_valid = True\<rparr> #
       replicate 63 \<lparr>t_name = [], t_type = 0, t_data = 0, t_size = 0, t_capacity = 0, t_valid = False\<rparr>,
     g_tmpfs_used = 1, g_devfs_devices = [], dev_seed = 12345, fserial = \<lparr>serial_ready = False, strace = []\<rparr>\<rparr>"

lemma fs_example_inv: "heap_ok h us \<Longrightarrow> tmp_inv (fs_example h) us"
  by (auto simp: tmp_inv_def fs_example_def tmp_block_def nth_Cons split: nat.splits)

theorem tmpfs_write_read_witness:
  "\<exists>h p s' s''. tmpfs_vfs_write 1 10 p 50 (fs_example h) = Some (Inr (50, s')) \<and> length (contents s' 0) = 60 \<and>
     tmpfs_vfs_read 1 10 (p + 50) 50 s' = Some (Inr (50, s'')) \<and> load (hmem (fheap s'')) (p + 50) 50 = load (hmem h) p 50"
proof -
  obtain h p where h: "heap_ok h {p}" "100 \<le> heap_bsize h p" "50000 \<le> pmm_avail (vmm_pmm (hvmm h))"
    and nf: "\<forall>n. 0 < n \<longrightarrow> n \<le> 262144 \<longrightarrow> kmalloc n h \<noteq> Some (Inr (0, h))" by (rule heap_block_example) blast
  have p: "p \<noteq> 0" using hp.bound_law[OF h(1)] by auto
  let ?s = "fs_example h"
  have f: "fheap ?s = h" "t_data (g_tmpfs_nodes ?s ! 0) = 0" by (simp_all add: fs_example_def)
  have "\<exists>r s'. tmpfs_vfs_write 1 10 p 50 ?s = Some (Inr (r, s')) \<and>
    (r = - ENOMEM \<and> s' = ?s \<and> t_capacity (g_tmpfs_nodes ?s ! 0) < 10 + 50 \<and>
       (\<exists>c. 10 + 50 \<le> c \<and> c \<le> TMPFS_MAX_SIZE \<and> krealloc (t_data (g_tmpfs_nodes ?s ! 0)) c (fheap ?s) = Some (Inr (0, fheap ?s))) \<or>
     r = int 50 \<and> written (contents ?s 0) (contents s' 0) 10 (load (hmem (fheap ?s)) p 50) \<and>
     (\<forall>j < TMPFS_MAX_FILES. j \<noteq> 0 \<and> t_valid (g_tmpfs_nodes ?s ! j) \<longrightarrow> contents s' j = contents ?s j) \<and>
     (\<exists>us' s''. tmp_inv s' us' \<and> tmpfs_vfs_read 1 10 (p + 50) 50 s' = Some (Inr (int 50, s'')) \<and>
        load (hmem (fheap s'')) (p + 50) 50 = load (hmem (fheap ?s)) p 50))"
    by (rule tmpfs_write_read[OF fs_example_inv[OF h(1)], where q = p and d = p])
       (use h p heap_can_small[OF _ h(3)] in \<open>auto simp: fs_example_def nth_Cons split: nat.splits\<close>)
  moreover have "krealloc 0 c h \<noteq> Some (Inr (0, h))" if "60 \<le> c" "c \<le> TMPFS_MAX_SIZE" for c
    using nf that by (simp add: krealloc_def)
  moreover have "contents ?s 0 = []" by (simp add: contents_def fs_example_def)
  ultimately show ?thesis unfolding f by (fastforce simp: written_def)
qed

section \<open>Descriptors over files\<close>

text \<open>C20 (vfs_read_sequential): reading an open in-memory file through its descriptor delivers the bytes from the file
  offset on, as many as asked for or as are left, and moves the offset past them; at the end of the file it delivers nothing and stays.\<close>

theorem vfs_read_sequential:
  assumes inv: "tmp_inv s us" and i: "i < TMPFS_MAX_FILES" "t_valid (g_tmpfs_nodes s ! i)"
    and f: "0 \<le> fd" "fd < int VFS_MAX_OPEN" "length (g_open_files s) = VFS_MAX_OPEN" "g_open_files s ! nat fd = f" "0 \<le> f_fd f" "f_node f \<noteq> 0"
    and node: "v_private (vnodes s (f_node f)) = Suc i" "v_ops (vnodes s (f_node f)) = ops" "ops \<noteq> 0" "ot ops = g_tmpfs_ops"
    and n: "0 < n" "n < 2 ^ 63"
    and q: "q \<in> us" "t_data (g_tmpfs_nodes s ! i) \<noteq> q" "q \<le> buf" "buf + n \<le> q + heap_bsize (fheap s) q"
  shows "\<exists>k s'. vfs_read ot fd buf n s = Some (Inr (int k, s')) \<and> k = min n (length (contents s i) - f_offset f) \<and>
    load (hmem (fheap s')) buf k = take k (drop (f_offset f) (contents s i)) \<and>
    f_offset (g_open_files s' ! nat fd) = f_offset f + k \<and> contents s' i = contents s i"
proof -
  let ?t = "g_tmpfs_nodes s ! i"
  have len: "length (contents s i) = t_size ?t" by (simp add: contents_def)
  have ok: "\<not> bad_fd fd s" using f by (simp add: bad_fd_def)
  have r: "vfs_read ot fd buf n s = ro_bind (tmpfs_vfs_read (f_node f) (f_offset f) buf n s) (\<lambda>(ret, s).
      Some (Inr (ret, if ret > 0 then upd_file (nat fd) (\<lambda>f. f\<lparr>f_offset := add64 (f_offset f) (nat ret)\<rparr>) s else s)))"
    using f node ok by (simp add: vfs_read_def vfs_rw_def Let_def g_tmpfs_ops_def)
  show ?thesis
  proof (cases "f_offset f < t_size ?t")
    case True
    define k where "k = min n (t_size ?t - f_offset f)"
    from tmpfs_read_any[OF inv i f(6) node(1) n True q k_def] obtain m where
      m: "tmpfs_vfs_read (f_node f) (f_offset f) buf n s = Some (Inr (int k, fs_mem (\<lambda>_. m) s))"
      "load m buf k = take k (drop (f_offset f) (contents s i))" "hp.same (us - {q}) (fheap s) (heap_upd (\<lambda>_. m) (fheap s))" by blast
    let ?s' = "upd_file (nat fd) (\<lambda>f. f\<lparr>f_offset := add64 (f_offset f) k\<rparr>) (fs_mem (\<lambda>_. m) s)"
    have kp: "0 < k" "f_offset f + k \<le> t_size ?t" using k_def n(1) True by auto
    have "t_size ?t \<le> 262144" using tmp_invD(3)[OF inv i] pow18 by (fastforce simp: tmp_block_def)
    then have a: "add64 (f_offset f) k = f_offset f + k" using kp(2) by (intro add64_nowrap) simp
    have d: "t_data ?t \<in> us - {q}" using tmp_invD(3)[OF inv i] True q(2) by (auto simp: tmp_block_def)
    have "contents ?s' i = contents s i"
      by (rule contents_same[OF inv i, of "us - {q}"]) (use m(3) d in \<open>simp_all add: upd_file_def fs_mem_def\<close>)
    moreover have "nat fd < length (g_open_files s)" using f(1-3) by simp
    ultimately show ?thesis using r m(1,2) kp(1) a k_def f(4)
      by (intro exI[of _ k] exI[of _ ?s']) (simp add: ro_bind_def len upd_file_def fs_mem_def heap_upd_def)
  next
    case False
    then have "tmpfs_vfs_read (f_node f) (f_offset f) buf n s = Some (Inr (0, s))"
      using f(6) node(1) by (simp add: tmpfs_vfs_read_def Let_def)
    then show ?thesis using r False f(4) by (intro exI[of _ 0] exI[of _ s]) (simp add: ro_bind_def len)
  qed
qed

text \<open>A node the file systems look up has no operations, so a descriptor on it cannot be read or written; and it starts with
  no reference, so closing the descriptor does not free it.\<close>

lemma lookup_node_unusable:
  assumes "new_node g s = Some (Inr (p, s'))" "p \<noteq> 0" "v_ops (g zero_node) = 0" "v_refcount (g zero_node) = 0"
    and "\<not> bad_fd fd s'" "f_node (g_open_files s' ! nat fd) = p"
  shows "vfs_read ot fd buf n s' = Some (Inr (-1, s'))" "vfs_write ot fd buf n s' = Some (Inr (-1, s'))"
    "fheap (vfs_free_node p s') = fheap s'"
proof -
  have "vnodes s' p = g zero_node"
    using assms(1,2) by (auto simp: new_node_def ro_bind_def upd_node_def Let_def split: Option.bind_splits sum.splits if_splits)
  then show "vfs_read ot fd buf n s' = Some (Inr (-1, s'))" "vfs_write ot fd buf n s' = Some (Inr (-1, s'))"
    "fheap (vfs_free_node p s') = fheap s'"
    using assms(2-6) by (simp_all add: vfs_read_def vfs_write_def vfs_rw_def Let_def vfs_free_node_def upd_node_def)
qed

text \<open>A file of 200 bytes at the block \<open>d\<close>, open as descriptor 3 with the offset at 170.\<close>

definition fs_open_example :: "nat \<Rightarrow> heap \<Rightarrow> fsys" where
  "fs_open_example d h = (fs_example h)\<lparr>vnodes := (\<lambda>_. zero_node\<lparr>v_private := 1, v_ops := 9\<rparr>),
     g_tmpfs_nodes := (g_tmpfs_nodes (fs_example h))[0 := \<lparr>t_name = [], t_type = 1, t_data = d, t_size = 200, t_capacity = 256, t_valid = True\<rparr>],
     g_open_files := (replicate VFS_MAX_OPEN \<lparr>f_fd = -1, f_flags = 0, f_offset = 0, f_node = 0, f_refcount = 0\<rparr>)
       [3 := \<lparr>f_fd = 3, f_flags = 0, f_offset = 170, f_node = 1, f_refcount = 1\<rparr>]\<rparr>"

lemma fs_open_example_inv:
  assumes "heap_ok h us" "d \<in> us" "256 \<le> heap_bsize h d"
  shows "tmp_inv (fs_open_example d h) us"
proof -
  have "\<exists>k \<ge> 8. k \<le> 18 \<and> (256::nat) = 2 ^ k" by (rule exI[of _ 8]) simp
  then show ?thesis using assms
    by (auto simp: tmp_inv_def fs_open_example_def fs_example_def tmp_block_def nth_Cons split: nat.splits)
qed

theorem vfs_read_sequential_witness:
  "\<exists>h p q s'. vfs_read (\<lambda>_. g_tmpfs_ops) 3 p 50 (fs_open_example q h) = Some (Inr (30, s')) \<and> f_offset (g_open_files s' ! 3) = 200"
proof -
  obtain h p q where h: "heap_ok h {p, q}" "p \<noteq> q" "100 \<le> heap_bsize h p" "256 \<le> heap_bsize h q" by (rule heap_two_blocks)
  let ?s = "fs_open_example q h"
  have inv: "tmp_inv ?s {p, q}" by (rule fs_open_example_inv[OF h(1) _ h(4)]) simp
  have l: "length (contents ?s 0) = 200" by (simp add: contents_def fs_open_example_def fs_example_def)
  have "\<exists>k s'. vfs_read (\<lambda>_. g_tmpfs_ops) 3 p 50 ?s = Some (Inr (int k, s')) \<and> k = min 50 (length (contents ?s 0) - f_offset (g_open_files ?s ! nat 3)) \<and>
    load (hmem (fheap s')) p k = take k (drop (f_offset (g_open_files ?s ! nat 3)) (contents ?s 0)) \<and>
    f_offset (g_open_files s' ! nat 3) = f_offset (g_open_files ?s ! nat 3) + k \<and> contents s' 0 = contents ?s 0"
    by (rule vfs_read_sequential[OF inv, where q = p and ops = 9])
       (use h in \<open>simp_all add: fs_open_example_def fs_example_def\<close>)
  then show ?thesis using l by (auto simp: fs_open_example_def)
qed

section \<open>Devices\<close>

lemma find_first: "(\<And>j. j < i \<Longrightarrow> \<not> P j) \<Longrightarrow> P i \<Longrightarrow> i < n \<Longrightarrow> find P [0..<n] = Some i"
  by (auto simp: find_Some_iff intro!: exI[of _ i])

lemma devfs_register_at:
  assumes "length (g_devfs_devices s) = DEVFS_MAX_DEVICES" "i < DEVFS_MAX_DEVICES"
    "\<And>j. j < i \<Longrightarrow> d_valid (g_devfs_devices s ! j)" "\<not> d_valid (g_devfs_devices s ! i)"
  shows "devfs_register name ty r w s = (0, s\<lparr>g_devfs_devices := (g_devfs_devices s)[i := \<lparr>d_name = strn_field 32 name, d_type = ty, d_read = r,
                     d_write = w, d_valid = True\<rparr>]\<rparr>)"
  using find_first[of i "\<lambda>i. \<not> d_valid (g_devfs_devices s ! i)" DEVFS_MAX_DEVICES] assms by (simp add: devfs_register_def)

text \<open>The four devices after start-up, in order.\<close>

definition boot_devices :: "devfs_device list" where
  "boot_devices = [\<lparr>d_name = strn_field 32 (bytes ''null''), d_type = 1, d_read = Some DevNullRead, d_write = Some DevNullWrite, d_valid = True\<rparr>,
     \<lparr>d_name = strn_field 32 (bytes ''zero''), d_type = 1, d_read = Some DevZeroRead, d_write = Some DevZeroWrite, d_valid = True\<rparr>,
     \<lparr>d_name = strn_field 32 (bytes ''random''), d_type = 1, d_read = Some DevRandomRead, d_write = None, d_valid = True\<rparr>,
     \<lparr>d_name = strn_field 32 (bytes ''console''), d_type = 1, d_read = Some DevConsoleRead, d_write = Some DevConsoleWrite, d_valid = True\<rparr>]"

lemma devfs_init_devices:
  assumes "length (g_devfs_devices s) = DEVFS_MAX_DEVICES"
  shows "\<exists>ds. devfs_init s = s\<lparr>g_devfs_devices := boot_devices @ ds\<rparr>"
proof -
  have "4 \<le> length (g_devfs_devices s)" using assms by simp
  then obtain a b c d ds where l: "map (\<lambda>d. d\<lparr>d_valid := False\<rparr>) (g_devfs_devices s) = a # b # c # d # ds"
    by (auto simp: numeral_eq_Suc Suc_le_length_iff)
  have len: "length ds = 28" using arg_cong[OF l, of length] assms by simp
  have "\<forall>x\<in>set (map (\<lambda>d. d\<lparr>d_valid := False\<rparr>) (g_devfs_devices s)). \<not> d_valid x" by auto
  then have v: "\<not> d_valid a" "\<not> d_valid b" "\<not> d_valid c" "\<not> d_valid d" unfolding l by auto
  let ?mk = "\<lambda>n t r w. \<lparr>d_name = strn_field 32 n, d_type = t, d_read = r, d_write = w, d_valid = True\<rparr>"
  have R0: "snd (devfs_register n t r w (s\<lparr>g_devfs_devices := a # b # c # d # ds\<rparr>)) = s\<lparr>g_devfs_devices := ?mk n t r w # b # c # d # ds\<rparr>" for n t r w
    by (subst devfs_register_at[where i = 0]) (simp_all add: len v)
  have R1: "snd (devfs_register n t r w (s\<lparr>g_devfs_devices := x # b # c # d # ds\<rparr>)) = s\<lparr>g_devfs_devices := x # ?mk n t r w # c # d # ds\<rparr>"
    if "d_valid x" for x n t r w
    by (subst devfs_register_at[where i = "Suc 0"]) (simp_all add: len v that)
  have R2: "snd (devfs_register n t r w (s\<lparr>g_devfs_devices := x # y # c # d # ds\<rparr>)) = s\<lparr>g_devfs_devices := x # y # ?mk n t r w # d # ds\<rparr>"
    if "d_valid x" "d_valid y" for x y n t r w
    by (subst devfs_register_at[where i = "Suc (Suc 0)"]) (auto simp: len v that less_Suc_eq)
  have R3: "snd (devfs_register n t r w (s\<lparr>g_devfs_devices := x # y # z # d # ds\<rparr>)) = s\<lparr>g_devfs_devices := x # y # z # ?mk n t r w # ds\<rparr>"
    if "d_valid x" "d_valid y" "d_valid z" for x y z n t r w
    by (subst devfs_register_at[where i = "Suc (Suc (Suc 0))"]) (auto simp: len v that less_Suc_eq)
  show ?thesis unfolding devfs_init_def l Let_def by (intro exI[of _ ds]) (simp add: R0 R1 R2 R3 boot_devices_def)
qed

lemma devfs_names: "length (g_devfs_devices s) = DEVFS_MAX_DEVICES \<Longrightarrow> devfs_find (bytes ''console'') (devfs_init s) = Some 3"
proof -
  assume "length (g_devfs_devices s) = DEVFS_MAX_DEVICES"
  from devfs_init_devices[OF this] obtain ds where d: "devfs_init s = s\<lparr>g_devfs_devices := boot_devices @ ds\<rparr>" ..
  have c: "\<not> cstr_eq (strn_field 32 (bytes ''null'')) (bytes ''console'')" "\<not> cstr_eq (strn_field 32 (bytes ''zero'')) (bytes ''console'')"
    "\<not> cstr_eq (strn_field 32 (bytes ''random'')) (bytes ''console'')" "cstr_eq (strn_field 32 (bytes ''console'')) (bytes ''console'')"
    by code_simp+
  show ?thesis unfolding devfs_find_def
    by (rule find_first) (auto simp: d c boot_devices_def less_Suc_eq numeral_3_eq_3)
qed

text \<open>Writing to the console device sends the buffer to the serial port.\<close>

lemma devfs_console_sends:
  assumes l: "length (g_devfs_devices s) = DEVFS_MAX_DEVICES" and dev: "transmits dev" "serial_ready (fserial s)"
    and node: "node \<noteq> 0" "v_private (vnodes s node) = Suc 3" and buf: "buf \<noteq> 0" "n < 2 ^ 31"
  shows "\<exists>s'. devfs_vfs_write dev ext node off buf n (devfs_init s) = Some (Inr (int n, s')) \<and>
    sent (strace (fserial s')) = sent (strace (fserial s)) @ load (hmem (fheap s)) buf n"
proof -
  from devfs_init_devices[OF l] obtain ds where d: "devfs_init s = s\<lparr>g_devfs_devices := boot_devices @ ds\<rparr>" ..
  obtain u where u: "serial_putcs dev (load (hmem (fheap s)) buf n) (fserial s) = Some u"
    "sent (strace u) = sent (strace (fserial s)) @ load (hmem (fheap s)) buf n" using putcs_sends[OF dev] by blast
  show ?thesis using node buf u by (simp add: devfs_vfs_write_def devfs_vfs_rw_def d boot_devices_def dev_console_write_def to_int_small)
qed

end
