(* ===== verification/Spec2Isabelle.thy ===== *)
theory Spec2Isabelle
  imports Gos_Mmu Gos_Math Gos_Sort Gos_Queue Gos_Codec Gos_Number Gos_Fifo Gos_List Gos_Tree Gos_Proc Gos_Ipc Gos_Net Gos_Screen Gos_Input Gos_Files
begin

text \<open>
  gOS is a small kernel for x86-64, written in C. This development models its memory management,
  processes, interprocess communication, file layer, network stack, a number of drivers and its C
  library, and proves what these parts promise to each other. File and function names below are
  those of the source tree.

  \<^bold>\<open>How the parts interact.\<close> \<^verbatim>\<open>mm/pmm\<close> hands out physical pages from a bitmap. \<^verbatim>\<open>mm/vmm\<close> builds page
  tables from such pages and maps, unmaps and translates virtual pages. \<^verbatim>\<open>mm/heap\<close> extends itself
  through both and serves blocks to everything else: process stacks (\<^verbatim>\<open>proc\<close>), message queues and
  shared memory (\<^verbatim>\<open>ipc\<close>), queues (\<^verbatim>\<open>lib/queue.c\<close>) and files (\<^verbatim>\<open>fs/tmpfs\<close>). The scheduler picks the next
  process from a ready queue, driven by the tick of \<^verbatim>\<open>drivers/pit\<close>. The network stack and the file layer
  dispatch through tables of operations that drivers and file systems register.

  \<^bold>\<open>Conventions.\<close> A C structure is a record, an enumeration a datatype, a fixed-width integer a word or a
  natural number with the reduction modulo \<open>2 ^ 32\<close> or \<open>2 ^ 64\<close> written out (\<open>inc64\<close>, \<open>add64\<close>,
  \<open>sub64\<close> of \<^theory_text>\<open>Gos_Prelude\<close>). Static variables are fields of a state record that the operations take and
  return. Memory is a function from addresses to bytes. A processor fault (an index outside a static array,
  a null dereference, a division by zero, an access without translation, the kernel's own halt) is a value of \<open>fault\<close> in the result type
  \<open>'a res\<close>. A loop that need not end is a \<^theory_text>\<open>partial_function (option)\<close>, whose value \<open>None\<close> is not
  returning; where such a loop does end, a lemma or a property says so. No fuel is used: a bounded
  loop of the source (a retry count, a table size) is a recursion on that bound, at the source's value.
  Code outside the sources (what a device answers to a port access, functions registered by a driver, what
  other processes do while a caller waits, a comparison function) is a parameter. Log output is left out
  unless it is all that a function does.

  \<^bold>\<open>Theories.\<close>
  \<^item> \<^theory_text>\<open>Gos_Prelude\<close>: words, wrap-around arithmetic, results with faults, shared list lemmas.
  \<^item> \<^theory_text>\<open>Gos_Bitmap\<close> (\<^verbatim>\<open>lib/bitmap.h\<close>): bit operations on byte arrays; the contract \<open>bit_array\<close>.
  \<^item> \<^theory_text>\<open>Gos_Pmm\<close> (\<^verbatim>\<open>mm/pmm/pmm.c\<close>): page allocation. Allocated pages are exclusive, searches find a
    page or run whenever one exists, freeing undoes allocating; the contract \<open>page_provider\<close>.
  \<^item> \<^theory_text>\<open>Gos_Vmm\<close> (\<^verbatim>\<open>mm/vmm\<close>): page tables refine a partial map of virtual pages; the boot tables are the
    identity and the direct map.
  \<^item> \<^theory_text>\<open>Gos_Mmu\<close> (\<^verbatim>\<open>mm/vmm/vmm.c\<close>, the loop of \<^verbatim>\<open>heap_extend\<close>): the same operations with every table access
    translated by the processor. They equal the direct ones while the tables they touch are visible; mapping and
    unmapping then change the processor's translation of one page.
  \<^item> \<^theory_text>\<open>Gos_Heap\<close> (\<^verbatim>\<open>mm/heap/heap.c\<close>): the free list with headers in memory, splitting, merging, growth;
    blocks are disjoint, keep their contents, and freeing restores the invariant. The contracts \<open>allocator\<close>
    and \<open>reallocator\<close>, on which the theories with heap objects rest.
  \<^item> \<^theory_text>\<open>Gos_Memory\<close>, \<^theory_text>\<open>Gos_String\<close>, \<^theory_text>\<open>Gos_Number\<close>, \<^theory_text>\<open>Gos_Codec\<close>, \<^theory_text>\<open>Gos_Math\<close>, \<^theory_text>\<open>Gos_Sort\<close>
    (\<^verbatim>\<open>lib\<close>, \<^verbatim>\<open>include/gOS\<close>): byte memory, C strings, number printing and parsing, hex, Base64, CRC-32,
    hashes, arithmetic helpers, sorting and searching, each against a list-level or arithmetic definition.
  \<^item> \<^theory_text>\<open>Gos_Fifo\<close> (\<^verbatim>\<open>ring_buffer.h\<close>, \<^verbatim>\<open>ipc/pipe.c\<close>), \<^theory_text>\<open>Gos_List\<close> (\<^verbatim>\<open>list.h\<close>), \<^theory_text>\<open>Gos_Queue\<close>
    (\<^verbatim>\<open>lib/queue.c\<close>), \<^theory_text>\<open>Gos_Tree\<close> (\<^verbatim>\<open>lib/rbtree.c\<close>): containers, each refining a list or a search tree; the
    contract \<open>bounded_fifo\<close>, which the ring buffer, the pipes and the keyboard buffer provide.
  \<^item> \<^theory_text>\<open>Gos_Proc\<close> (\<^verbatim>\<open>proc\<close>): process table, ready queue, round robin, sleeping, exit, context switch,
    signals. Process identifiers stay unique, the ready queue refines a list, a yield rotates it.
  \<^item> \<^theory_text>\<open>Gos_Ipc\<close> (\<^verbatim>\<open>ipc\<close>): semaphores, message queues and shared memory on the heap and the process table.
  \<^item> \<^theory_text>\<open>Gos_Platform\<close>, \<^theory_text>\<open>Gos_Serial\<close>, \<^theory_text>\<open>Gos_Screen\<close>, \<^theory_text>\<open>Gos_Input\<close>: descriptor tables, interrupt
    controller, timer, clock, serial port, framebuffer, keyboard, command line and console. Port accesses
    are recorded in a trace, and what a port reads after a trace is a parameter.
  \<^item> \<^theory_text>\<open>Gos_Files\<close> (\<^verbatim>\<open>fs/vfs\<close>, \<^verbatim>\<open>fs/tmpfs\<close>, \<^verbatim>\<open>fs/devfs\<close>): descriptors, in-memory files and device nodes;
    writing and reading back, sequential reads, growth of files.
  \<^item> \<^theory_text>\<open>Gos_Net\<close> (\<^verbatim>\<open>net\<close>, \<^verbatim>\<open>drivers/nic\<close>): checksums, ARP, routing, IPv4, ICMP, UDP, sockets, DHCP.

  \<^bold>\<open>Assumptions.\<close> \<^theory_text>\<open>Gos_Vmm\<close> and the theories above it read and write page tables directly, as if every table
  were visible in the direct map at \<^verbatim>\<open>KERNEL_VBASE\<close>; \<^theory_text>\<open>Gos_Mmu\<close> lets the processor translate each access and shows when the
  two agree. The heap window (4 MiB above the kernel base) covers part of the direct map, so the heap results
  are about kernels whose window tables lie outside the window (\<open>window_visible\<close>), which holds when the allocator
  hands them out below 4 MiB. The memory of \<^theory_text>\<open>Gos_Heap\<close> is the memory seen at heap addresses; the frames behind them
  are fresh pages and never tables. The context switch keeps the callee-saved registers only. Signed accumulators
  (\<^verbatim>\<open>lib/strtol.c\<close>) wrap as the processor's arithmetic does. \<^verbatim>\<open>pmm_free_page\<close> does
  not check that its page lies in the bitmap; the properties are about pages the caller owns, which do.

  \<^bold>\<open>Not modelled.\<close> Code that only moves constants between device registers (network, USB, disk and sound
  controllers, VGA modes, APIC, DMA, power): it has no state of its own to reason about, and the devices are not
  part of the sources. Assembly: boot code, interrupt stubs, segment loads. Functions that only log or return a constant
  (the stubs of TCP, DNS, IPv6, the buddy allocator). Locking: the model runs one processor, on which
  the spin locks guard nothing that interleaves. The manifest lists every part with its status and reason.
\<close>

end
